(* ===== verification/Prelude.thy ===== *)
theory Prelude
  imports Main "HOL-Library.Word" "HOL-Library.Signed_Division" "HOL-Library.Multiset"
begin

text \<open>
  Shared vocabulary of the development: the machine integer types of the sources, the way
  checked array accesses are written, and the generic lemmas the components share.

  The C sources use 8, 16, 32 and 64 bit integers, signed and unsigned. Both kinds are
  words here; the signedness is in the operation that reads them (\<open>unat\<close>/\<open>uint\<close> or \<open>sint\<close>,
  \<open>ucast\<close> or \<open>scast\<close>, \<open>drop_bit\<close> or \<open>signed_drop_bit\<close>). Arithmetic wraps.

  An access through a pointer that may leave its object, a failed assertion or a fatal error is
  the value \<open>None\<close>.
\<close>

unbundle bit_operations_syntax

type_synonym u8 = "8 word"
type_synonym u16 = "16 word"
type_synonym u32 = "32 word"
type_synonym u64 = "64 word"

type_synonym s16 = "16 word"
type_synonym s32 = "32 word"
type_synonym s64 = "64 word"

section \<open>Checked array accesses\<close>

text \<open>Reading and writing an element of an array object; \<open>None\<close> outside its bounds.\<close>

definition aget :: "'a list \<Rightarrow> nat \<Rightarrow> 'a option" where
  "aget xs i = (if i < length xs then Some (xs ! i) else None)"

definition aset :: "'a list \<Rightarrow> nat \<Rightarrow> 'a \<Rightarrow> 'a list option" where
  "aset xs i v = (if i < length xs then Some (xs[i := v]) else None)"

lemma aget_Some [simp]: "i < length xs \<Longrightarrow> aget xs i = Some (xs ! i)"
  by (simp add: aget_def)

lemma aset_Some [simp]: "i < length xs \<Longrightarrow> aset xs i v = Some (xs[i := v])"
  by (simp add: aset_def)

lemma aget_eq_None [simp]: "aget xs i = None \<longleftrightarrow> length xs \<le> i"
  by (simp add: aget_def)

lemma aset_eq_None [simp]: "aset xs i v = None \<longleftrightarrow> length xs \<le> i"
  by (simp add: aset_def)

section \<open>Iteration\<close>

lemma funpow_comm: "(f ^^ n) (f x) = f ((f ^^ n) x)"
  by (induction n) simp_all

lemma funpow_hom:
  fixes f :: "'a \<Rightarrow> 'a" and f' :: "'b \<Rightarrow> 'b"
  assumes "\<And>x. g (f x) = f' (g x)"
  shows "g ((f ^^ n) x) = (f' ^^ n) (g x)"
  by (induction n) (simp_all add: assms)

lemma funpow_inj:
  fixes f :: "'a \<Rightarrow> 'a"
  assumes "inj f"
  shows "inj (f ^^ n)"
  using assms by (rule inj_fn)

section \<open>Option binding\<close>

lemma bind_eq_SomeE:
  assumes "Option.bind m f = Some y"
  obtains x where "m = Some x" and "f x = Some y"
  using assms by (cases m) auto

lemma bind_eq_Some_iff: "Option.bind m f = Some y \<longleftrightarrow> (\<exists>x. m = Some x \<and> f x = Some y)"
  by (cases m) auto

section \<open>List segments\<close>

lemma nth_list_update_if:
  "i < length xs \<Longrightarrow> xs[j := v] ! i = (if i = j then v else xs ! i)"
  by (auto simp: nth_list_update)

lemma list_update_take_drop:
  "i < length xs \<Longrightarrow> xs[i := v] = take i xs @ v # drop (Suc i) xs"
  by (simp add: upd_conv_take_nth_drop)

lemma drop_eq_ConsD:
  assumes "drop p xs = y # ys"
  shows "p < length xs \<and> xs ! p = y \<and> drop (Suc p) xs = ys"
proof -
  have "p < length xs" using assms by (cases "p < length xs") auto
  then have "xs ! p # drop (Suc p) xs = y # ys"
    using assms by (simp add: Cons_nth_drop_Suc)
  with \<open>p < length xs\<close> show ?thesis by simp
qed

section \<open>Words\<close>

lemma unat_bound: "unat (w :: 'a::len word) < 2 ^ LENGTH('a)"
  by (rule unsigned_less)

section \<open>Counted loops\<close>

text \<open>
  \<open>for (i = 0; i < n; i++) body\<close> over a state, where the body may fault. The loop rule is the usual
  invariant rule; it also shows that the loop does not fault.
\<close>

fun foldM :: "('a \<Rightarrow> 's \<Rightarrow> 's option) \<Rightarrow> 'a list \<Rightarrow> 's \<Rightarrow> 's option" where
  "foldM f [] s = Some s"
| "foldM f (x # xs) s = (case f x s of None \<Rightarrow> None | Some s' \<Rightarrow> foldM f xs s')"

definition for_loop :: "nat \<Rightarrow> (nat \<Rightarrow> 's \<Rightarrow> 's option) \<Rightarrow> 's \<Rightarrow> 's option" where
  "for_loop n body s = foldM body [0..<n] s"

lemma foldM_rule:
  assumes "I m s" and "m \<le> n"
    and "\<And>i s. m \<le> i \<Longrightarrow> i < n \<Longrightarrow> I i s \<Longrightarrow> \<exists>s'. body i s = Some s' \<and> I (Suc i) s'"
  shows "\<exists>s'. foldM body [m..<n] s = Some s' \<and> I n s'"
  using assms
proof (induction "n - m" arbitrary: m s)
  case (Suc d)
  then have "m < n" by simp
  then obtain s1 where s1: "body m s = Some s1" "I (Suc m) s1"
    using Suc.prems(1) Suc.prems(3) [of m s] by auto
  have "\<exists>s'. foldM body [Suc m..<n] s1 = Some s' \<and> I n s'"
    using Suc.hyps(2) \<open>m < n\<close> s1(2) by (intro Suc.hyps(1)) (auto intro!: Suc.prems(3))
  with s1(1) \<open>m < n\<close> show ?case by (simp add: upt_rec)
qed simp

lemma for_loop_rule:
  assumes "I 0 s" and "\<And>i s. i < n \<Longrightarrow> I i s \<Longrightarrow> \<exists>s'. body i s = Some s' \<and> I (Suc i) s'"
  shows "\<exists>s'. for_loop n body s = Some s' \<and> I n s'"
  unfolding for_loop_def using assms by (intro foldM_rule) auto

text \<open>The two nested loops over the elements of a square matrix.\<close>

definition for_ij :: "nat \<Rightarrow> (nat \<Rightarrow> nat \<Rightarrow> 's \<Rightarrow> 's option) \<Rightarrow> 's \<Rightarrow> 's option" where
  "for_ij n body s = for_loop n (\<lambda>i. for_loop n (body i)) s"

lemma for_ij_rule:
  assumes "I 0 s"
    and "\<And>i j s. i < n \<Longrightarrow> j < n \<Longrightarrow> I (i * n + j) s \<Longrightarrow> \<exists>s'. body i j s = Some s' \<and> I (Suc (i * n + j)) s'"
  shows "\<exists>s'. for_ij n body s = Some s' \<and> I (n * n) s'"
  unfolding for_ij_def
proof (rule for_loop_rule [where I = "\<lambda>i. I (i * n)"])
  show "I (0 * n) s" using assms(1) by simp
  show "\<exists>s'. for_loop n (body i) s = Some s' \<and> I (Suc i * n) s'" if "i < n" and "I (i * n) s" for i s
    using that assms(2)
    by (subst mult_Suc, subst add.commute, intro for_loop_rule [where I = "\<lambda>j. I (i * n + j)"]) auto
qed

lemma square_index: "i < n \<Longrightarrow> j < n \<Longrightarrow> i * n + j < n * (n :: nat)"
  by (metis add.commute add_less_cancel_left less_le_trans mult_Suc mult_le_mono1 Suc_leI)

end
