(* ===== verification/Crc.thy ===== *)
theory Crc
  imports Prelude
begin

text \<open>
  The CRC service functions of coremark/core_util.c. Every result of the benchmark is folded
  through them, so they carry the verdict of a run.
\<close>

section \<open>The code\<close>

text \<open>One turn of the loop of \<open>crcu8\<close>: the state is the pair of the locals \<open>data\<close> and \<open>crc\<close>.\<close>

definition crcu8_turn :: "u8 \<times> u16 \<Rightarrow> u8 \<times> u16" where
  "crcu8_turn s =
     (case s of (data, crc) \<Rightarrow>
        let x16 = (data AND 1) XOR ((ucast crc :: u8) AND 1);
            data = drop_bit 1 data
        in if x16 = 1
           then (data, drop_bit 1 (crc XOR 0x4002) OR 0x8000)
           else (data, drop_bit 1 crc AND 0x7fff))"

definition crcu8 :: "u8 \<Rightarrow> u16 \<Rightarrow> u16" where
  "crcu8 data crc = snd ((crcu8_turn ^^ 8) (data, crc))"

definition crcu16 :: "u16 \<Rightarrow> u16 \<Rightarrow> u16" where
  "crcu16 newval crc =
     (let crc = crcu8 (ucast newval) crc
      in crcu8 (ucast (drop_bit 8 newval)) crc)"

definition crc16 :: "s16 \<Rightarrow> u16 \<Rightarrow> u16" where
  "crc16 newval crc = crcu16 newval crc"

definition crcu32 :: "u32 \<Rightarrow> u16 \<Rightarrow> u16" where
  "crcu32 newval crc =
     (let crc = crc16 (ucast newval) crc
      in crc16 (ucast (drop_bit 16 newval)) crc)"

declare push_bit_Suc [simp del] drop_bit_Suc [simp del]

section \<open>The shift register behind it\<close>

text \<open>The reflected CRC-16 register with polynomial 0x8005 (0xa001 reflected), one bit per step.\<close>

definition lfsr :: "u16 \<Rightarrow> u16" where
  "lfsr c = (if bit c 0 then drop_bit 1 c XOR 0xa001 else drop_bit 1 c)"

definition lfsr_back :: "u16 \<Rightarrow> u16" where
  "lfsr_back c = (if bit c 15 then push_bit 1 (c XOR 0xa001) OR 1 else push_bit 1 c)"


text \<open>Equality of 16 bit words, bit by bit: the form in which the simplifier can decide it.\<close>

lemma word16_eqI:
  fixes a b :: u16
  assumes "bit a 0 = bit b 0" "bit a 1 = bit b 1" "bit a 2 = bit b 2" "bit a 3 = bit b 3"
    "bit a 4 = bit b 4" "bit a 5 = bit b 5" "bit a 6 = bit b 6" "bit a 7 = bit b 7"
    "bit a 8 = bit b 8" "bit a 9 = bit b 9" "bit a 10 = bit b 10" "bit a 11 = bit b 11"
    "bit a 12 = bit b 12" "bit a 13 = bit b 13" "bit a 14 = bit b 14" "bit a 15 = bit b 15"
  shows "a = b"
proof (rule bit_word_eqI)
  have "\<forall>n<16. bit a n = bit b n"
    using assms by (simp add: numeral_eq_Suc All_less_Suc)
  then show "bit a n = bit b n" if "n < LENGTH(16)" for n
    using that by simp
qed


lemma bit_word_beyond: "16 \<le> n \<Longrightarrow> bit (c :: u16) n = False"
  by (auto dest: bit_imp_le_length)

lemma bit_byte_beyond: "8 \<le> n \<Longrightarrow> bit (d :: u8) n = False"
  by (auto dest: bit_imp_le_length)

lemmas bits_simps = bit_simps bit_word_beyond bit_byte_beyond

lemma lfsr_back_lfsr: "lfsr_back (lfsr c) = c"
  unfolding lfsr_back_def lfsr_def
  by (rule word16_eqI) (auto simp: bits_simps eval_nat_numeral)

lemma inj_lfsr: "inj lfsr"
  by (rule inj_on_inverseI) (rule lfsr_back_lfsr)

lemma lfsr_xor: "lfsr (a XOR b) = lfsr a XOR lfsr b"
  unfolding lfsr_def
  by (rule word16_eqI) (auto simp: bits_simps)

text \<open>
  One turn of \<open>crcu8\<close> is one step of the register on \<open>crc XOR data\<close>: xoring the data in
  bit by bit is the same as xoring it in at the start.
\<close>

lemma x16_bit: "((data AND 1) XOR (ucast crc AND 1) = (1::u8)) = (bit data 0 \<noteq> bit (crc::u16) 0)"
proof -
  have a: "x AND 1 = of_bool (bit x 0)" for x :: u8
    by (simp add: and_one_eq mod_2_eq_odd bit_0)
  show ?thesis unfolding a by (auto simp: bit_simps)
qed

lemma crcu8_turn_lfsr:
  "crcu8_turn (data, crc) = (drop_bit 1 data, lfsr (crc XOR ucast data) XOR ucast (drop_bit 1 data))"
  unfolding crcu8_turn_def lfsr_def Let_def prod.case x16_bit prod.inject if_distrib
  by (cases "bit data 0"; cases "bit crc 0"; simp add: bits_simps;
      rule word16_eqI; auto simp: bits_simps)

lemma crcu8_turns:
  "(crcu8_turn ^^ k) (data, crc) =
     (drop_bit k data, (lfsr ^^ k) (crc XOR ucast data) XOR ucast (drop_bit k data))"
proof (induction k)
  case 0
  then show ?case by (simp add: xor.assoc)
next
  case (Suc k)
  then show ?case by (simp add: crcu8_turn_lfsr xor.assoc)
qed

lemma crcu8_lfsr: "crcu8 data crc = (lfsr ^^ 8) (crc XOR ucast data)"
proof -
  have "drop_bit 8 data = 0"
    by (rule bit_word_eqI) (simp add: bits_simps)
  then show ?thesis by (simp add: crcu8_def crcu8_turns)
qed

lemma lfsr_pow_xor: "(lfsr ^^ k) (a XOR b) = (lfsr ^^ k) a XOR (lfsr ^^ k) b"
  by (induction k) (simp_all add: lfsr_xor)

text \<open>While the low bits are zero the register only shifts, so a byte placed high comes out low.\<close>

lemma lfsr_pow_shift:
  "(\<And>i. i < k \<Longrightarrow> \<not> bit c i) \<Longrightarrow> (lfsr ^^ k) c = drop_bit k c"
proof (induction k)
  case (Suc k)
  then have "(lfsr ^^ k) c = drop_bit k c" and "\<not> bit c k" by auto
  then have "(lfsr ^^ Suc k) c = lfsr (drop_bit k c)" by simp
  also have "\<dots> = drop_bit (Suc k) c"
    using \<open>\<not> bit c k\<close> by (simp add: lfsr_def bit_drop_bit_eq drop_bit_half drop_bit_Suc)
  finally show ?case .
qed simp

lemma word16_bytes: "newval = ucast (ucast newval :: u8) XOR push_bit 8 (ucast (ucast (drop_bit 8 newval) :: u8))"
  for newval :: u16
  by (rule word16_eqI) (simp_all add: bits_simps)

lemma lfsr_pow_16: "(lfsr ^^ 16) c = (lfsr ^^ 8) ((lfsr ^^ 8) c)"
  using funpow_add [of 8 8 lfsr] by simp

lemma crcu16_lfsr: "crcu16 newval crc = (lfsr ^^ 16) (crc XOR newval)"
proof -
  let ?lo = "ucast (ucast newval :: u8) :: u16" and ?hi = "ucast (ucast (drop_bit 8 newval) :: u8) :: u16"
  have hi: "(lfsr ^^ 8) (push_bit 8 ?hi) = ?hi"
    by (subst lfsr_pow_shift) (auto intro!: word16_eqI simp: bits_simps)
  have "crcu16 newval crc = (lfsr ^^ 8) ((lfsr ^^ 8) (crc XOR ?lo) XOR ?hi)"
    by (simp add: crcu16_def crcu8_lfsr Let_def)
  also have "\<dots> = (lfsr ^^ 8) ((lfsr ^^ 8) (crc XOR ?lo XOR push_bit 8 ?hi))"
    by (simp add: lfsr_pow_xor hi xor.assoc)
  also have "\<dots> = (lfsr ^^ 16) (crc XOR newval)"
    by (subst (3) word16_bytes) (simp add: xor.assoc lfsr_pow_16)
  finally show ?thesis .
qed

lemma inj_crcu16_val: "crcu16 a crc = crcu16 b crc \<longleftrightarrow> a = b"
proof -
  have "a = b" if "crc XOR a = crc XOR b"
  proof -
    from that have "crc XOR (crc XOR a) = crc XOR (crc XOR b)" by simp
    then show "a = b" by (simp add: xor.left_commute)
  qed
  then show ?thesis
    by (auto simp: crcu16_lfsr dest: injD [OF funpow_inj [OF inj_lfsr]])
qed

lemma inj_crcu16_crc: "crcu16 v a = crcu16 v b \<longleftrightarrow> a = b"
proof -
  have "crcu16 v c = crcu16 c v" for c
    by (simp add: crcu16_lfsr xor.commute)
  then show ?thesis by (simp add: inj_crcu16_val)
qed

section \<open>Checksums of value sequences\<close>

text \<open>
  The benchmark folds a sequence of 16 bit results through \<open>crcu16\<close> (\<open>crc16\<close> on signed
  ones). The fold is the specification the properties speak of.
\<close>

definition crc_seq :: "u16 list \<Rightarrow> u16 \<Rightarrow> u16" where
  "crc_seq vs crc = fold crcu16 vs crc"

lemma crc_seq_simps [simp]:
  "crc_seq [] crc = crc"
  "crc_seq (v # vs) crc = crc_seq vs (crcu16 v crc)"
  "crc_seq (us @ vs) crc = crc_seq vs (crc_seq us crc)"
  by (simp_all add: crc_seq_def)

lemma crc_seq_inj: "crc_seq vs a = crc_seq vs b \<longleftrightarrow> a = b"
  by (induction vs arbitrary: a b) (simp_all add: inj_crcu16_crc)

text \<open>The textbook serial CRC-16: one message bit at a time, least significant first.\<close>

definition serial_crc :: "bool list \<Rightarrow> u16 \<Rightarrow> u16" where
  "serial_crc bs crc = fold (\<lambda>b c. lfsr (c XOR of_bool b)) bs crc"

lemma ucast_byte_half: "ucast (d :: u8) = (of_bool (bit d 0) :: u16) XOR push_bit 1 (ucast (drop_bit 1 d))"
  by (rule word16_eqI) (auto simp: bits_simps eval_nat_numeral)

lemma lfsr_push: "\<not> bit c 15 \<Longrightarrow> lfsr (push_bit 1 c) = c"
  unfolding lfsr_def by (rule word16_eqI) (auto simp: bits_simps eval_nat_numeral)

lemma lfsr_step_bit:
  "lfsr (crc XOR ucast (d :: u8)) = lfsr (crc XOR of_bool (bit d 0)) XOR ucast (drop_bit 1 d)"
proof -
  have "lfsr (push_bit 1 (ucast (drop_bit 1 d))) = ucast (drop_bit 1 d)"
    by (rule lfsr_push) (simp add: bits_simps)
  then show ?thesis
    by (subst ucast_byte_half) (simp add: lfsr_xor xor.assoc)
qed

lemma serial_crc_byte:
  "(lfsr ^^ k) (crc XOR ucast (d :: u8)) =
     serial_crc (map (bit d) [0..<k]) crc XOR ucast (drop_bit k d)"
proof (induction k)
  case 0
  then show ?case by (simp add: serial_crc_def)
next
  case (Suc k)
  let ?s = "serial_crc (map (bit d) [0..<k]) crc"
  have "(lfsr ^^ Suc k) (crc XOR ucast d) = lfsr (?s XOR ucast (drop_bit k d))"
    by (simp add: Suc)
  also have "\<dots> = lfsr (?s XOR of_bool (bit d k)) XOR ucast (drop_bit (Suc k) d)"
    by (subst lfsr_step_bit) (simp add: bit_drop_bit_eq drop_bit_half drop_bit_Suc)
  finally show ?case by (simp add: serial_crc_def)
qed

lemma serial_crc_append: "serial_crc (as @ bs) crc = serial_crc bs (serial_crc as crc)"
  by (simp add: serial_crc_def)

lemma crcu8_serial: "crcu8 d crc = serial_crc (map (bit d) [0..<8]) crc"
proof -
  have "drop_bit 8 d = 0"
    by (rule bit_word_eqI) (simp add: bits_simps)
  then show ?thesis by (simp add: crcu8_lfsr serial_crc_byte)
qed

lemma map_bit_append:
  "map (bit w) [0..<m] @ map (bit (drop_bit m w)) [0..<n] = map (bit w) [0..<m + n]"
  by (rule nth_equalityI) (auto simp: nth_append bit_drop_bit_eq)

lemma map_bit_ucast:
  "n \<le> LENGTH('b) \<Longrightarrow> map (bit (ucast (w :: 'a::len word) :: 'b::len word)) [0..<n] = map (bit w) [0..<n]"
  by (rule map_cong) (auto simp: bit_simps)

lemma crcu16_serial: "crcu16 v crc = serial_crc (map (bit v) [0..<16]) crc"
  using map_bit_append [of v 8 8]
  by (simp add: crcu16_def Let_def crcu8_serial map_bit_ucast flip: serial_crc_append)

lemma crcu32_serial: "crcu32 v crc = serial_crc (map (bit v) [0..<32]) crc"
  using map_bit_append [of v 16 16]
  by (simp add: crcu32_def crc16_def Let_def crcu16_serial map_bit_ucast flip: serial_crc_append)

section \<open>Properties\<close>

text \<open>
  C22: the three CRC routines compute the serial CRC-16 (polynomial 0x8005, reflected) of the
  8, 16 or 32 bits of their argument, least significant bit first, from the given register.
\<close>

theorem crc_is_serial:
  "crcu8 d crc = serial_crc (map (bit d) [0..<8]) crc
   \<and> crcu16 v crc = serial_crc (map (bit v) [0..<16]) crc
   \<and> crcu32 w crc = serial_crc (map (bit w) [0..<32]) crc"
  by (simp add: crcu8_serial crcu16_serial crcu32_serial)

text \<open>
  A checksum over a sequence of 16 bit values tells apart any two sequences that differ in
  exactly one value, wherever it is and whatever the starting register.
\<close>

theorem crc_seq_detects_one_value:
  "crc_seq (us @ a # vs) crc = crc_seq (us @ b # vs) crc \<longleftrightarrow> a = b"
  by (simp add: crc_seq_inj inj_crcu16_val)

end
