(* ===== verification/CoreState.thy ===== *)
theory CoreState
  imports Crc
begin

text \<open>
  The state machine benchmark, coremark/core_state.c: \<open>core_init_state\<close> fills a memory block with
  comma separated number tokens, \<open>core_state_transition\<close> scans one token and \<open>core_bench_state\<close>
  scans the whole block, corrupts it, scans it again and undoes the corruption.

  The memory block is the list of its bytes and a pointer into it is an offset. Any access outside
  the list is \<open>None\<close>.
\<close>

section \<open>The code\<close>

datatype core_state =
  CORE_START | CORE_INVALID | CORE_S1 | CORE_S2 | CORE_INT | CORE_FLOAT | CORE_EXPONENT | CORE_SCIENTIFIC

fun state_index :: "core_state \<Rightarrow> nat" where
  "state_index CORE_START = 0"
| "state_index CORE_INVALID = 1"
| "state_index CORE_S1 = 2"
| "state_index CORE_S2 = 3"
| "state_index CORE_INT = 4"
| "state_index CORE_FLOAT = 5"
| "state_index CORE_EXPONENT = 6"
| "state_index CORE_SCIENTIFIC = 7"

abbreviation NUM_CORE_STATES :: nat where
  "NUM_CORE_STATES \<equiv> 8"

text \<open>The counter arrays: \<open>counts[s]++\<close>.\<close>

definition bump :: "core_state \<Rightarrow> u32 list \<Rightarrow> u32 list" where
  "bump s counts = counts[state_index s := counts ! state_index s + 1]"

definition ee_isdigit :: "u8 \<Rightarrow> u8" where
  "ee_isdigit c = (if 0x30 \<le> c \<and> c \<le> 0x39 then 1 else 0)"

abbreviation is_digit :: "u8 \<Rightarrow> bool" where
  "is_digit c \<equiv> ee_isdigit c \<noteq> 0"

text \<open>The \<open>switch\<close> of \<open>core_state_transition\<close>: the next state and the counters.\<close>

fun state_switch :: "core_state \<Rightarrow> u8 \<Rightarrow> u32 list \<Rightarrow> core_state \<times> u32 list" where
  "state_switch CORE_START c cnt =
     (if is_digit c then (CORE_INT, bump CORE_START cnt)
      else if c = 0x2b \<or> c = 0x2d then (CORE_S1, bump CORE_START cnt)
      else if c = 0x2e then (CORE_FLOAT, bump CORE_START cnt)
      else (CORE_INVALID, bump CORE_START (bump CORE_INVALID cnt)))"
| "state_switch CORE_S1 c cnt =
     (if is_digit c then (CORE_INT, bump CORE_S1 cnt)
      else if c = 0x2e then (CORE_FLOAT, bump CORE_S1 cnt)
      else (CORE_INVALID, bump CORE_S1 cnt))"
| "state_switch CORE_INT c cnt =
     (if c = 0x2e then (CORE_FLOAT, bump CORE_INT cnt)
      else if \<not> is_digit c then (CORE_INVALID, bump CORE_INT cnt)
      else (CORE_INT, cnt))"
| "state_switch CORE_FLOAT c cnt =
     (if c = 0x45 \<or> c = 0x65 then (CORE_S2, bump CORE_FLOAT cnt)
      else if \<not> is_digit c then (CORE_INVALID, bump CORE_FLOAT cnt)
      else (CORE_FLOAT, cnt))"
| "state_switch CORE_S2 c cnt =
     (if c = 0x2b \<or> c = 0x2d then (CORE_EXPONENT, bump CORE_S2 cnt)
      else (CORE_INVALID, bump CORE_S2 cnt))"
| "state_switch CORE_EXPONENT c cnt =
     (if is_digit c then (CORE_SCIENTIFIC, bump CORE_EXPONENT cnt)
      else (CORE_INVALID, bump CORE_EXPONENT cnt))"
| "state_switch CORE_SCIENTIFIC c cnt =
     (if \<not> is_digit c then (CORE_INVALID, bump CORE_INVALID cnt)
      else (CORE_SCIENTIFIC, cnt))"
| "state_switch CORE_INVALID c cnt = (CORE_INVALID, cnt)"

text \<open>The \<open>for\<close> loop of \<open>core_state_transition\<close>, from the pointer \<open>str\<close> and state \<open>state\<close>.\<close>

function transition_loop ::
  "u8 list \<Rightarrow> nat \<Rightarrow> core_state \<Rightarrow> u32 list \<Rightarrow> (core_state \<times> nat \<times> u32 list) option" where
  "transition_loop mem str state cnt =
     (if length mem \<le> str then None
      else if mem ! str \<noteq> 0 \<and> state \<noteq> CORE_INVALID
      then if mem ! str = 0x2c then Some (state, Suc str, cnt)
           else (case state_switch state (mem ! str) cnt of (state', cnt') \<Rightarrow>
                   transition_loop mem (Suc str) state' cnt')
      else Some (state, str, cnt))"
  by pat_completeness auto
termination
  by (relation "measure (\<lambda>(mem, str, state, cnt). length mem - str)") auto

declare transition_loop.simps [simp del]

definition core_state_transition ::
  "u8 list \<Rightarrow> nat \<Rightarrow> u32 list \<Rightarrow> (core_state \<times> nat \<times> u32 list) option" where
  "core_state_transition mem instr transition_count =
     transition_loop mem instr CORE_START transition_count"

lemma transition_loop_mono:
  "transition_loop mem p s cnt = Some (s', p', cnt') \<Longrightarrow> p \<le> p' \<and> p' \<le> length mem"
proof (induction mem p s cnt rule: transition_loop.induct)
  case (1 mem str state cnt)
  show ?case
    using "1.prems" "1.IH"
    by (subst (asm) (1) transition_loop.simps) (fastforce split: if_splits prod.splits)
qed

lemma core_state_transition_progress:
  assumes "core_state_transition mem p cnt = Some (s', p', cnt')" and "mem ! p \<noteq> 0"
  shows "p < p' \<and> p' \<le> length mem"
proof -
  have "transition_loop mem p CORE_START cnt = Some (s', p', cnt')"
    using assms(1) by (simp add: core_state_transition_def)
  then have "(mem ! p = 0x2c \<and> p' = Suc p \<and> p < length mem) \<or>
      (\<exists>s1 c1. transition_loop mem (Suc p) s1 c1 = Some (s', p', cnt'))"
    using assms(2) by (subst (asm) transition_loop.simps) (auto split: if_splits prod.splits)
  then show ?thesis
    by (auto dest: transition_loop_mono)
qed

text \<open>The loop \<open>while (*p != 0)\<close> of \<open>core_bench_state\<close>.\<close>

function scan_loop ::
  "u8 list \<Rightarrow> nat \<Rightarrow> u32 list \<Rightarrow> u32 list \<Rightarrow> (u32 list \<times> u32 list) option" where
  "scan_loop mem p final_counts track_counts =
     (if length mem \<le> p then None
      else if mem ! p \<noteq> 0
      then (case core_state_transition mem p track_counts of
              None \<Rightarrow> None
            | Some (fstate, p', track') \<Rightarrow> scan_loop mem p' (bump fstate final_counts) track')
      else Some (final_counts, track_counts))"
  by pat_completeness auto
termination
  by (relation "measure (\<lambda>(mem, p, fc, tc). length mem - p)")
    (auto dest!: core_state_transition_progress)

declare scan_loop.simps [simp del]

text \<open>
  The corruption loop: \<open>p\<close> runs from the start of the block in steps of \<open>step\<close> and every byte it
  meets that is not a comma is xored with the seed. A \<open>step\<close> that is not positive never leaves the
  block forwards.
\<close>

partial_function (option) corrupt_loop ::
  "u8 \<Rightarrow> int \<Rightarrow> int \<Rightarrow> int \<Rightarrow> u8 list \<Rightarrow> u8 list option" where
  "corrupt_loop seed step blksize p mem =
     (if p < blksize
      then if p < 0 \<or> int (length mem) \<le> p then None
           else corrupt_loop seed step blksize (p + step)
                  (if mem ! nat p \<noteq> 0x2c then mem[nat p := mem ! nat p XOR seed] else mem)
      else Some mem)"

fun crc_counts :: "u32 list \<Rightarrow> u32 list \<Rightarrow> u16 \<Rightarrow> u16" where
  "crc_counts (f # fs) (t # ts) crc = crc_counts fs ts (crcu32 t (crcu32 f crc))"
| "crc_counts _ _ crc = crc"

definition core_bench_state ::
  "u32 \<Rightarrow> u8 list \<Rightarrow> s16 \<Rightarrow> s16 \<Rightarrow> s16 \<Rightarrow> u16 \<Rightarrow> (u16 \<times> u8 list) option" where
  "core_bench_state blksize mem seed1 seed2 step crc =
     (let zeros = replicate NUM_CORE_STATES 0 in
      case scan_loop mem 0 zeros zeros of
        None \<Rightarrow> None
      | Some (final_counts, track_counts) \<Rightarrow>
      (case corrupt_loop (ucast seed1) (sint step) (uint blksize) 0 mem of
        None \<Rightarrow> None
      | Some mem1 \<Rightarrow>
      (case scan_loop mem1 0 final_counts track_counts of
        None \<Rightarrow> None
      | Some (final_counts, track_counts) \<Rightarrow>
      (case corrupt_loop (ucast seed2) (sint step) (uint blksize) 0 mem1 of
        None \<Rightarrow> None
      | Some mem2 \<Rightarrow> Some (crc_counts final_counts track_counts crc, mem2)))))"

text \<open>The default patterns, as the bytes of their string literals.\<close>

definition bytes_of :: "string \<Rightarrow> u8 list" where
  "bytes_of s = map (\<lambda>c. of_nat (of_char c)) s"

definition intpat :: "u8 list list" where
  "intpat = map bytes_of [''5012'', ''1234'', ''-874'', ''+122'']"

definition floatpat :: "u8 list list" where
  "floatpat = map bytes_of [''35.54400'', ''.1234500'', ''-110.700'', ''+0.64400'']"

definition scipat :: "u8 list list" where
  "scipat = map bytes_of [''5.500e+3'', ''-.123e-2'', ''-87e+832'', ''+0.6e-12'']"

definition errpat :: "u8 list list" where
  "errpat = map bytes_of [''T0.3e-1F'', ''-T.T++Tq'', ''1T3.4e4z'', ''34.0e-T^'']"

text \<open>The \<open>switch (seed & 0x7)\<close>: the pattern and its length.\<close>

definition choose_pattern :: "s16 \<Rightarrow> u8 list \<times> u32" where
  "choose_pattern seed =
     (let k = unat (seed AND 0x7); j = unat (signed_drop_bit 3 seed AND 0x3) in
      if k \<le> 2 then (intpat ! j, 4)
      else if k \<le> 4 then (floatpat ! j, 8)
      else if k \<le> 6 then (scipat ! j, 8)
      else (errpat ! j, 8))"

text \<open>Storing \<open>buf[0..n-1]\<close> at offset \<open>off\<close>, one checked byte store at a time.\<close>

fun copy_bytes :: "u8 list \<Rightarrow> nat \<Rightarrow> u8 list \<Rightarrow> u8 list option" where
  "copy_bytes mem off [] = Some mem"
| "copy_bytes mem off (b # bs) = Option.bind (aset mem off b) (\<lambda>mem'. copy_bytes mem' (Suc off) bs)"

partial_function (option) init_fill ::
  "u32 \<Rightarrow> u32 \<Rightarrow> u32 \<Rightarrow> u8 list \<Rightarrow> s16 \<Rightarrow> u8 list \<Rightarrow> (u32 \<times> u8 list) option" where
  "init_fill sz tot next buf seed mem =
     (if tot + next + 1 < sz
      then Option.bind
             (if 0 < next
              then map_option (\<lambda>m. (tot + next + 1, m))
                     (copy_bytes mem (unat tot) (take (unat next) buf @ [0x2c]))
              else Some (tot, mem))
             (\<lambda>(tot', mem').
                (case choose_pattern (seed + 1) of (buf', next') \<Rightarrow>
                   init_fill sz tot' next' buf' (seed + 1) mem'))
      else Some (tot, mem))"

partial_function (option) zero_fill :: "u32 \<Rightarrow> u32 \<Rightarrow> u8 list \<Rightarrow> u8 list option" where
  "zero_fill sz tot mem =
     (if tot < sz
      then Option.bind (aset mem (unat tot) 0) (zero_fill sz (tot + 1))
      else Some mem)"

definition core_init_state :: "u32 \<Rightarrow> s16 \<Rightarrow> u8 list \<Rightarrow> u8 list option" where
  "core_init_state sz seed mem =
     (let size1 = sz - 1 in
      case init_fill size1 0 0 [] seed mem of
        None \<Rightarrow> None
      | Some (tot, mem') \<Rightarrow> zero_fill (size1 + 1) tot mem')"

declare corrupt_loop.simps [code] init_fill.simps [code] zero_fill.simps [code]

section \<open>Scanning\<close>

lemma transition_loop_before_zero:
  "p \<le> z \<Longrightarrow> z < length mem \<Longrightarrow> mem ! z = 0 \<Longrightarrow>
   \<exists>s' p' c'. transition_loop mem p s c = Some (s', p', c') \<and> p' \<le> z"
proof (induction mem p s c rule: transition_loop.induct)
  case (1 mem p s c)
  show ?case
  proof (cases "mem ! p \<noteq> 0 \<and> s \<noteq> CORE_INVALID \<and> mem ! p \<noteq> 0x2c")
    case True
    then have "p \<noteq> z" using "1.prems" by auto
    obtain s1 c1 where sw: "state_switch s (mem ! p) c = (s1, c1)" by fastforce
    with True "1.IH" [OF _ _ _ sw [symmetric]] "1.prems" \<open>p \<noteq> z\<close>
    have "\<exists>s' p' c'. transition_loop mem (Suc p) s1 c1 = Some (s', p', c') \<and> p' \<le> z"
      by simp
    then show ?thesis
      using True sw "1.prems" by (subst transition_loop.simps) simp
  next
    case False
    then show ?thesis
      using "1.prems" by (cases "p = z"; subst transition_loop.simps) auto
  qed
qed

lemma scan_loop_before_zero:
  "p \<le> z \<Longrightarrow> z < length mem \<Longrightarrow> mem ! z = 0 \<Longrightarrow> \<exists>r. scan_loop mem p fc tc = Some r"
proof (induction mem p fc tc rule: scan_loop.induct)
  case (1 mem p fc tc)
  show ?case
  proof (cases "mem ! p = 0")
    case True
    then show ?thesis using "1.prems" by (subst scan_loop.simps) simp
  next
    case False
    obtain s' p' c' where t: "core_state_transition mem p tc = Some (s', p', c')" "p' \<le> z"
      using transition_loop_before_zero [OF "1.prems", of CORE_START tc]
      by (auto simp: core_state_transition_def)
    have "\<not> length mem \<le> p" using "1.prems" by simp
    note IH = "1.IH" [OF this False t(1) refl refl t(2) "1.prems"(2,3)]
    then have "\<exists>r. scan_loop mem p' (bump s' fc) c' = Some r" .
    then show ?thesis
      using False t "1.prems" by (subst scan_loop.simps) simp
  qed
qed

section \<open>Corruption\<close>

definition stepped :: "nat \<Rightarrow> nat \<Rightarrow> nat \<Rightarrow> nat \<Rightarrow> bool" where
  "stepped step n p i \<longleftrightarrow> p \<le> i \<and> i < n \<and> (i - p) mod step = 0"

definition corrupt_byte :: "u8 \<Rightarrow> u8 \<Rightarrow> u8" where
  "corrupt_byte seed b = (if b \<noteq> 0x2c then b XOR seed else b)"

definition corrupted :: "u8 \<Rightarrow> nat \<Rightarrow> nat \<Rightarrow> nat \<Rightarrow> u8 list \<Rightarrow> u8 list" where
  "corrupted seed step n p mem =
     map (\<lambda>i. if stepped step n p i then corrupt_byte seed (mem ! i) else mem ! i) [0..<length mem]"

lemma stepped_iff: "stepped step n p i \<longleftrightarrow> i < n \<and> (\<exists>k. i = p + k * step)"
  unfolding stepped_def
  by (auto elim!: dvdE simp: mod_eq_0_iff_dvd) (metis le_add_diff_inverse mult.commute)

lemma stepped_next:
  assumes "p < n"
  shows "stepped step n p i \<longleftrightarrow> i = p \<or> stepped step n (p + step) i"
proof -
  have "(\<exists>k. i = p + k * step) \<longleftrightarrow> i = p \<or> (\<exists>k. i = p + step + k * step)"
    by (metis add.assoc add.right_neutral mult_0 mult_Suc not0_implies_Suc)
  with assms show ?thesis by (auto simp: stepped_iff)
qed

lemma not_stepped_self: "0 < step \<Longrightarrow> \<not> stepped step n (p + step) p"
  by (simp add: stepped_def)

lemma corrupt_loop_corrupted:
  assumes "0 < step" and "n \<le> length mem"
  shows "corrupt_loop seed (int step) (int n) (int p) mem = Some (corrupted seed step n p mem)"
  using assms
proof (induction "n - p" arbitrary: p mem rule: less_induct)
  case less
  show ?case
  proof (cases "p < n")
    case False
    then have "corrupted seed step n p mem = map ((!) mem) [0..<length mem]"
      by (auto simp: corrupted_def stepped_def)
    with False show ?thesis
      by (subst corrupt_loop.simps) (simp add: map_nth)
  next
    case True
    let ?mem = "mem[p := corrupt_byte seed (mem ! p)]"
    have "corrupted seed step n (p + step) ?mem = corrupted seed step n p mem"
      using True less.prems by (intro nth_equalityI)
        (auto simp: corrupted_def stepped_next [OF True] not_stepped_self [OF less.prems(1)] nth_list_update)
    moreover have "corrupt_loop seed (int step) (int n) (int (p + step)) ?mem =
        Some (corrupted seed step n (p + step) ?mem)"
      using less.prems True by (intro less.hyps) auto
    moreover have "(if mem ! nat (int p) \<noteq> 0x2c then mem[nat (int p) := mem ! nat (int p) XOR seed] else mem) = ?mem"
      using list_update_id [of mem p] by (auto simp: corrupt_byte_def simp del: list_update_id)
    ultimately show ?thesis
      using True less.prems by (subst corrupt_loop.simps) (simp split del: if_split del: nat_int)
  qed
qed

lemma length_corrupted [simp]: "length (corrupted seed step n p mem) = length mem"
  by (simp add: corrupted_def)

lemma corrupted_nth:
  "i < length mem \<Longrightarrow> corrupted seed step n p mem ! i =
     (if stepped step n p i then corrupt_byte seed (mem ! i) else mem ! i)"
  by (simp add: corrupted_def)

lemma corrupt_byte_twice: "corrupt_byte s (corrupt_byte s b) = b \<longleftrightarrow> b = 0x2c \<or> b XOR s \<noteq> 0x2c \<or> s = 0"
proof -
  have "b = 0x2c" if "b XOR s = 0x2c" "s = 0" using that by simp
  moreover have "b XOR s \<noteq> b" if "s \<noteq> 0"
    using that by (metis xor.left_neutral xor.assoc xor.commute xor_self_eq)
  ultimately show ?thesis
    by (auto simp: corrupt_byte_def xor.assoc)
qed


lemma corrupted_twice:
  "corrupted s step n p (corrupted s step n p mem) = mem \<longleftrightarrow>
     (\<forall>i<length mem. stepped step n p i \<longrightarrow> mem ! i = 0x2c \<or> mem ! i XOR s \<noteq> 0x2c \<or> s = 0)"
proof -
  have "corrupted s step n p (corrupted s step n p mem) ! i = mem ! i \<longleftrightarrow>
      (stepped step n p i \<longrightarrow> mem ! i = 0x2c \<or> mem ! i XOR s \<noteq> 0x2c \<or> s = 0)"
    if "i < length mem" for i
    using that by (simp add: corrupted_nth corrupt_byte_twice)
  then show ?thesis by (auto simp: list_eq_iff_nth_eq)
qed

text \<open>
  The block's bytes after the corruption loop of a run: every \<open>step\<close>-th byte of the first
  \<open>blksize\<close> is xored, commas excepted.
\<close>

lemma corrupt_loop_block:
  assumes "0 < sint (step :: s16)" and "unat (blksize :: u32) \<le> length mem"
  shows "corrupt_loop seed (sint step) (uint blksize) 0 mem =
    Some (corrupted seed (nat (sint step)) (unat blksize) 0 mem)"
  using corrupt_loop_corrupted [of "nat (sint step)" "unat blksize" mem seed 0] assms
  by simp

text \<open>What a returning run does to the block.\<close>

lemma core_bench_state_mem:
  assumes "0 < sint step" and "unat blksize \<le> length mem"
    and "core_bench_state blksize mem seed1 seed2 step crc = Some (crc', mem')"
  shows "mem' = corrupted (ucast seed2) (nat (sint step)) (unat blksize) 0
                  (corrupted (ucast seed1) (nat (sint step)) (unat blksize) 0 mem)"
  using assms
  by (auto simp: core_bench_state_def Let_def corrupt_loop_block split: option.splits)

text \<open>
  A run returns when the block holds a zero byte before and after the corruption: two zero bytes in a
  row are enough when the step is at least two, since only one of them can be met.
\<close>

lemma core_bench_state_returns:
  assumes step: "2 \<le> sint step" and len: "unat blksize \<le> length mem"
    and z: "Suc z < length mem" "mem ! z = 0" "mem ! Suc z = 0"
  shows "\<exists>crc' mem'. core_bench_state blksize mem seed1 seed2 step crc = Some (crc', mem')"
proof -
  let ?n = "nat (sint step)"
  let ?mem1 = "corrupted (ucast seed1) ?n (unat blksize) 0 mem"
  have n: "0 < sint step" "2 \<le> ?n" using step by auto
  obtain z' where z': "z' < length mem" "?mem1 ! z' = 0"
  proof (cases "z mod ?n = 0")
    case True
    then have "Suc z mod ?n \<noteq> 0"
      using n by (metis One_nat_def add.commute add_self_mod_2 mod_Suc_eq mod_less plus_1_eq_Suc
          Suc_le_lessD nat.distinct(1) numeral_2_eq_2)
    then show ?thesis using z that [of "Suc z"] by (simp add: corrupted_nth stepped_def)
  next
    case False
    then show ?thesis using z that [of z] by (simp add: corrupted_nth stepped_def)
  qed
  obtain fc tc where s1: "scan_loop mem 0 (replicate NUM_CORE_STATES 0) (replicate NUM_CORE_STATES 0) = Some (fc, tc)"
    using scan_loop_before_zero [of 0 z mem] z by fastforce
  obtain fc' tc' where s2: "scan_loop ?mem1 0 fc tc = Some (fc', tc')"
    using scan_loop_before_zero [of 0 z' ?mem1] z' by fastforce
  show ?thesis
    using n len s1 s2 by (simp add: core_bench_state_def corrupt_loop_block)
qed

section \<open>Initialisation\<close>

definition patterns :: "u8 list list" where
  "patterns = intpat @ floatpat @ scipat @ errpat"

lemma patterns_nonzero: "\<forall>b\<in>set (concat patterns). b \<noteq> 0"
  by code_simp

lemma patterns_length: "\<forall>p\<in>set patterns. length p = 4 \<or> length p = 8"
  by code_simp

lemma unat_and_mask: "unat (x AND 3 :: s16) < 4" "unat (x AND 7 :: s16) < 8"
proof -
  have "x AND 3 \<le> 3" "x AND 7 \<le> 7" by (simp_all add: word_and_le1)
  then show "unat (x AND 3) < 4" "unat (x AND 7) < 8"
    by (simp_all add: word_le_nat_alt)
qed

lemma choose_pattern_ok:
  assumes "choose_pattern seed = (buf, n)"
  shows "buf \<in> set patterns \<and> length buf = unat n \<and> (n = 4 \<or> n = 8)"
proof -
  have len: "length intpat = 4" "length floatpat = 4" "length scipat = 4" "length errpat = 4"
    by (simp_all add: intpat_def floatpat_def scipat_def errpat_def)
  have l4: "\<forall>p\<in>set intpat. length p = 4" "\<forall>p\<in>set floatpat. length p = 8"
     "\<forall>p\<in>set scipat. length p = 8" "\<forall>p\<in>set errpat. length p = 8"
    by (simp_all add: intpat_def floatpat_def scipat_def errpat_def bytes_of_def)
  show ?thesis
    using assms len l4 unat_and_mask(1) [of "signed_drop_bit 3 seed"]
    by (auto simp: choose_pattern_def patterns_def Let_def split: if_splits)
qed

lemma copy_bytes_ok:
  "off + length bs \<le> length mem \<Longrightarrow>
   copy_bytes mem off bs = Some (take off mem @ bs @ drop (off + length bs) mem)"
proof (induction bs arbitrary: mem off)
  case (Cons b bs)
  then show ?case
    by (simp add: upd_conv_take_nth_drop take_Suc_conv_app_nth add.commute)
qed simp

text \<open>Comma terminated patterns.\<close>

definition segments :: "u8 list list \<Rightarrow> u8 list" where
  "segments ps = concat (map (\<lambda>p. p @ [0x2c]) ps)"


lemma segments_snoc [simp]: "segments (ps @ [p]) = segments ps @ p @ [0x2c]"
  by (simp add: segments_def)

lemma segments_Nil [simp]: "segments [] = []"
  by (simp add: segments_def)

lemma unat_add_add_1:
  fixes a b :: u32
  assumes "unat a + unat b + 1 < 2 ^ 32"
  shows "unat (a + b + 1) = unat a + unat b + 1"
  using assms by (simp add: unat_word_ariths)

definition fill_inv :: "u32 \<Rightarrow> u32 \<Rightarrow> u32 \<Rightarrow> u8 list \<Rightarrow> u8 list list \<Rightarrow> bool" where
  "fill_inv sz tot nx buf ps \<longleftrightarrow>
     set ps \<subseteq> set patterns \<and> unat tot = length (segments ps) \<and> (unat tot < unat sz \<or> tot = 0)
     \<and> (nx = 0 \<or> buf \<in> set patterns \<and> length buf = unat nx) \<and> unat nx \<le> 8"

lemma init_fill_ok:
  assumes "unat sz + 16 < 2 ^ 32" and "unat sz < length mem"
    and "fill_inv sz tot nx buf ps" and "take (unat tot) mem = segments ps"
  shows "\<exists>tot' ps' mem' nx' buf'. init_fill sz tot nx buf seed mem = Some (tot', mem') \<and> unat tot \<le> unat tot'
     \<and> fill_inv sz tot' nx' buf' ps' \<and> mem' = segments ps' @ drop (unat tot') mem"
  using assms
proof (induction "2 * (unat sz - unat tot) + (if nx = 0 then 1 else 0)"
    arbitrary: tot nx buf seed mem ps rule: less_induct)
  case less
  note inv = less.prems(3) [unfolded fill_inv_def]
  have tot: "unat (tot + nx + 1) = unat tot + unat nx + 1"
    using inv less.prems(1) by (intro unat_add_add_1) auto
  show ?case
  proof (cases "tot + nx + 1 < sz")
    case False
    then have "init_fill sz tot nx buf seed mem = Some (tot, mem)"
      by (subst init_fill.simps) simp
    moreover have "mem = segments ps @ drop (unat tot) mem"
      using append_take_drop_id [of "unat tot" mem] less.prems(4) by simp
    ultimately show ?thesis using less.prems(3) by blast
  next
    case True
    then have lt: "unat tot + unat nx + 1 < unat sz"
      using tot by (simp add: word_less_nat_alt)
    obtain buf2 nx2 where ch: "choose_pattern (seed + 1) = (buf2, nx2)" by fastforce
    note ok = choose_pattern_ok [OF ch]
    define ps2 tot2 mem2 where "ps2 = (if nx = 0 then ps else ps @ [buf])"
      and "tot2 = (if nx = 0 then tot else tot + nx + 1)"
      and "mem2 = (if nx = 0 then mem else segments ps2 @ drop (unat tot2) mem)"
    have inv2: "fill_inv sz tot2 nx2 buf2 ps2"
      using inv ok lt tot by (auto simp: fill_inv_def ps2_def tot2_def)
    have "unat tot < unat tot2" if "nx \<noteq> 0"
      using that tot by (simp add: tot2_def)
    then have dec: "2 * (unat sz - unat tot2) + (if nx2 = 0 then 1 else 0)
        < 2 * (unat sz - unat tot) + (if nx = 0 then 1 else 0)"
      using ok lt tot by (auto simp: tot2_def)
    have take2: "take (unat tot2) mem2 = segments ps2" "unat sz < length mem2" "drop (unat tot2) mem2 = drop (unat tot2) mem"
      using less.prems(2,4) inv2 lt tot by (auto simp: mem2_def ps2_def tot2_def fill_inv_def)
    from less.hyps [OF dec less.prems(1) take2(2) inv2 take2(1)]
    obtain tot' ps' mem' nx' buf' where IH:
      "init_fill sz tot2 nx2 buf2 (seed + 1) mem2 = Some (tot', mem')" "unat tot2 \<le> unat tot'"
      "fill_inv sz tot' nx' buf' ps'" "mem' = segments ps' @ drop (unat tot') mem2" by blast
    have copy: "(if 0 < nx then map_option (\<lambda>m. (tot + nx + 1, m))
          (copy_bytes mem (unat tot) (take (unat nx) buf @ [0x2c])) else Some (tot, mem)) = Some (tot2, mem2)"
      using inv less.prems(2,4) lt tot
      by (auto simp: copy_bytes_ok tot2_def mem2_def ps2_def word_gt_0)
    have "drop (unat tot') mem2 = drop (unat tot') mem"
      using arg_cong [OF take2(3), of "drop (unat tot' - unat tot2)"] IH(2) by simp
    moreover have "unat tot \<le> unat tot2"
      using tot by (simp add: tot2_def)
    moreover have "init_fill sz tot nx buf seed mem = Some (tot', mem')"
      using True by (subst init_fill.simps) (simp add: copy ch IH(1) split del: if_split)
    ultimately show ?thesis using IH by auto
  qed
qed


lemma zero_fill_ok:
  assumes "unat sz \<le> length mem" and "tot \<le> sz"
  shows "zero_fill sz tot mem =
    Some (take (unat tot) mem @ replicate (unat sz - unat tot) 0 @ drop (unat sz) mem)"
  using assms
proof (induction "unat sz - unat tot" arbitrary: tot mem rule: less_induct)
  case less
  show ?case
  proof (cases "tot < sz")
    case False
    then have "tot = sz" using less.prems(2) by simp
    then show ?thesis by (subst zero_fill.simps) simp
  next
    case True
    then have lt: "unat tot < unat sz" by (simp add: word_less_nat_alt)
    have suc: "unat (tot + 1) = Suc (unat tot)"
      using lt unat_bound [of sz] by (simp add: unat_word_ariths)
    then have "tot + 1 \<le> sz" using lt by (simp add: word_le_nat_alt)
    then have "zero_fill sz (tot + 1) (mem[unat tot := 0]) =
        Some (take (Suc (unat tot)) (mem[unat tot := 0]) @ replicate (unat sz - Suc (unat tot)) 0
              @ drop (unat sz) (mem[unat tot := 0]))"
      using less.hyps [of "tot + 1" "mem[unat tot := 0]"] less.prems(1) lt suc by simp
    moreover have "take (Suc (unat tot)) (mem[unat tot := 0]) = take (unat tot) mem @ [0]"
      using lt less.prems(1) by (simp add: take_Suc_conv_app_nth)
    moreover have "replicate (unat sz - unat tot) (0 :: u8) = 0 # replicate (unat sz - Suc (unat tot)) 0"
      using lt by (metis Suc_diff_Suc replicate_Suc)
    ultimately show ?thesis
      using True lt less.prems(1) by (subst zero_fill.simps) simp
  qed
qed

text \<open>
  The block after \<open>core_init_state\<close>: comma terminated patterns, then zeros up to \<open>size\<close>, at least
  two of them; the bytes behind the block are untouched.
\<close>

lemma core_init_state_ok:
  assumes "2 \<le> unat sz" and "unat sz + 16 < 2 ^ 32" and "unat sz \<le> length mem"
  shows "\<exists>ps. core_init_state sz seed mem =
      Some (segments ps @ replicate (unat sz - length (segments ps)) 0 @ drop (unat sz) mem)
    \<and> set ps \<subseteq> set patterns \<and> length (segments ps) + 2 \<le> unat sz"
proof -
  have sz1: "unat (sz - 1) = unat sz - 1"
    using assms(1) by (simp add: unat_sub_if' word_le_nat_alt)
  have "fill_inv (sz - 1) 0 0 [] []" by (simp add: fill_inv_def)
  moreover have "unat (sz - 1) < length mem" "unat (sz - 1) + 16 < 2 ^ 32"
    using sz1 assms by linarith+
  ultimately obtain tot' ps' mem' nx' buf' where f: "init_fill (sz - 1) 0 0 [] seed mem = Some (tot', mem')"
    "fill_inv (sz - 1) tot' nx' buf' ps'" "mem' = segments ps' @ drop (unat tot') mem"
    using init_fill_ok [of "sz - 1" mem 0 0 "[]" "[]" seed] by auto
  then have tot': "unat tot' = length (segments ps')" "set ps' \<subseteq> set patterns" "unat tot' + 2 \<le> unat sz"
    using sz1 assms(1) by (auto simp: fill_inv_def)
  then have "zero_fill sz tot' mem' =
      Some (segments ps' @ replicate (unat sz - length (segments ps')) 0 @ drop (unat sz) mem)"
    using f(3) assms(3) by (subst zero_fill_ok) (auto simp: word_le_nat_alt)
  with f(1) tot' show ?thesis
    by (auto simp: core_init_state_def Let_def)
qed


text \<open>The alphabet of the patterns, commas included, and what a seed may turn into a comma.\<close>

lemma segments_alphabet:
  assumes "set ps \<subseteq> set patterns" and "b \<in> set (segments ps)"
  shows "b = 0x2c \<or> b \<in> set (concat patterns)"
  using assms by (auto simp: segments_def split: if_splits)

definition safe_seed :: "s16 \<Rightarrow> bool" where
  "safe_seed seed \<longleftrightarrow> (ucast seed :: u8) = 0 \<or> (\<forall>b\<in>set (0 # concat patterns). b XOR ucast seed \<noteq> 0x2c)"

section \<open>The token grammar\<close>

text \<open>
  What the machine is meant to recognise, without states: an optional sign, digits, a point with
  more digits, an exponent letter, a sign and digits. A token that stops early is classified by how
  far it got.
\<close>

definition is_sign :: "u8 \<Rightarrow> bool" where
  "is_sign c \<longleftrightarrow> c = 0x2b \<or> c = 0x2d"

fun classify_exp :: "u8 list \<Rightarrow> core_state" where
  "classify_exp [] = CORE_S2"
| "classify_exp [c] = (if is_sign c then CORE_EXPONENT else CORE_INVALID)"
| "classify_exp (c # ds) = (if is_sign c \<and> list_all is_digit ds then CORE_SCIENTIFIC else CORE_INVALID)"

fun classify_frac :: "u8 list \<Rightarrow> core_state" where
  "classify_frac [] = CORE_FLOAT"
| "classify_frac (c # r) = (if c = 0x45 \<or> c = 0x65 then classify_exp r else CORE_INVALID)"

fun strip_sign :: "u8 list \<Rightarrow> u8 list" where
  "strip_sign [] = []"
| "strip_sign (c # r) = (if is_sign c then r else c # r)"

definition classify :: "u8 list \<Rightarrow> core_state" where
  "classify t =
     (let r = strip_sign t in
      case dropWhile is_digit r of
        [] \<Rightarrow> if r \<noteq> [] then CORE_INT else if t \<noteq> [] then CORE_S1 else CORE_START
      | c # r' \<Rightarrow> if c = 0x2e then classify_frac (dropWhile is_digit r') else CORE_INVALID)"

definition next_state :: "core_state \<Rightarrow> u8 \<Rightarrow> core_state" where
  "next_state s c = fst (state_switch s c [])"

lemma state_switch_fst: "fst (state_switch s c cnt) = next_state s c"
  unfolding next_state_def by (cases s) auto

lemma next_state_eqs:
  "next_state CORE_INVALID c = CORE_INVALID"
  "next_state CORE_START c =
     (if is_digit c then CORE_INT else if is_sign c then CORE_S1
      else if c = 0x2e then CORE_FLOAT else CORE_INVALID)"
  "next_state CORE_S1 c =
     (if is_digit c then CORE_INT else if c = 0x2e then CORE_FLOAT else CORE_INVALID)"
  "next_state CORE_INT c =
     (if c = 0x2e then CORE_FLOAT else if is_digit c then CORE_INT else CORE_INVALID)"
  "next_state CORE_FLOAT c =
     (if c = 0x45 \<or> c = 0x65 then CORE_S2 else if is_digit c then CORE_FLOAT else CORE_INVALID)"
  "next_state CORE_S2 c = (if is_sign c then CORE_EXPONENT else CORE_INVALID)"
  "next_state CORE_EXPONENT c = (if is_digit c then CORE_SCIENTIFIC else CORE_INVALID)"
  "next_state CORE_SCIENTIFIC c = (if is_digit c then CORE_SCIENTIFIC else CORE_INVALID)"
  by (auto simp: next_state_def is_sign_def)

lemma digit_consts [simp]:
  "ee_isdigit 0x2b = 0" "ee_isdigit 0x2d = 0" "ee_isdigit 0x2e = 0" "ee_isdigit 0x45 = 0" "ee_isdigit 0x65 = 0"
  by (simp_all add: ee_isdigit_def)

lemma sign_not_digit: "is_sign c \<Longrightarrow> ee_isdigit c = 0"
  by (auto simp: is_sign_def)

abbreviation run_states :: "core_state \<Rightarrow> u8 list \<Rightarrow> core_state" where
  "run_states \<equiv> foldl next_state"

lemma run_INVALID [simp]: "run_states CORE_INVALID t = CORE_INVALID"
  by (induction t) (simp_all add: next_state_eqs)

lemma run_SCIENTIFIC: "run_states CORE_SCIENTIFIC t = (if list_all is_digit t then CORE_SCIENTIFIC else CORE_INVALID)"
  by (induction t) (simp_all add: next_state_eqs)

lemma run_S2: "run_states CORE_S2 t = classify_exp t"
  by (induction t rule: classify_exp.induct) (auto simp: next_state_eqs run_SCIENTIFIC)

lemma run_FLOAT: "run_states CORE_FLOAT t = classify_frac (dropWhile is_digit t)"
  by (induction t) (auto simp: next_state_eqs run_S2)

lemma run_INT: "run_states CORE_INT t =
  (case dropWhile is_digit t of [] \<Rightarrow> CORE_INT
   | c # r \<Rightarrow> if c = 0x2e then classify_frac (dropWhile is_digit r) else CORE_INVALID)"
  by (induction t) (auto simp: next_state_eqs run_FLOAT)

lemma run_START: "run_states CORE_START t = classify t"
proof (cases t)
  case (Cons c r)
  show ?thesis
  proof (cases "is_sign c")
    case True
    then show ?thesis using Cons
      by (cases r) (auto simp: next_state_eqs run_FLOAT run_INT classify_def Let_def sign_not_digit)
  next
    case False
    then show ?thesis using Cons
      by (auto simp: next_state_eqs run_FLOAT run_INT classify_def Let_def)
  qed
qed (simp add: classify_def)

lemma transition_loop_token:
  assumes "drop p mem = tok @ c # post" and "0 \<notin> set tok" and "0x2c \<notin> set tok" and "c = 0 \<or> c = 0x2c"
  shows "\<exists>n cnt'. transition_loop mem p s cnt =
      Some (run_states s tok, p + n + (if run_states s tok \<noteq> CORE_INVALID \<and> c = 0x2c then 1 else 0), cnt')
    \<and> n \<le> length tok \<and> run_states s (take n tok) = run_states s tok
    \<and> (\<forall>m<n. run_states s (take m tok) \<noteq> CORE_INVALID)
    \<and> (run_states s tok \<noteq> CORE_INVALID \<longrightarrow> n = length tok)"
  using assms
proof (induction tok arbitrary: p s cnt)
  case Nil
  then have "p < length mem" "mem ! p = c"
    by (auto dest: drop_eq_ConsD)
  then show ?case using Nil.prems by (subst transition_loop.simps) auto
next
  case (Cons b tok)
  have p: "p < length mem" "mem ! p = b" "drop (Suc p) mem = tok @ c # post"
    using drop_eq_ConsD [of p mem b "tok @ c # post"] Cons.prems(1) by auto
  have b: "b \<noteq> 0" "b \<noteq> 0x2c" using Cons.prems(2,3) by auto
  show ?case
  proof (cases "s = CORE_INVALID")
    case True
    then show ?thesis using p b by (subst transition_loop.simps) (auto simp: next_state_eqs intro!: exI [of _ 0])
  next
    case False
    obtain s1 cnt1 where sw: "state_switch s b cnt = (s1, cnt1)" by fastforce
    then have s1: "s1 = next_state s b" using state_switch_fst [of s b cnt] by simp
    from Cons.IH [OF p(3), of s1 cnt1] Cons.prems(2-4)
    obtain n cnt' where IH: "transition_loop mem (Suc p) s1 cnt1 =
        Some (run_states s1 tok, Suc p + n + (if run_states s1 tok \<noteq> CORE_INVALID \<and> c = 0x2c then 1 else 0), cnt')"
      "n \<le> length tok" "run_states s1 (take n tok) = run_states s1 tok"
      "\<forall>m<n. run_states s1 (take m tok) \<noteq> CORE_INVALID"
      "run_states s1 tok \<noteq> CORE_INVALID \<longrightarrow> n = length tok" by auto
    have "\<forall>m<Suc n. run_states s (take m (b # tok)) \<noteq> CORE_INVALID"
      using IH(4) False s1 by (auto simp: less_Suc_eq_0_disj)
    moreover have "transition_loop mem p s cnt =
        Some (run_states s (b # tok), p + Suc n + (if run_states s (b # tok) \<noteq> CORE_INVALID \<and> c = 0x2c then 1 else 0), cnt')"
      using p b False sw s1 IH(1) by (subst transition_loop.simps) simp
    ultimately show ?thesis
      using IH(2,3,5) s1 by (intro exI [of _ "Suc n"] exI [of _ cnt']) simp
  qed
qed

section \<open>Properties\<close>

text \<open>
  C13: the second corruption loop with the same seed restores the block exactly when no byte it
  meets (other than a comma) is turned into a comma by the first: the guard that protects commas
  then skips it on the way back.
\<close>

theorem core_bench_state_restores_iff:
  assumes "0 < sint step" and "unat blksize \<le> length mem"
    and "core_bench_state blksize mem seed seed step crc = Some (crc', mem')"
  shows "mem' = mem \<longleftrightarrow>
    (\<forall>i<unat blksize. i mod nat (sint step) = 0 \<longrightarrow>
       mem ! i = 0x2c \<or> mem ! i XOR ucast seed \<noteq> 0x2c \<or> (ucast seed :: u8) = 0)"
  using assms(2)
  by (auto simp: core_bench_state_mem [OF assms] corrupted_twice stepped_def)

theorem core_bench_state_restores_iff_witness:
  "\<exists>crc' mem'. core_bench_state 3 [0x39, 0, 0] 0x3415 0x3415 2 0 = Some (crc', mem')
     \<and> mem' \<noteq> [0x39, 0, 0]"
proof -
  obtain crc' mem' where run: "core_bench_state 3 [0x39, 0, 0] 0x3415 0x3415 2 0 = Some (crc', mem')"
    using core_bench_state_returns [of 2 3 "[0x39, 0, 0]" 1 "0x3415" "0x3415" 0] by auto
  have "mem' \<noteq> [0x39, 0, 0]"
    using core_bench_state_restores_iff [OF _ _ run] by (auto intro!: exI [of _ 0])
  with run show ?thesis by blast
qed

lemma core_init_state_bytes:
  assumes "2 \<le> unat sz" and "unat sz + 16 < 2 ^ 32" and "unat sz \<le> length mem"
  shows "\<exists>mem0 z. core_init_state sz seed mem = Some mem0 \<and> length mem0 = length mem
    \<and> drop (unat sz) mem0 = drop (unat sz) mem
    \<and> Suc z < unat sz \<and> mem0 ! z = 0 \<and> mem0 ! Suc z = 0
    \<and> (\<forall>i<unat sz. mem0 ! i = 0x2c \<or> mem0 ! i = 0 \<or> mem0 ! i \<in> set (concat patterns))"
proof -
  obtain ps where ps: "core_init_state sz seed mem =
      Some (segments ps @ replicate (unat sz - length (segments ps)) 0 @ drop (unat sz) mem)"
    "set ps \<subseteq> set patterns" "length (segments ps) + 2 \<le> unat sz"
    using core_init_state_ok [OF assms] by blast
  define mem0 where "mem0 = segments ps @ replicate (unat sz - length (segments ps)) 0 @ drop (unat sz) mem"
  have z: "Suc (length (segments ps)) < unat sz" "mem0 ! length (segments ps) = 0" "mem0 ! Suc (length (segments ps)) = 0"
    using ps(3) assms(3) by (auto simp: mem0_def nth_append)
  have "mem0 ! i = 0x2c \<or> mem0 ! i = 0 \<or> mem0 ! i \<in> set (concat patterns)" if "i < unat sz" for i
    using that ps(3) segments_alphabet [OF ps(2), of "segments ps ! i"]
    by (auto simp: mem0_def nth_append)
  then show ?thesis
    using ps(1,3) assms(3) z by (intro exI [of _ mem0] exI [of _ "length (segments ps)"]) (simp add: mem0_def)
qed

lemma safe_seed_bytes:
  assumes "safe_seed seed" and "b = 0x2c \<or> b = 0 \<or> b \<in> set (concat patterns)"
  shows "b = 0x2c \<or> b XOR ucast seed \<noteq> 0x2c \<or> (ucast seed :: u8) = 0"
  using assms unfolding safe_seed_def by (metis insertCI list.simps(15))

text \<open>
  C14: on a block that \<open>core_init_state\<close> has filled, a benchmark run with any seeds and any step of
  at least two returns (no access leaves the block, both scans stop at a zero byte), changes nothing
  outside the block, and leaves the block as it was when the two seeds agree and cannot turn a
  pattern byte into a comma.
\<close>

theorem core_state_run_is_safe:
  assumes "2 \<le> unat sz" and "unat sz + 16 < 2 ^ 32" and "unat sz \<le> length mem" and "2 \<le> sint step"
  shows "\<exists>mem0 crc' mem'. core_init_state sz seed mem = Some mem0
    \<and> core_bench_state sz mem0 seed1 seed2 step crc = Some (crc', mem')
    \<and> length mem0 = length mem \<and> length mem' = length mem
    \<and> drop (unat sz) mem' = drop (unat sz) mem
    \<and> (seed1 = seed2 \<and> safe_seed seed1 \<longrightarrow> mem' = mem0)"
proof -
  obtain mem0 z where mem0: "core_init_state sz seed mem = Some mem0" "length mem0 = length mem"
    "drop (unat sz) mem0 = drop (unat sz) mem" "Suc z < unat sz" "mem0 ! z = 0" "mem0 ! Suc z = 0"
    "\<forall>i<unat sz. mem0 ! i = 0x2c \<or> mem0 ! i = 0 \<or> mem0 ! i \<in> set (concat patterns)"
    using core_init_state_bytes [OF assms(1-3)] by blast
  have z: "Suc z < length mem0" using mem0(2,4) assms(3) by simp
  obtain crc' mem' where run: "core_bench_state sz mem0 seed1 seed2 step crc = Some (crc', mem')"
    using core_bench_state_returns [OF assms(4) _ z mem0(5,6)] assms(3) mem0(2) by fastforce
  have mem': "mem' = corrupted (ucast seed2) (nat (sint step)) (unat sz) 0
                  (corrupted (ucast seed1) (nat (sint step)) (unat sz) 0 mem0)"
    using core_bench_state_mem [OF _ _ run] assms(3,4) mem0(2) by simp
  have "drop (unat sz) mem' = drop (unat sz) mem0"
    by (rule nth_equalityI) (auto simp: mem' corrupted_nth stepped_def)
  then have tail: "drop (unat sz) mem' = drop (unat sz) mem" using mem0(3) by simp
  have "mem' = mem0" if eq: "seed1 = seed2" and safe: "safe_seed seed1"
    using safe_seed_bytes [OF safe] mem0(7)
    unfolding mem' eq [symmetric] corrupted_twice by (auto simp: stepped_def)
  then show ?thesis
    using mem0(1,2) run tail mem' by auto
qed

theorem core_state_run_is_safe_witness:
  "\<exists>mem0 crc' mem'. core_init_state 40 8 (replicate 50 7) = Some mem0
    \<and> core_bench_state 40 mem0 8 8 34 0 = Some (crc', mem') \<and> mem' = mem0"
proof -
  have "safe_seed 8" by code_simp
  then show ?thesis
    using core_state_run_is_safe [of 40 "replicate 50 7" 34 8 8 8 0] by auto
qed

text \<open>
  C15: \<open>core_state_transition\<close> classifies the token under the pointer (up to the next comma or zero
  byte) as the grammar does. A recognised token is consumed with its comma; an invalid one up to and
  with the first byte that makes it invalid.
\<close>

theorem core_state_transition_classifies:
  assumes "drop p mem = tok @ c # post" and "0 \<notin> set tok" and "0x2c \<notin> set tok" and "c = 0 \<or> c = 0x2c"
  shows "\<exists>n cnt'. core_state_transition mem p cnt =
      Some (classify tok, p + n + (if classify tok \<noteq> CORE_INVALID \<and> c = 0x2c then 1 else 0), cnt')
    \<and> n \<le> length tok \<and> classify (take n tok) = classify tok
    \<and> (\<forall>m<n. classify (take m tok) \<noteq> CORE_INVALID)
    \<and> (classify tok \<noteq> CORE_INVALID \<longrightarrow> n = length tok)"
  using transition_loop_token [OF assms, of CORE_START cnt]
  by (simp add: core_state_transition_def run_START)

theorem core_state_transition_classifies_witness:
  "\<exists>n cnt'. core_state_transition (bytes_of ''-1.5e+3,x'' @ [0]) 0 (replicate 8 0) =
      Some (CORE_SCIENTIFIC, n, cnt') \<and> n = 8"
proof -
  have t: "drop 0 (bytes_of ''-1.5e+3,x'' @ [0]) = bytes_of ''-1.5e+3'' @ 0x2c # (bytes_of ''x'' @ [0])"
    "0 \<notin> set (bytes_of ''-1.5e+3'')" "0x2c \<notin> set (bytes_of ''-1.5e+3'')"
    by code_simp+
  have "classify (bytes_of ''-1.5e+3'') = CORE_SCIENTIFIC" "length (bytes_of ''-1.5e+3'') = 7"
    by code_simp+
  then show ?thesis
    using core_state_transition_classifies [OF t, of "replicate 8 0"] by auto
qed

end
