(* ===== verification/CoreMatrix.thy ===== *)
theory CoreMatrix
  imports Crc
begin

text \<open>
  The matrix benchmark, coremark/core_matrix.c. The operands \<open>A\<close> and \<open>B\<close> are N x N arrays of 16
  bit values and the result \<open>C\<close> is an N x N array of 32 bit values, stored by rows; an access
  outside an array is \<open>None\<close>. The three arrays lie side by side in the memory block
  (\<open>core_init_matrix\<close>), so they do not overlap.

  \<open>MATDAT\<close> is \<open>ee_s16\<close> and \<open>MATRES\<close> is \<open>ee_s32\<close>; C sums that overflow a signed 32 bit
  integer are taken to wrap.
\<close>

section \<open>The code\<close>

type_synonym matdat = s16
type_synonym matres = s32

record mat_params =
  matN :: s32
  matA :: "matdat list"
  matB :: "matdat list"
  matC :: "matres list"

text \<open>The subscript \<open>i * N + j\<close>, computed in \<open>ee_u32\<close>.\<close>

definition midx :: "u32 \<Rightarrow> nat \<Rightarrow> nat \<Rightarrow> nat" where
  "midx N i j = unat (of_nat i * N + of_nat j :: u32)"

definition matrix_big :: "matdat \<Rightarrow> matdat" where
  "matrix_big x = 0xf000 OR x"

definition bit_extract :: "s32 \<Rightarrow> nat \<Rightarrow> nat \<Rightarrow> u32" where
  "bit_extract x from to = signed_drop_bit from x AND NOT (push_bit to 0xffffffff)"

definition matrix_add_const :: "u32 \<Rightarrow> matdat list \<Rightarrow> matdat \<Rightarrow> matdat list option" where
  "matrix_add_const N A val =
     for_ij (unat N) (\<lambda>i j A.
       Option.bind (aget A (midx N i j)) (\<lambda>a. aset A (midx N i j) (a + val))) A"

definition matrix_mul_const :: "u32 \<Rightarrow> matres list \<Rightarrow> matdat list \<Rightarrow> matdat \<Rightarrow> matres list option" where
  "matrix_mul_const N C A val =
     for_ij (unat N) (\<lambda>i j C.
       Option.bind (aget A (midx N i j)) (\<lambda>a. aset C (midx N i j) (scast a * scast val))) C"

definition matrix_mul_vect :: "u32 \<Rightarrow> matres list \<Rightarrow> matdat list \<Rightarrow> matdat list \<Rightarrow> matres list option" where
  "matrix_mul_vect N C A B =
     for_loop (unat N) (\<lambda>i C.
       Option.bind (aset C i 0)
         (for_loop (unat N) (\<lambda>j C.
            Option.bind (aget A (midx N i j)) (\<lambda>a.
            Option.bind (aget B j) (\<lambda>b.
            Option.bind (aget C i) (\<lambda>c. aset C i (c + scast a * scast b))))))) C"

definition matrix_mul_matrix :: "u32 \<Rightarrow> matres list \<Rightarrow> matdat list \<Rightarrow> matdat list \<Rightarrow> matres list option" where
  "matrix_mul_matrix N C A B =
     for_ij (unat N) (\<lambda>i j C.
       Option.bind (aset C (midx N i j) 0)
         (for_loop (unat N) (\<lambda>k C.
            Option.bind (aget A (midx N i k)) (\<lambda>a.
            Option.bind (aget B (midx N k j)) (\<lambda>b.
            Option.bind (aget C (midx N i j)) (\<lambda>c.
              aset C (midx N i j) (c + scast a * scast b))))))) C"

definition matrix_mul_matrix_bitextract ::
  "u32 \<Rightarrow> matres list \<Rightarrow> matdat list \<Rightarrow> matdat list \<Rightarrow> matres list option" where
  "matrix_mul_matrix_bitextract N C A B =
     for_ij (unat N) (\<lambda>i j C.
       Option.bind (aset C (midx N i j) 0)
         (for_loop (unat N) (\<lambda>k C.
            Option.bind (aget A (midx N i k)) (\<lambda>a.
            Option.bind (aget B (midx N k j)) (\<lambda>b.
            Option.bind (aget C (midx N i j)) (\<lambda>c.
              let tmp = scast a * scast b
              in aset C (midx N i j) (c + bit_extract tmp 2 4 * bit_extract tmp 5 7))))))) C"

text \<open>The state of \<open>matrix_sum\<close> is \<open>(tmp, prev, ret)\<close>.\<close>

definition matrix_sum :: "u32 \<Rightarrow> matres list \<Rightarrow> matdat \<Rightarrow> s16 option" where
  "matrix_sum N C clipval =
     map_option (\<lambda>(tmp, prev, ret). ret)
       (for_ij (unat N) (\<lambda>i j (tmp, prev, ret).
          Option.bind (aget C (midx N i j)) (\<lambda>cur.
            let tmp = tmp + cur
            in Some (if sint tmp > sint clipval then (0, cur, ret + 10)
                     else (tmp, cur, ret + (if sint cur > sint prev then 1 else 0)))))
          (0 :: s32, 0 :: s32, 0 :: s16))"

definition matrix_test ::
  "u32 \<Rightarrow> matres list \<Rightarrow> matdat list \<Rightarrow> matdat list \<Rightarrow> matdat \<Rightarrow> (s16 \<times> matres list \<times> matdat list) option" where
  "matrix_test N C A B val =
     (let crc = 0; clipval = matrix_big val in
      Option.bind (matrix_add_const N A val) (\<lambda>A.
      Option.bind (matrix_mul_const N C A val) (\<lambda>C.
      Option.bind (matrix_sum N C clipval) (\<lambda>r.
      let crc = crc16 r crc in
      Option.bind (matrix_mul_vect N C A B) (\<lambda>C.
      Option.bind (matrix_sum N C clipval) (\<lambda>r.
      let crc = crc16 r crc in
      Option.bind (matrix_mul_matrix N C A B) (\<lambda>C.
      Option.bind (matrix_sum N C clipval) (\<lambda>r.
      let crc = crc16 r crc in
      Option.bind (matrix_mul_matrix_bitextract N C A B) (\<lambda>C.
      Option.bind (matrix_sum N C clipval) (\<lambda>r.
      let crc = crc16 r crc in
      Option.bind (matrix_add_const N A (- val)) (\<lambda>A.
      Some (crc, C, A))))))))))))"

definition core_bench_matrix :: "mat_params \<Rightarrow> s16 \<Rightarrow> u16 \<Rightarrow> (u16 \<times> mat_params) option" where
  "core_bench_matrix p seed crc =
     (case matrix_test (matN p) (matC p) (matA p) (matB p) seed of
        None \<Rightarrow> None
      | Some (r, C, A) \<Rightarrow> Some (crc16 r crc, p\<lparr>matC := C, matA := A\<rparr>))"

text \<open>
  \<open>core_init_matrix\<close>: the loop \<open>while (j < blksize)\<close> that finds the dimension, the loops that fill
  \<open>A\<close> and \<open>B\<close> (\<open>seed\<close> and \<open>order\<close> are \<open>ee_s32\<close>, \<open>%\<close> truncates), and the addresses of the arrays.
\<close>

partial_function (option) dim_loop :: "u32 \<Rightarrow> u32 \<Rightarrow> u32 \<Rightarrow> u32 option" where
  "dim_loop blksize i j =
     (if j < blksize then dim_loop blksize (i + 1) ((i + 1) * (i + 1) * 2 * 4) else Some i)"

definition matrix_clip :: "s16 \<Rightarrow> bool \<Rightarrow> s16" where
  "matrix_clip x y = (if y then x AND 0xff else x AND 0xffff)"

definition c_mod :: "s32 \<Rightarrow> s32 \<Rightarrow> s32" where
  "c_mod x y = word_of_int (sint x smod sint y)"

definition fill_step :: "s32 \<times> s32 \<Rightarrow> (matdat \<times> matdat) \<times> s32 \<times> s32" where
  "fill_step s =
     (case s of (seed, order) \<Rightarrow>
        let seed = c_mod (order * seed) 65536;
            b = matrix_clip (ucast (seed + order)) False;
            a = matrix_clip (ucast (scast b + order :: s32)) True
        in ((a, b), seed, order + 1))"

definition fill_matrices ::
  "u32 \<Rightarrow> s32 \<Rightarrow> matdat list \<Rightarrow> matdat list \<Rightarrow> (s32 \<times> s32 \<times> matdat list \<times> matdat list) option" where
  "fill_matrices N seed A B =
     for_ij (unat N) (\<lambda>i j (seed, order, A, B).
       case fill_step (seed, order) of ((a, b), seed, order) \<Rightarrow>
         Option.bind (aset B (midx N i j) b) (\<lambda>B.
         Option.bind (aset A (midx N i j) a) (\<lambda>A.
         Some (seed, order, A, B)))) (seed, 1, A, B)"

definition align_mem :: "u64 \<Rightarrow> u64" where
  "align_mem x = 4 + ((x - 1) AND NOT 3)"

record mat_layout =
  addrA :: u64
  addrB :: u64
  addrC :: u64

definition matrix_layout :: "u64 \<Rightarrow> u32 \<Rightarrow> mat_layout" where
  "matrix_layout memblk N =
     (let A = align_mem memblk; B = A + 2 * ucast (N * N)
      in \<lparr>addrA = A, addrB = B, addrC = align_mem (B + 2 * ucast (N * N))\<rparr>)"

text \<open>The contents of the block before the call: the three arrays at the addresses of the layout.\<close>

definition core_init_matrix ::
  "u32 \<Rightarrow> u64 \<Rightarrow> s32 \<Rightarrow> (u32 \<Rightarrow> matdat list \<times> matdat list \<times> matres list) \<Rightarrow>
   (u32 \<times> mat_params \<times> mat_layout) option" where
  "core_init_matrix blksize memblk seed mem =
     (let seed = (if seed = 0 then 1 else seed) in
      Option.bind (dim_loop blksize 0 0) (\<lambda>i.
      let N = i - 1 in
      case mem N of (A, B, C) \<Rightarrow>
      Option.bind (fill_matrices N seed A B) (\<lambda>(seed, order, A, B).
      Some (N, \<lparr>matN = N, matA = A, matB = B, matC = C\<rparr>, matrix_layout memblk N))))"

declare dim_loop.simps [code]

section \<open>Loops over whole matrices\<close>

lemma midx_eq:
  assumes "unat N * unat N < 2 ^ 32" and "i < unat N" and "j < unat N"
  shows "midx N i j = i * unat N + j"
proof -
  have "i * unat N + j < 2 ^ 32"
    using square_index [OF assms(2,3)] assms(1) by simp
  moreover have "midx N i j = (i * unat N + j) mod 2 ^ 32"
    by (simp add: midx_def unat_word_ariths unat_of_nat mod_simps)
  ultimately show ?thesis by simp
qed

lemma for_ij_pointwise:
  assumes len: "length xs = n * n"
    and body: "\<And>i j ys. i < n \<Longrightarrow> j < n \<Longrightarrow> length ys = n * n \<Longrightarrow>
      body i j ys = Some (ys[i * n + j := f (i * n + j) (ys ! (i * n + j))])"
  shows "for_ij n body xs = Some (map (\<lambda>k. f k (xs ! k)) [0..<n * n])"
proof -
  let ?I = "\<lambda>k ys. length ys = n * n \<and> (\<forall>m<n * n. ys ! m = (if m < k then f m (xs ! m) else xs ! m))"
  have "\<exists>ys. for_ij n body xs = Some ys \<and> ?I (n * n) ys"
  proof (rule for_ij_rule [where I = ?I])
    show "?I 0 xs" using len by simp
    show "\<exists>ys'. body i j ys = Some ys' \<and> ?I (Suc (i * n + j)) ys'"
      if "i < n" "j < n" "?I (i * n + j) ys" for i j ys
      using that square_index [OF that(1,2)] by (auto simp: body nth_list_update less_Suc_eq)
  qed
  then show ?thesis by (auto intro!: nth_equalityI)
qed

lemma for_loop_sum:
  fixes g :: "nat \<Rightarrow> 'a::comm_ring_1"
  assumes "idx < length C"
    and "\<And>k C. k < n \<Longrightarrow> idx < length C \<Longrightarrow> body k C = Some (C[idx := C ! idx + g k])"
  shows "for_loop n body C = Some (C[idx := C ! idx + (\<Sum>k<n. g k)])"
proof -
  have "\<exists>C'. for_loop n body C = Some C' \<and> C' = C[idx := C ! idx + (\<Sum>k<n. g k)]"
    by (rule for_loop_rule) (auto simp: assms add.assoc)
  then show ?thesis by simp
qed

section \<open>What the routines compute\<close>

definition mat_prod :: "(matres \<Rightarrow> matres \<Rightarrow> matres) \<Rightarrow> nat \<Rightarrow> matdat list \<Rightarrow> matdat list \<Rightarrow> matres list" where
  "mat_prod g n A B =
     map (\<lambda>k. \<Sum>m<n. g (scast (A ! (k div n * n + m))) (scast (B ! (m * n + k mod n)))) [0..<n * n]"

definition vect_prod :: "nat \<Rightarrow> matdat list \<Rightarrow> matdat list \<Rightarrow> matres list" where
  "vect_prod n A B = map (\<lambda>i. \<Sum>j<n. scast (A ! (i * n + j)) * scast (B ! j)) [0..<n]"

definition bit_mul :: "matres \<Rightarrow> matres \<Rightarrow> matres" where
  "bit_mul a b = bit_extract (a * b) 2 4 * bit_extract (a * b) 5 7"

definition sum_step :: "matdat \<Rightarrow> matres \<Rightarrow> s32 \<times> s32 \<times> s16 \<Rightarrow> s32 \<times> s32 \<times> s16" where
  "sum_step clipval cur s =
     (case s of (tmp, prev, ret) \<Rightarrow>
        if sint (tmp + cur) > sint clipval then (0, cur, ret + 10)
        else (tmp + cur, cur, ret + (if sint cur > sint prev then 1 else 0)))"

definition mat_sum :: "matdat \<Rightarrow> matres list \<Rightarrow> s16" where
  "mat_sum clipval C = snd (snd (fold (sum_step clipval) C (0, 0, 0)))"

definition square :: "u32 \<Rightarrow> nat \<Rightarrow> bool" where
  "square N n \<longleftrightarrow> n = unat N \<and> n * n < 2 ^ 32"

lemma square_midx: "square N n \<Longrightarrow> i < n \<Longrightarrow> j < n \<Longrightarrow> midx N i j = i * n + j"
  using midx_eq [of N i j] by (auto simp: square_def)

lemma square_unat: "square N n \<Longrightarrow> unat N = n"
  by (simp add: square_def)

lemma index_div: "j < n \<Longrightarrow> (i * n + j) div n = i" for i j n :: nat
  by simp

lemma matrix_add_const_eq:
  assumes sq: "square N n" and "length A = n * n"
  shows "matrix_add_const N A val = Some (map (\<lambda>a. a + val) A)"
proof -
  have "matrix_add_const N A val = Some (map (\<lambda>k. A ! k + val) [0..<n * n])"
    unfolding matrix_add_const_def square_unat [OF sq]
    by (rule for_ij_pointwise [OF assms(2)]) (simp add: square_midx [OF sq] square_index)
  also have "map (\<lambda>k. A ! k + val) [0..<n * n] = map (\<lambda>a. a + val) A"
    by (rule nth_equalityI) (auto simp: assms)
  finally show ?thesis .
qed

lemma matrix_mul_const_eq:
  assumes sq: "square N n" and "length A = n * n" and "length C = n * n"
  shows "matrix_mul_const N C A val = Some (map (\<lambda>a. scast a * scast val) A)"
proof -
  have "matrix_mul_const N C A val = Some (map (\<lambda>k. scast (A ! k) * scast val) [0..<n * n])"
    unfolding matrix_mul_const_def square_unat [OF sq]
    by (rule for_ij_pointwise [OF assms(3)]) (simp add: square_midx [OF sq] square_index assms)
  also have "map (\<lambda>k. scast (A ! k) * scast val) [0..<n * n] = map (\<lambda>a. (scast a :: s32) * scast val) A"
    by (rule nth_equalityI) (auto simp: assms)
  finally show ?thesis .
qed

lemma mul_entry:
  fixes g :: "matres \<Rightarrow> matres \<Rightarrow> matres"
  assumes sq: "square N n" and "length A = n * n" and "length B = n * n" and "length C = n * n" and "i < n" and "j < n"
  shows "Option.bind (aset C (i * n + j) 0)
      (for_loop n (\<lambda>k C.
         Option.bind (aget A (midx N i k)) (\<lambda>a.
         Option.bind (aget B (midx N k j)) (\<lambda>b.
         Option.bind (aget C (i * n + j)) (\<lambda>c.
           aset C (i * n + j) (c + g (scast a) (scast b)))))))
    = Some (C[i * n + j := \<Sum>k<n. g (scast (A ! (i * n + k))) (scast (B ! (k * n + j)))])"
  using assms
  by (simp add: square_midx [OF sq] square_index
      for_loop_sum [where idx = "i * n + j" and g = "\<lambda>k. g (scast (A ! (i * n + k))) (scast (B ! (k * n + j)))"])

lemma matrix_mul_matrix_eq:
  assumes sq: "square N n" and "length A = n * n" and "length B = n * n" and "length C = n * n"
  shows "matrix_mul_matrix N C A B = Some (mat_prod (*) n A B)"
  unfolding matrix_mul_matrix_def square_unat [OF sq] mat_prod_def
  by (rule for_ij_pointwise [OF assms(4)])
    (simp add: mul_entry [where g = "(*)", OF sq] square_midx [OF sq] assms index_div)

lemma matrix_mul_matrix_bitextract_eq:
  assumes sq: "square N n" and "length A = n * n" and "length B = n * n" and "length C = n * n"
  shows "matrix_mul_matrix_bitextract N C A B = Some (mat_prod bit_mul n A B)"
  unfolding matrix_mul_matrix_bitextract_def square_unat [OF sq] mat_prod_def Let_def bit_mul_def [symmetric]
  by (rule for_ij_pointwise [OF assms(4)])
    (simp add: mul_entry [where g = bit_mul, OF sq] square_midx [OF sq] assms index_div)

lemma matrix_mul_vect_eq:
  assumes sq: "square N n" and "length A = n * n" and "length B = n * n" and "length C = n * n"
  shows "matrix_mul_vect N C A B = Some (vect_prod n A B @ drop n C)"
proof -
  let ?v = "\<lambda>i. \<Sum>j<n. (scast (A ! (i * n + j)) :: s32) * scast (B ! j)"
  let ?I = "\<lambda>k C'. length C' = n * n \<and> C' = map ?v [0..<k] @ drop k C"
  have le: "i < n \<Longrightarrow> i < n * n" for i
    by (metis less_le_trans le_square)
  have "\<exists>C'. matrix_mul_vect N C A B = Some C' \<and> ?I n C'"
    unfolding matrix_mul_vect_def square_unat [OF sq]
  proof (rule for_loop_rule [where I = ?I])
    show "?I 0 C" using assms by simp
    show "\<exists>s'. Option.bind (aset C' i 0)
         (for_loop n (\<lambda>j C. Option.bind (aget A (midx N i j)) (\<lambda>a.
            Option.bind (aget B j) (\<lambda>b. Option.bind (aget C i) (\<lambda>c. aset C i (c + scast a * scast b)))))) = Some s'
         \<and> ?I (Suc i) s'" if "i < n" and I: "?I i C'" for i C'
    proof -
      have "drop i C = C ! i # drop (Suc i) C"
        using le [OF \<open>i < n\<close>] assms(4) by (simp add: Cons_nth_drop_Suc)
      then have "C'[i := ?v i] = map ?v [0..<Suc i] @ drop (Suc i) C"
        using I by (simp add: list_update_append)
      moreover have "for_loop n (\<lambda>j C. Option.bind (aget A (midx N i j)) (\<lambda>a.
            Option.bind (aget B j) (\<lambda>b. Option.bind (aget C i) (\<lambda>c. aset C i (c + scast a * scast b))))) (C'[i := 0])
          = Some (C'[i := ?v i])"
        using that le [OF \<open>i < n\<close>] le assms
        by (subst for_loop_sum [where idx = i and g = "\<lambda>j. scast (A ! (i * n + j)) * scast (B ! j)"])
          (auto simp: square_midx [OF sq] square_index)
      ultimately show ?thesis
        using that le [OF \<open>i < n\<close>] assms by simp
    qed
  qed
  then show ?thesis by (auto simp: vect_prod_def)
qed

lemma matrix_sum_eq:
  assumes sq: "square N n" and "length C = n * n"
  shows "matrix_sum N C clipval = Some (mat_sum clipval C)"
proof -
  let ?body = "\<lambda>i j (tmp, prev, ret). Option.bind (aget C (midx N i j)) (\<lambda>cur.
            let tmp = tmp + cur
            in Some (if sint tmp > sint clipval then (0, cur, ret + 10)
                     else (tmp, cur, ret + (if sint cur > sint prev then 1 else 0))))"
  have "\<exists>s'. for_ij n ?body (0 :: s32, 0 :: s32, 0 :: s16) = Some s'
      \<and> s' = fold (sum_step clipval) (take (n * n) C) (0, 0, 0)"
  proof (rule for_ij_rule)
    show "\<exists>s'. ?body i j s = Some s' \<and> s' = fold (sum_step clipval) (take (Suc (i * n + j)) C) (0, 0, 0)"
      if "i < n" "j < n" and "s = fold (sum_step clipval) (take (i * n + j) C) (0, 0, 0)" for i j s
      using that square_index [OF that(1,2)] assms
      by (simp add: square_midx [OF sq] take_Suc_conv_app_nth sum_step_def Let_def split: prod.splits)
  qed simp
  then show ?thesis
    using assms(2)
    by (cases "fold (sum_step clipval) C (0, 0, 0)") (simp add: matrix_sum_def mat_sum_def square_unat [OF sq])
qed

text \<open>The whole test: the four results, their checksums, and \<open>A\<close> as it was.\<close>

lemma matrix_test_eq:
  assumes sq: "square N n" and "length A = n * n" and "length B = n * n" and "length C = n * n"
  shows "matrix_test N C A B val =
    (let A1 = map (\<lambda>a. a + val) A;
         C1 = map (\<lambda>a. scast a * scast val) A1;
         C2 = vect_prod n A1 B @ drop n C1;
         C3 = mat_prod (*) n A1 B;
         C4 = mat_prod bit_mul n A1 B
     in Some (crc_seq (map (mat_sum (matrix_big val)) [C1, C2, C3, C4]) 0, C4, A))"
proof -
  have len: "length (vect_prod n A' B) = n" "length (mat_prod g n A' B) = n * n" for A' g
    by (simp_all add: vect_prod_def mat_prod_def)
  have "n \<le> n * n" by (rule le_square)
  then show ?thesis
    using assms
    by (simp add: matrix_test_def matrix_add_const_eq matrix_mul_const_eq matrix_mul_vect_eq matrix_mul_matrix_eq
        matrix_mul_matrix_bitextract_eq matrix_sum_eq len Let_def crc16_def comp_def)
qed


section \<open>Products over the integers\<close>

lemma sint_s32_exact:
  assumes "\<bar>k\<bar> < 2 ^ 31"
  shows "sint (word_of_int k :: s32) = k"
  using assms by (simp add: sint_sbintrunc' signed_take_bit_int_eq_self)

lemma sum_scast_prod:
  "(\<Sum>m<n. (scast (f m :: s16) :: s32) * scast (g m :: s16)) = word_of_int (\<Sum>m<n. sint (f m) * sint (g m))"
  by simp

lemma abs_sint_s16: "\<bar>sint (b :: s16)\<bar> \<le> 2 ^ 15"
  using sint_greater_eq [of b] sint_less [of b] by simp

lemma prod_sum_bound:
  assumes "\<And>m. m < n \<Longrightarrow> \<bar>sint (f m :: s16)\<bar> \<le> M" and "int n * M * 2 ^ 15 < 2 ^ 31"
  shows "\<bar>\<Sum>m<n. sint (f m) * sint (g m :: s16)\<bar> < 2 ^ 31"
proof -
  have "\<bar>\<Sum>m<n. sint (f m) * sint (g m)\<bar> \<le> (\<Sum>m<n. \<bar>sint (f m) * sint (g m)\<bar>)"
    by (rule sum_abs)
  also have "\<dots> \<le> (\<Sum>m<n. M * 2 ^ 15)"
    using assms(1) abs_sint_s16 by (intro sum_mono) (auto simp: abs_mult intro!: mult_mono intro: order_trans [OF abs_ge_zero])
  also have "\<dots> < 2 ^ 31" using assms(2) by simp
  finally show ?thesis .
qed

section \<open>Initialisation\<close>

lemma dim_loop_ok:
  assumes "unat blksize \<le> 4294791200" and "unat i \<le> 23170"
    and "\<forall>m<unat i. 8 * (m * m) < unat blksize" and "j = i * i * 2 * 4"
  shows "\<exists>i'. dim_loop blksize i j = Some i' \<and> unat blksize \<le> 8 * (unat i' * unat i')
    \<and> (\<forall>m<unat i'. 8 * (m * m) < unat blksize)"
  using assms
proof (induction "23170 - unat i" arbitrary: i j rule: less_induct)
  case less
  have "unat i * unat i \<le> 23170 * 23170"
    using less.prems(2) by (intro mult_le_mono)
  then have j: "unat j = 8 * (unat i * unat i)"
    by (simp add: less.prems(4) unat_word_ariths)
  show ?case
  proof (cases "j < blksize")
    case False
    then show ?thesis
      using less.prems(3) j by (subst dim_loop.simps) (auto simp: word_less_nat_alt)
  next
    case True
    then have lt: "8 * (unat i * unat i) < unat blksize" by (simp add: word_less_nat_alt j)
    have "unat i \<noteq> 23170" using lt less.prems(1) by auto
    then have i: "unat i < 23170" using less.prems(2) by simp
    then have suc: "unat (i + 1) = Suc (unat i)" by (simp add: unat_word_ariths)
    have "\<exists>i'. dim_loop blksize (i + 1) ((i + 1) * (i + 1) * 2 * 4) = Some i' \<and> unat blksize \<le> 8 * (unat i' * unat i')
      \<and> (\<forall>m<unat i'. 8 * (m * m) < unat blksize)"
      using less.prems i lt suc by (intro less.hyps) (auto simp: less_Suc_eq)
    then show ?thesis using True by (subst dim_loop.simps) simp
  qed
qed

definition fill_state :: "s32 \<Rightarrow> nat \<Rightarrow> s32 \<times> s32" where
  "fill_state seed k = ((\<lambda>s. snd (fill_step s)) ^^ k) (seed, 1)"

definition fill_values :: "s32 \<Rightarrow> nat \<Rightarrow> (matdat \<times> matdat) list" where
  "fill_values seed m = map (\<lambda>k. fst (fill_step (fill_state seed k))) [0..<m]"

lemma fill_matrices_eq:
  assumes sq: "square N n" and "length A = n * n" and "length B = n * n"
  shows "\<exists>seed' order'. fill_matrices N seed A B =
     Some (seed', order', map fst (fill_values seed (n * n)), map snd (fill_values seed (n * n)))"
proof -
  let ?body = "\<lambda>i j (seed, order, A, B).
       case fill_step (seed, order) of ((a, b), seed, order) \<Rightarrow>
         Option.bind (aset B (midx N i j) b) (\<lambda>B.
         Option.bind (aset A (midx N i j) a) (\<lambda>A.
         Some (seed, order, A, B)))"
  let ?I = "\<lambda>k s. \<exists>A' B'. s = (fst (fill_state seed k), snd (fill_state seed k), A', B') \<and> length A' = n * n \<and> length B' = n * n
      \<and> (\<forall>m<k. A' ! m = fst (fst (fill_step (fill_state seed m))) \<and> B' ! m = snd (fst (fill_step (fill_state seed m))))"
  have "\<exists>s. for_ij n ?body (seed, 1, A, B) = Some s \<and> ?I (n * n) s"
  proof (rule for_ij_rule [where I = ?I])
    show "?I 0 (seed, 1, A, B)" using assms by (simp add: fill_state_def)
    show "\<exists>s'. ?body i j s = Some s' \<and> ?I (Suc (i * n + j)) s'" if ij: "i < n" "j < n" and I: "?I (i * n + j) s" for i j s
    proof -
      obtain a b st where st: "fill_step (fill_state seed (i * n + j)) = ((a, b), st)"
        by (metis surj_pair)
      then have nxt: "fill_state seed (Suc (i * n + j)) = st" by (simp add: fill_state_def)
      show ?thesis
        using I ij st nxt square_index [OF ij]
        by (auto simp: square_midx [OF sq] nth_list_update less_Suc_eq split: prod.splits)
    qed
  qed
  then show ?thesis
    by (auto simp: fill_matrices_def square_unat [OF sq] fill_values_def intro!: nth_equalityI)
qed

lemma fill_step_small: "unat (fst (fst (fill_step s))) < 256"
proof -
  have "unat (x AND 0xff :: s16) < 256" for x
    using word_and_le1 [of x "0xff"] by (simp add: word_le_nat_alt)
  then show ?thesis
    by (auto simp: fill_step_def matrix_clip_def Let_def split: prod.splits)
qed

lemma Suc_Suc_diff: "2 \<le> n \<Longrightarrow> Suc (Suc (n - 2)) = n"
  by arith

lemma and_not_3: "y AND NOT 3 = push_bit 2 (drop_bit 2 y)" for y :: u64
proof -
  have "y AND NOT (mask 2) = push_bit 2 (drop_bit 2 y)"
    by (rule bit_word_eqI) (auto simp: bit_simps not_less Suc_Suc_diff)
  then show ?thesis by (simp add: mask_eq_exp_minus_1)
qed

lemma unat_push_drop_2:
  assumes "unat y + 4 < 2 ^ 64"
  shows "unat (push_bit 2 (drop_bit 2 y) :: u64) = 4 * (unat y div 4)"
proof -
  have "unat (push_bit 2 (drop_bit 2 y)) = take_bit 64 (push_bit 2 (unat (drop_bit 2 y)))"
    by (subst unsigned_push_bit_eq) simp
  also have "\<dots> = take_bit 64 (4 * (unat y div 4))"
    by (subst unat_drop_bit_eq) (simp add: push_bit_eq_mult drop_bit_eq_div mult.commute)
  also have "\<dots> = 4 * (unat y div 4)"
    using assms by (intro take_bit_nat_eq_self) auto
  finally show ?thesis .
qed

lemma round_up_4: "0 < m \<Longrightarrow> 4 + 4 * ((m - 1) div 4) = 4 * ((m + 3) div 4)" for m :: nat
proof (cases m)
  case (Suc k)
  have "(k + 4) div 4 = k div 4 + 1" by simp
  then show ?thesis using Suc by (simp add: add.commute)
qed simp

lemma align_mem_eq:
  assumes "0 < unat x" and "unat x + 4 < 2 ^ 64"
  shows "unat (align_mem x) = 4 * ((unat x + 3) div 4)"
proof -
  have x1: "unat (x - 1) = unat x - 1"
    using assms(1) by (simp add: unat_sub_if' word_le_nat_alt)
  have a: "unat (push_bit 2 (drop_bit 2 (x - 1))) = 4 * ((unat x - 1) div 4)"
    using unat_push_drop_2 [of "x - 1"] assms by (simp add: x1)
  have "unat (align_mem x) = (4 + 4 * ((unat x - 1) div 4)) mod 2 ^ 64"
    unfolding align_mem_def and_not_3 by (simp add: unat_word_ariths a)
  also have "4 + 4 * ((unat x - 1) div 4) = 4 * ((unat x + 3) div 4)"
    by (rule round_up_4 [OF assms(1)])
  also have "\<dots> mod 2 ^ 64 = 4 * ((unat x + 3) div 4)"
  proof (rule mod_less)
    have "4 * ((unat x + 3) div 4) \<le> unat x + 3" by simp
    also have "\<dots> < unat x + 4" by simp
    also note assms(2)
    finally show "4 * ((unat x + 3) div 4) < 2 ^ 64" .
  qed
  finally show ?thesis .
qed

text \<open>The addresses: the arrays are consecutive, 4-aligned where they hold 32 bit values.\<close>

lemma matrix_layout_eq:
  assumes "square N n" and "0 < unat memblk" and "unat memblk + 8 * (n * n) + 8 < 2 ^ 64"
  shows "let L = matrix_layout memblk N; a = 4 * ((unat memblk + 3) div 4) in
    unat (addrA L) = a \<and> unat (addrB L) = a + 2 * (n * n) \<and> unat (addrC L) = a + 4 * (n * n)"
proof -
  let ?a = "4 * ((unat memblk + 3) div 4)"
  have nn: "unat (N * N) = n * n"
    using assms(1) by (auto simp: square_def unat_word_ariths)
  have size: "unat (2 * ucast (N * N) :: u64) = 2 * (n * n)"
    using assms(1) by (auto simp: unat_word_ariths unsigned_ucast_eq nn square_def take_bit_nat_eq_self)
  have A: "unat (align_mem memblk) = ?a"
    using assms by (intro align_mem_eq) auto
  have add: "unat (x + y) = (unat x + unat y) mod 2 ^ 64" for x y :: u64
    by (simp add: unat_word_ariths)
  have B: "unat (align_mem memblk + 2 * ucast (N * N)) = ?a + 2 * (n * n)"
    using assms(3) by (simp add: add A size)
  let ?s = "2 * ucast (N * N) :: u64"
  have C: "unat (align_mem memblk + ?s + ?s) = ?a + 4 * (n * n)"
    unfolding add [of "align_mem memblk + ?s"] B size using assms(3) by simp
  have D: "unat (align_mem w) = ?a + 4 * (n * n)" if w: "unat w = ?a + 4 * (n * n)" for w
  proof -
    have "unat (align_mem w) = 4 * ((unat w + 3) div 4)"
      using w assms(2,3) by (intro align_mem_eq) linarith+
    also have "unat w = 4 * ((unat memblk + 3) div 4 + n * n)" using w by simp
    finally show ?thesis by presburger
  qed
  have "unat (align_mem (align_mem memblk + ?s + ?s)) = ?a + 4 * (n * n)"
    by (rule D [OF C])
  then show ?thesis unfolding matrix_layout_def Let_def mat_layout.simps using A B by blast
qed

section \<open>Properties\<close>

text \<open>
  C16: \<open>matrix_test\<close> on arrays of N x N elements makes no access outside them, leaves \<open>B\<close> alone and
  \<open>A\<close> as it was, leaves the bit-extract product in \<open>C\<close>, and returns the checksum of the sums of the
  four intermediate results (constant product, vector product, matrix product, bit-extract product),
  each given in closed form.
\<close>

theorem matrix_test_correct:
  assumes "unat N * unat N < 2 ^ 32" and "length A = unat N * unat N"
    and "length B = unat N * unat N" and "length C = unat N * unat N"
  shows "matrix_test N C A B val =
    (let A1 = map (\<lambda>a. a + val) A;
         C1 = map (\<lambda>a. scast a * scast val) A1;
         C2 = vect_prod (unat N) A1 B @ drop (unat N) C1;
         C3 = mat_prod (*) (unat N) A1 B;
         C4 = mat_prod bit_mul (unat N) A1 B
     in Some (crc_seq (map (mat_sum (matrix_big val)) [C1, C2, C3, C4]) 0, C4, A))"
  by (rule matrix_test_eq) (use assms in \<open>simp_all add: square_def\<close>)

theorem matrix_test_correct_witness:
  "\<exists>crc. matrix_test 2 [9, 9, 9, 9] [1, 2, 3, 4] [5, 6, 7, 8] 3 = Some (crc, mat_prod bit_mul 2 [4, 5, 6, 7] [5, 6, 7, 8], [1, 2, 3, 4])"
  using matrix_test_correct [of 2 "[1, 2, 3, 4]" "[5, 6, 7, 8]" "[9, 9, 9, 9]" 3] by (simp add: Let_def)

text \<open>
  C36: while the entries of \<open>A\<close> are small enough for the sums to fit 31 bits, every entry of the
  product that \<open>matrix_mul_matrix\<close> computes is the exact integer sum of products.
\<close>

theorem matrix_mul_matrix_exact:
  assumes "length A = unat N * unat N" and "length B = unat N * unat N" and "length C = unat N * unat N"
    and "\<forall>a\<in>set A. \<bar>sint a\<bar> \<le> M" and "int (unat N) * M * 2 ^ 15 < 2 ^ 31"
    and "i < unat N" and "j < unat N" and "unat N * unat N < 2 ^ 32"
  shows "\<exists>C'. matrix_mul_matrix N C A B = Some C' \<and> length C' = unat N * unat N
    \<and> sint (C' ! (i * unat N + j)) =
        (\<Sum>k<unat N. sint (A ! (i * unat N + k)) * sint (B ! (k * unat N + j)))"
proof -
  let ?n = "unat N"
  have sq: "square N ?n" using assms(8) by (simp add: square_def)
  let ?S = "\<Sum>k<?n. sint (A ! (i * ?n + k)) * sint (B ! (k * ?n + j))"
  have entry: "mat_prod (*) ?n A B ! (i * ?n + j) = word_of_int ?S"
    using square_index [OF assms(6,7)] assms(7)
    by (simp add: mat_prod_def sum_scast_prod [symmetric] del: of_int_sum)
  have "\<bar>?S\<bar> < 2 ^ 31"
    using assms(1,4,5,6) by (intro prod_sum_bound) (auto simp: square_index)
  then have "sint (mat_prod (*) ?n A B ! (i * ?n + j)) = ?S"
    unfolding entry by (rule sint_s32_exact)
  moreover have "length (mat_prod (*) ?n A B) = ?n * ?n" by (simp add: mat_prod_def)
  ultimately show ?thesis
    using matrix_mul_matrix_eq [OF sq assms(1-3)] by blast
qed

theorem matrix_mul_matrix_exact_witness:
  "\<exists>C'. matrix_mul_matrix 2 [0, 0, 0, 0] [1, -2, 3, 4] [5, 6, 7, 8] = Some C' \<and> sint (C' ! 1) = -10"
  using matrix_mul_matrix_exact [of "[1, -2, 3, 4]" 2 "[5, 6, 7, 8]" "[0, 0, 0, 0]" 4 0 1]
  by (auto simp: lessThan_nat_numeral)

lemma core_init_matrix_eq:
  assumes blk: "0 < unat blksize" "unat blksize \<le> 4294791200"
    and mem: "\<forall>N. length (fst (mem N)) = unat N * unat N \<and> length (fst (snd (mem N))) = unat N * unat N"
    and addr: "0 < unat memblk" "unat memblk + unat blksize + 8 < 2 ^ 64"
  shows "\<exists>N p. core_init_matrix blksize memblk seed mem = Some (N, p, matrix_layout memblk N)
    \<and> 8 * (unat N * unat N) < unat blksize \<and> unat blksize \<le> 8 * ((unat N + 1) * (unat N + 1))
    \<and> matN p = N \<and> matC p = snd (snd (mem N)) \<and> length (matA p) = unat N * unat N \<and> length (matB p) = unat N * unat N
    \<and> (\<forall>k<unat N * unat N. (matA p ! k, matB p ! k) = fst (fill_step (fill_state (if seed = 0 then 1 else seed) k)))
    \<and> (\<forall>a\<in>set (matA p). unat a < 256)
    \<and> (let L = matrix_layout memblk N; a = 4 * ((unat memblk + 3) div 4) in
         unat (addrA L) = a \<and> unat (addrB L) = a + 2 * length (matA p)
         \<and> unat (addrC L) = unat (addrB L) + 2 * length (matB p)
         \<and> unat (addrC L) + 4 * (unat N * unat N) < a + unat blksize)"
proof -
  obtain i where i: "dim_loop blksize 0 0 = Some i" "unat blksize \<le> 8 * (unat i * unat i)"
    "\<forall>m<unat i. 8 * (m * m) < unat blksize"
    using dim_loop_ok [OF blk(2), of 0 0] by auto
  then have i1: "0 < unat i" using blk(1) by (cases "unat i") auto
  define N where "N = i - 1"
  have N: "unat N + 1 = unat i"
    using i1 by (simp add: N_def unat_sub_if' word_le_nat_alt)
  have lt: "8 * (unat N * unat N) < unat blksize"
    using i(3) N by simp
  have sq: "square N (unat N)"
    using lt blk(2) by (simp add: square_def)
  obtain A B C where m: "mem N = (A, B, C)" by (cases "mem N") auto
  let ?seed = "if seed = 0 then 1 else seed"
  obtain seed' order' where f: "fill_matrices N ?seed A B =
      Some (seed', order', map fst (fill_values ?seed (unat N * unat N)), map snd (fill_values ?seed (unat N * unat N)))"
    using fill_matrices_eq [OF sq, of A B ?seed] mem m by (metis fst_conv snd_conv)
  let ?p = "\<lparr>matN = N, matA = map fst (fill_values ?seed (unat N * unat N)),
     matB = map snd (fill_values ?seed (unat N * unat N)), matC = C\<rparr>"
  have init: "core_init_matrix blksize memblk seed mem = Some (N, ?p, matrix_layout memblk N)"
    using i(1) f m by (simp add: core_init_matrix_def N_def [symmetric])
  have lay: "let L = matrix_layout memblk N; a = 4 * ((unat memblk + 3) div 4) in
    unat (addrA L) = a \<and> unat (addrB L) = a + 2 * (unat N * unat N) \<and> unat (addrC L) = a + 4 * (unat N * unat N)"
    using addr lt by (intro matrix_layout_eq [OF sq]) auto
  show ?thesis
    by (rule exI [of _ N], rule exI [of _ ?p])
      (use init lt i(2) N lay fill_step_small m in \<open>auto simp: fill_values_def Let_def\<close>)
qed

text \<open>
  C17: \<open>core_init_matrix\<close> terminates on every block of at most 4294791200 bytes, picks the largest
  dimension whose three matrices take less than the block, fills all of \<open>A\<close> and \<open>B\<close> (\<open>A\<close> with
  values below 256) from the seed, and lays the matrices out one after the other, within
  \<open>blksize\<close> bytes of the aligned start of the block.
\<close>

theorem core_init_matrix_ok:
  assumes blk: "0 < unat blksize" "unat blksize \<le> 4294791200"
    and mem: "\<forall>N. length (fst (mem N)) = unat N * unat N \<and> length (fst (snd (mem N))) = unat N * unat N"
    and addr: "0 < unat memblk" "unat memblk + unat blksize + 8 < 2 ^ 64"
  shows "\<exists>N p. core_init_matrix blksize memblk seed mem = Some (N, p, matrix_layout memblk N)
    \<and> 8 * (unat N * unat N) < unat blksize \<and> unat blksize \<le> 8 * ((unat N + 1) * (unat N + 1))
    \<and> matN p = N \<and> length (matA p) = unat N * unat N \<and> length (matB p) = unat N * unat N
    \<and> (\<forall>k<unat N * unat N. (matA p ! k, matB p ! k) = fst (fill_step (fill_state (if seed = 0 then 1 else seed) k)))
    \<and> (\<forall>a\<in>set (matA p). unat a < 256)
    \<and> (let L = matrix_layout memblk N; a = 4 * ((unat memblk + 3) div 4) in
         unat (addrA L) = a \<and> unat (addrB L) = a + 2 * length (matA p)
         \<and> unat (addrC L) = unat (addrB L) + 2 * length (matB p)
         \<and> unat (addrC L) + 4 * (unat N * unat N) < a + unat blksize)"
  using core_init_matrix_eq [OF assms, of seed] by blast

theorem core_init_matrix_ok_witness:
  "\<exists>N p. core_init_matrix 666 0x80000000 8 (\<lambda>N. (replicate (unat N * unat N) 0, replicate (unat N * unat N) 0, []))
     = Some (N, p, matrix_layout 0x80000000 N) \<and> 8 * (unat N * unat N) < 666 \<and> 666 \<le> 8 * ((unat N + 1) * (unat N + 1))"
  using core_init_matrix_ok [of 666 "\<lambda>N. (replicate (unat N * unat N) 0, replicate (unat N * unat N) 0, [])" "0x80000000" 8]
  by (auto simp: Let_def)

end
