(* ===== verification/ListHeap.thy ===== *)
theory ListHeap
  imports Prelude "HOL-Library.Monad_Syntax"
begin

text \<open>
  Singly linked lists in an array of list heads: the pointer operations of
  coremark/core_list_join.c that do not look at the data, and the abstraction of a linked list as
  the list of its nodes.

  A pointer is an index into the array, or \<open>None\<close> for \<open>NULL\<close>. Dereferencing \<open>NULL\<close> or an index
  outside the array is \<open>None\<close>, and so is a loop over a cyclic list.
\<close>

section \<open>The code\<close>

record list_head =
  nxt :: "nat option"
  info :: nat

definition deref :: "list_head list \<Rightarrow> nat option \<Rightarrow> list_head option" where
  "deref h p = Option.bind p (aget h)"

definition set_next :: "nat option \<Rightarrow> nat option \<Rightarrow> list_head list \<Rightarrow> list_head list option" where
  "set_next p q h = do {
     a \<leftarrow> p;
     c \<leftarrow> aget h a;
     aset h a (c\<lparr>nxt := q\<rparr>)
   }"

definition set_info :: "nat option \<Rightarrow> nat \<Rightarrow> list_head list \<Rightarrow> list_head list option" where
  "set_info p i h = do {
     a \<leftarrow> p;
     c \<leftarrow> aget h a;
     aset h a (c\<lparr>info := i\<rparr>)
   }"

definition core_list_remove :: "nat option \<Rightarrow> list_head list \<Rightarrow> (nat option \<times> list_head list) option" where
  "core_list_remove item h = do {
     c \<leftarrow> deref h item;
     let ret = nxt c;
     let tmp = info c;
     r \<leftarrow> deref h ret;
     h \<leftarrow> set_info item (info r) h;
     h \<leftarrow> set_info ret tmp h;
     c \<leftarrow> deref h item;
     r \<leftarrow> deref h (nxt c);
     h \<leftarrow> set_next item (nxt r) h;
     h \<leftarrow> set_next ret None h;
     Some (ret, h)
   }"

definition core_list_undo_remove ::
  "nat option \<Rightarrow> nat option \<Rightarrow> list_head list \<Rightarrow> (nat option \<times> list_head list) option" where
  "core_list_undo_remove item_removed item_modified h = do {
     r \<leftarrow> deref h item_removed;
     let tmp = info r;
     c \<leftarrow> deref h item_modified;
     h \<leftarrow> set_info item_removed (info c) h;
     h \<leftarrow> set_info item_modified tmp h;
     c \<leftarrow> deref h item_modified;
     h \<leftarrow> set_next item_removed (nxt c) h;
     h \<leftarrow> set_next item_modified item_removed h;
     Some (item_removed, h)
   }"

partial_function (option) reverse_loop ::
  "nat option \<Rightarrow> nat option \<Rightarrow> list_head list \<Rightarrow> (nat option \<times> list_head list) option" where
  "reverse_loop p prev h =
     (if p = None then Some (prev, h)
      else do {
        c \<leftarrow> deref h p;
        h \<leftarrow> set_next p prev h;
        reverse_loop (nxt c) p h
      })"

definition core_list_reverse :: "nat option \<Rightarrow> list_head list \<Rightarrow> (nat option \<times> list_head list) option" where
  "core_list_reverse p h = reverse_loop p None h"

declare reverse_loop.simps [code]

section \<open>Dereferencing\<close>

lemma deref_Some [simp]: "a < length h \<Longrightarrow> deref h (Some a) = Some (h ! a)"
  by (simp add: deref_def)

lemma deref_None [simp]: "deref h None = None"
  by (simp add: deref_def)

lemma set_next_Some [simp]: "a < length h \<Longrightarrow> set_next (Some a) q h = Some (h[a := (h ! a)\<lparr>nxt := q\<rparr>])"
  by (simp add: set_next_def)

lemma set_info_Some [simp]: "a < length h \<Longrightarrow> set_info (Some a) i h = Some (h[a := (h ! a)\<lparr>info := i\<rparr>])"
  by (simp add: set_info_def)

lemma set_next_None [simp]: "set_next None q h = None"
  by (simp add: set_next_def)

section \<open>List segments\<close>

text \<open>\<open>seg h p xs q\<close>: following \<open>next\<close> from \<open>p\<close> visits the nodes \<open>xs\<close> and ends at the pointer \<open>q\<close>.\<close>

fun seg :: "list_head list \<Rightarrow> nat option \<Rightarrow> nat list \<Rightarrow> nat option \<Rightarrow> bool" where
  "seg h p [] q = (p = q)"
| "seg h p (x # xs) q = (p = Some x \<and> x < length h \<and> seg h (nxt (h ! x)) xs q)"

abbreviation chain :: "list_head list \<Rightarrow> nat option \<Rightarrow> nat list \<Rightarrow> bool" where
  "chain h p xs \<equiv> seg h p xs None"

text \<open>Only the \<open>next\<close> fields of the nodes in \<open>A\<close> differ.\<close>

definition links_only :: "nat set \<Rightarrow> list_head list \<Rightarrow> list_head list \<Rightarrow> bool" where
  "links_only A h h' \<longleftrightarrow> length h' = length h
     \<and> (\<forall>a<length h. info (h' ! a) = info (h ! a) \<and> (a \<notin> A \<longrightarrow> h' ! a = h ! a))"

lemma seg_append: "seg h p (xs @ ys) q \<longleftrightarrow> (\<exists>r. seg h p xs r \<and> seg h r ys q)"
  by (induction xs arbitrary: p) auto

lemma seg_in_bounds: "seg h p xs q \<Longrightarrow> x \<in> set xs \<Longrightarrow> x < length h"
  by (induction xs arbitrary: p) auto

lemma seg_update [simp]: "a \<notin> set xs \<Longrightarrow> seg (h[a := c]) p xs q = seg h p xs q"
  by (induction xs arbitrary: p) auto

lemma seg_unchanged:
  "seg h p xs q \<Longrightarrow> length h' = length h \<Longrightarrow> \<forall>x\<in>set xs. nxt (h' ! x) = nxt (h ! x) \<Longrightarrow> seg h' p xs q"
  by (induction xs arbitrary: p) auto

lemma seg_determ: "chain h p xs \<Longrightarrow> chain h p ys \<Longrightarrow> xs = ys"
proof (induction xs arbitrary: p ys)
  case (Cons x xs)
  then show ?case by (cases ys) auto
qed (metis list.exhaust option.distinct(1) seg.simps)

lemma chain_distinct: "chain h p xs \<Longrightarrow> distinct xs"
proof (induction xs arbitrary: p)
  case (Cons x xs)
  have "x \<notin> set xs"
  proof
    assume "x \<in> set xs"
    then obtain us vs where "xs = us @ x # vs" by (meson split_list)
    moreover from this have "chain h (Some x) (x # vs)"
      using Cons.prems by (auto simp: seg_append)
    ultimately show False using Cons.prems seg_determ [of h "Some x" "x # xs" "x # vs"] by auto
  qed
  with Cons show ?case by auto
qed simp

lemma links_only_refl [simp]: "links_only A h h"
  by (simp add: links_only_def)

lemma links_only_trans: "links_only A h h' \<Longrightarrow> links_only B h' h'' \<Longrightarrow> links_only (A \<union> B) h h''"
  by (auto simp: links_only_def)

lemma links_only_mono: "links_only A h h' \<Longrightarrow> A \<subseteq> B \<Longrightarrow> links_only B h h'"
  by (auto simp: links_only_def)

lemma links_only_update: "a \<in> A \<Longrightarrow> links_only A h (h[a := (h ! a)\<lparr>nxt := q\<rparr>])"
  by (cases "a < length h") (auto simp: links_only_def nth_list_update)

lemma links_only_info: "links_only A h h' \<Longrightarrow> x < length h \<Longrightarrow> info (h' ! x) = info (h ! x)"
  by (simp add: links_only_def)

lemma links_only_length: "links_only A h h' \<Longrightarrow> length h' = length h"
  by (simp add: links_only_def)

lemma seg_links_only:
  "seg h p xs q \<Longrightarrow> links_only A h h' \<Longrightarrow> set xs \<inter> A = {} \<Longrightarrow> seg h' p xs q"
  by (rule seg_unchanged) (auto simp: links_only_def dest: seg_in_bounds)

section \<open>Reversal\<close>

lemma reverse_loop_ok:
  assumes "chain h p xs" and "chain h prev ys" and "set xs \<inter> set ys = {}"
  shows "\<exists>r h'. reverse_loop p prev h = Some (r, h') \<and> chain h' r (rev xs @ ys) \<and> links_only (set xs) h h'"
  using assms
proof (induction xs arbitrary: p prev h ys)
  case Nil
  then show ?case by (subst reverse_loop.simps) auto
next
  case (Cons x xs)
  let ?h = "h[x := (h ! x)\<lparr>nxt := prev\<rparr>]"
  have d: "x \<notin> set xs" "x \<notin> set ys" "x < length h" "p = Some x"
    using Cons.prems chain_distinct [OF Cons.prems(1)] by auto
  have "chain ?h (nxt (h ! x)) xs" "chain ?h (Some x) (x # ys)"
    using Cons.prems d by auto
  moreover have "set xs \<inter> set (x # ys) = {}"
    using Cons.prems(3) d by auto
  ultimately obtain r h' where IH: "reverse_loop (nxt (h ! x)) (Some x) ?h = Some (r, h')"
    "chain h' r (rev xs @ x # ys)" "links_only (set xs) ?h h'"
    using Cons.IH by blast
  have "links_only (set (x # xs)) h h'"
    using links_only_trans [OF links_only_update [of x "{x}"] IH(3)] by simp
  with IH d show ?case by (subst reverse_loop.simps) auto
qed

lemma core_list_reverse_ok:
  "chain h p xs \<Longrightarrow>
   \<exists>r h'. core_list_reverse p h = Some (r, h') \<and> chain h' r (rev xs) \<and> links_only (set xs) h h'"
  using reverse_loop_ok [of h p xs None "[]"] by (simp add: core_list_reverse_def)

section \<open>Removing and reinserting\<close>

lemma list_head_updates [simp]:
  "(c :: list_head)\<lparr>info := i, nxt := q\<rparr> = \<lparr>nxt = q, info = i\<rparr>"
  by (cases c) simp

lemma core_list_remove_eq:
  assumes "a < length h" and "nxt (h ! a) = Some b" and "b < length h" and "a \<noteq> b"
  shows "core_list_remove (Some a) h =
    Some (Some b, h[a := \<lparr>nxt = nxt (h ! b), info = info (h ! b)\<rparr>, b := \<lparr>nxt = None, info = info (h ! a)\<rparr>])"
  using assms by (simp add: core_list_remove_def nth_list_update list_update_swap [of b a])

lemma core_list_undo_remove_eq:
  assumes "a < length h" and "b < length h" and "a \<noteq> b"
  shows "core_list_undo_remove (Some b) (Some a) h =
    Some (Some b, h[a := \<lparr>nxt = Some b, info = info (h ! b)\<rparr>, b := \<lparr>nxt = nxt (h ! a), info = info (h ! a)\<rparr>])"
  using assms by (simp add: core_list_undo_remove_def nth_list_update list_update_swap [of b a])

lemma remove_undo:
  assumes "chain h (Some a) (a # b # xs)"
  shows "\<exists>h'. core_list_remove (Some a) h = Some (Some b, h') \<and> length h' = length h
    \<and> chain h' (Some a) (a # xs)
    \<and> info (h' ! a) = info (h ! b) \<and> info (h' ! b) = info (h ! a) \<and> (\<forall>x. x \<noteq> a \<longrightarrow> x \<noteq> b \<longrightarrow> h' ! x = h ! x)
    \<and> core_list_undo_remove (Some b) (Some a) h' = Some (Some b, h)"
proof -
  have ab: "a < length h" "nxt (h ! a) = Some b" "b < length h" "a \<noteq> b" "a \<notin> set xs" "b \<notin> set xs"
    and tail: "chain h (nxt (h ! b)) xs"
    using assms chain_distinct [OF assms] by auto
  define h' where "h' = h[a := \<lparr>nxt = nxt (h ! b), info = info (h ! b)\<rparr>, b := \<lparr>nxt = None, info = info (h ! a)\<rparr>]"
  have len: "length h' = length h" and at: "h' ! a = \<lparr>nxt = nxt (h ! b), info = info (h ! b)\<rparr>"
    "h' ! b = \<lparr>nxt = None, info = info (h ! a)\<rparr>" "\<And>x. x \<noteq> a \<Longrightarrow> x \<noteq> b \<Longrightarrow> h' ! x = h ! x"
    using ab by (auto simp: h'_def nth_list_update)
  have remove: "core_list_remove (Some a) h = Some (Some b, h')"
    using core_list_remove_eq [of a h b] ab by (simp add: h'_def)
  have "h'[a := \<lparr>nxt = Some b, info = info (h' ! b)\<rparr>, b := \<lparr>nxt = nxt (h' ! a), info = info (h' ! a)\<rparr>] = h"
    by (rule nth_equalityI) (use ab len at in \<open>auto simp: nth_list_update\<close>)
  then have undo: "core_list_undo_remove (Some b) (Some a) h' = Some (Some b, h)"
    using core_list_undo_remove_eq [of a h' b] ab len by simp
  have "chain h' (Some a) (a # xs)"
    using ab tail len at by (auto simp: h'_def)
  then show ?thesis using remove undo at len by simp
qed

text \<open>
  C33: Removing the node after which another follows and undoing the removal restores every list head,
  and in between the list has lost exactly the item that was at the node.
\<close>

theorem remove_undo_restores:
  assumes "chain h (Some a) (a # b # xs)"
  shows "\<exists>h'. core_list_remove (Some a) h = Some (Some b, h')
    \<and> chain h' (Some a) (a # xs)
    \<and> map (\<lambda>x. info (h' ! x)) (a # xs) = map (\<lambda>x. info (h ! x)) (b # xs)
    \<and> info (h' ! b) = info (h ! a)
    \<and> core_list_undo_remove (Some b) (Some a) h' = Some (Some b, h)"
proof -
  obtain h' where h': "core_list_remove (Some a) h = Some (Some b, h')" "chain h' (Some a) (a # xs)"
    "info (h' ! a) = info (h ! b)" "info (h' ! b) = info (h ! a)" "\<forall>x. x \<noteq> a \<longrightarrow> x \<noteq> b \<longrightarrow> h' ! x = h ! x"
    "core_list_undo_remove (Some b) (Some a) h' = Some (Some b, h)"
    using remove_undo [OF assms] by blast
  have "a \<notin> set xs" "b \<notin> set xs" using chain_distinct [OF assms] by auto
  then have "map (\<lambda>x. info (h' ! x)) xs = map (\<lambda>x. info (h ! x)) xs"
    using h'(5) by (intro map_cong refl arg_cong [where f = info]) (metis (no_types))
  then have "map (\<lambda>x. info (h' ! x)) (a # xs) = map (\<lambda>x. info (h ! x)) (b # xs)"
    using h'(3) by simp
  then show ?thesis using h'(1,2,4,6) by blast
qed

theorem remove_undo_restores_witness:
  "\<exists>h'. core_list_remove (Some 0) [\<lparr>nxt = Some 1, info = 5\<rparr>, \<lparr>nxt = None, info = 6\<rparr>] = Some (Some 1, h')
    \<and> core_list_undo_remove (Some 1) (Some 0) h' = Some (Some 1, [\<lparr>nxt = Some 1, info = 5\<rparr>, \<lparr>nxt = None, info = 6\<rparr>])"
  using remove_undo_restores [of "[\<lparr>nxt = Some 1, info = 5\<rparr>, \<lparr>nxt = None, info = 6\<rparr>]" 0 1 "[]"] by auto

end
