(* ===== verification/MergeSort.thy ===== *)
theory MergeSort
  imports ListHeap
begin

text \<open>
  \<open>core_list_mergesort\<close> of coremark/core_list_join.c, a bottom up merge sort that relinks the nodes
  of a list in place. The comparison function is a parameter that may change a state \<open>'s\<close> (the
  data items and the results structure).
\<close>

section \<open>The code\<close>

text \<open>The loop that steps \<open>insize\<close> places along from \<open>p\<close>; it returns \<open>q\<close> and \<open>psize\<close>.\<close>

fun step_loop :: "nat \<Rightarrow> nat option \<Rightarrow> nat \<Rightarrow> list_head list \<Rightarrow> (nat option \<times> nat) option" where
  "step_loop 0 q psize h = Some (q, psize)"
| "step_loop (Suc n) q psize h = do {
     c \<leftarrow> deref h q;
     if nxt c = None then Some (None, Suc psize) else step_loop n (nxt c) (Suc psize) h
   }"

text \<open>The choice of the next element: whether it comes from \<open>p\<close>.\<close>

definition take_p ::
  "(nat \<Rightarrow> nat \<Rightarrow> 's \<Rightarrow> (s32 \<times> 's) option) \<Rightarrow> nat option \<Rightarrow> nat \<Rightarrow> nat option \<Rightarrow> nat \<Rightarrow> list_head list \<Rightarrow>
   's \<Rightarrow> (bool \<times> 's) option" where
  "take_p cmp p psize q qsize h s =
     (if psize = 0 then Some (False, s)
      else if qsize = 0 \<or> q = None then Some (True, s)
      else do {
        pc \<leftarrow> deref h p;
        qc \<leftarrow> deref h q;
        (r, s) \<leftarrow> cmp (info pc) (info qc) s;
        Some (sint r \<le> 0, s)
      })"

text \<open>\<open>while (psize > 0 || (qsize > 0 && q))\<close>. It returns \<open>q\<close>, \<open>list\<close>, \<open>tail\<close> and the memory.\<close>

function merge_loop ::
  "(nat \<Rightarrow> nat \<Rightarrow> 's \<Rightarrow> (s32 \<times> 's) option) \<Rightarrow> nat option \<Rightarrow> nat \<Rightarrow> nat option \<Rightarrow> nat \<Rightarrow>
   nat option \<Rightarrow> nat option \<Rightarrow> list_head list \<Rightarrow> 's \<Rightarrow>
   (nat option \<times> nat option \<times> nat option \<times> list_head list \<times> 's) option" where
  "merge_loop cmp p psize q qsize lst tail h s =
     (if 0 < psize \<or> 0 < qsize \<and> q \<noteq> None
      then (case take_p cmp p psize q qsize h s of
              None \<Rightarrow> None
            | Some (from_p, s) \<Rightarrow>
                let e = (if from_p then p else q) in
                (case deref h e of
                   None \<Rightarrow> None
                 | Some c \<Rightarrow>
                   (case (if tail \<noteq> None then set_next tail e h else Some h) of
                      None \<Rightarrow> None
                    | Some h \<Rightarrow>
                      if from_p
                      then merge_loop cmp (nxt c) (psize - 1) q qsize (if tail \<noteq> None then lst else e) e h s
                      else merge_loop cmp p psize (nxt c) (qsize - 1) (if tail \<noteq> None then lst else e) e h s)))
      else Some (q, lst, tail, h, s))"
  by pat_completeness auto
termination
  by (relation "measure (\<lambda>(cmp, p, psize, q, qsize, lst, tail, h, s). psize + qsize)")
    (auto simp: take_p_def split: if_splits)

declare merge_loop.simps [simp del]

text \<open>\<open>while (p)\<close>, one pass. It returns \<open>nmerges\<close>, \<open>list\<close>, \<open>tail\<close> and the memory.\<close>

partial_function (option) pass_loop ::
  "(nat \<Rightarrow> nat \<Rightarrow> 's \<Rightarrow> (s32 \<times> 's) option) \<Rightarrow> nat \<Rightarrow> nat option \<Rightarrow> nat \<Rightarrow> nat option \<Rightarrow> nat option \<Rightarrow>
   list_head list \<Rightarrow> 's \<Rightarrow> (nat \<times> nat option \<times> nat option \<times> list_head list \<times> 's) option" where
  "pass_loop cmp insize p nmerges lst tail h s =
     (if p = None then Some (nmerges, lst, tail, h, s)
      else do {
        (q, psize) \<leftarrow> step_loop insize p 0 h;
        (q, lst, tail, h, s) \<leftarrow> merge_loop cmp p psize q insize lst tail h s;
        pass_loop cmp insize q (nmerges + 1) lst tail h s
      })"

text \<open>\<open>while (1)\<close>. Doubling an \<open>ee_s32\<close> beyond its range is undefined, so it is an error here.\<close>

partial_function (option) sort_loop ::
  "(nat \<Rightarrow> nat \<Rightarrow> 's \<Rightarrow> (s32 \<times> 's) option) \<Rightarrow> nat \<Rightarrow> nat option \<Rightarrow> list_head list \<Rightarrow> 's \<Rightarrow>
   (nat option \<times> list_head list \<times> 's) option" where
  "sort_loop cmp insize p h s = do {
     (nmerges, lst, tail, h, s) \<leftarrow> pass_loop cmp insize p 0 None None h s;
     h \<leftarrow> set_next tail None h;
     if nmerges \<le> 1 then Some (lst, h, s)
     else if insize * 2 \<ge> 2 ^ 31 then None
     else sort_loop cmp (insize * 2) lst h s
   }"

definition core_list_mergesort ::
  "nat option \<Rightarrow> (nat \<Rightarrow> nat \<Rightarrow> 's \<Rightarrow> (s32 \<times> 's) option) \<Rightarrow> list_head list \<Rightarrow> 's \<Rightarrow>
   (nat option \<times> list_head list \<times> 's) option" where
  "core_list_mergesort p cmp h s = sort_loop cmp 1 p h s"

declare pass_loop.simps [code] sort_loop.simps [code]

section \<open>Merging lists of nodes\<close>

text \<open>The merge sort on the lists of nodes: \<open>f\<close> gives the item of a node.\<close>

fun node_merge ::
  "(nat \<Rightarrow> nat \<Rightarrow> 's \<Rightarrow> (s32 \<times> 's) option) \<Rightarrow> (nat \<Rightarrow> nat) \<Rightarrow> nat list \<Rightarrow> nat list \<Rightarrow> 's \<Rightarrow> (nat list \<times> 's) option" where
  "node_merge cmp f [] qs s = Some (qs, s)"
| "node_merge cmp f (p # ps) [] s = Some (p # ps, s)"
| "node_merge cmp f (p # ps) (q # qs) s = do {
     (r, s) \<leftarrow> cmp (f p) (f q) s;
     if sint r \<le> 0 then map_option (map_prod ((#) p) id) (node_merge cmp f ps (q # qs) s)
     else map_option (map_prod ((#) q) id) (node_merge cmp f (p # ps) qs s)
   }"

lemma node_merge_Nil2 [simp]: "node_merge cmp f ps [] s = Some (ps, s)"
  by (cases ps) auto

lemma node_merge_mset:
  "node_merge cmp f ps qs s = Some (ms, s') \<Longrightarrow> mset ms = mset ps + mset qs"
proof (induction cmp f ps qs s arbitrary: ms s' rule: node_merge.induct)
  case (3 cmp f p ps q qs s)
  obtain r s1 where "cmp (f p) (f q) s = Some (r, s1)"
    using 3(3) by (auto elim: bind_eq_SomeE)
  with 3 show ?case by (auto split: if_splits)
qed auto

text \<open>The same merge, node by node: the run the next node is taken from.\<close>

definition choice ::
  "(nat \<Rightarrow> nat \<Rightarrow> 's \<Rightarrow> (s32 \<times> 's) option) \<Rightarrow> (nat \<Rightarrow> nat) \<Rightarrow> nat list \<Rightarrow> nat list \<Rightarrow> 's \<Rightarrow> (bool \<times> 's) option" where
  "choice cmp f ps qs s =
     (if ps = [] then Some (False, s)
      else if qs = [] then Some (True, s)
      else do { (r, s) \<leftarrow> cmp (f (hd ps)) (f (hd qs)) s; Some (sint r \<le> 0, s) })"

lemma node_merge_step:
  assumes "node_merge cmp f ps qs s = Some (ms, s')" and "ps \<noteq> [] \<or> qs \<noteq> []"
  obtains (p) x ps1 s1 ms1 where "ps = x # ps1" and "ms = x # ms1" and "choice cmp f ps qs s = Some (True, s1)"
      and "node_merge cmp f ps1 qs s1 = Some (ms1, s')"
    | (q) x qs1 s1 ms1 where "qs = x # qs1" and "ms = x # ms1" and "choice cmp f ps qs s = Some (False, s1)"
      and "node_merge cmp f ps qs1 s1 = Some (ms1, s')"
proof (cases ps)
  case Nil
  then show ?thesis using assms that(2) by (cases qs) (auto simp: choice_def)
next
  case ps: (Cons x ps1)
  show ?thesis
  proof (cases qs)
    case Nil
    then show ?thesis using assms that(1) ps by (auto simp: choice_def)
  next
    case qs: (Cons y qs1)
    obtain r s1 where c: "cmp (f x) (f y) s = Some (r, s1)"
      using assms(1) by (auto simp: ps qs elim: bind_eq_SomeE)
    show ?thesis
    proof (cases "sint r \<le> 0")
      case True
      then obtain ms1 where "node_merge cmp f ps1 qs s1 = Some (ms1, s')" "ms = x # ms1"
        using assms(1) c by (auto simp: ps qs)
      then show ?thesis using that(1) [OF ps] c True by (auto simp: choice_def ps qs)
    next
      case False
      then obtain ms1 where "node_merge cmp f ps qs1 s1 = Some (ms1, s')" "ms = y # ms1"
        using assms(1) c by (auto simp: ps qs)
      then show ?thesis using that(2) [OF qs] c False by (auto simp: choice_def ps qs)
    qed
  qed
qed

section \<open>The merge loop relinks nodes\<close>

text \<open>The merged list so far: it starts at \<open>lst\<close> and its last node, whose \<open>next\<close> is stale, is \<open>tail\<close>.\<close>

definition merged :: "list_head list \<Rightarrow> nat option \<Rightarrow> nat option \<Rightarrow> nat list \<Rightarrow> bool" where
  "merged h lst tail xs \<longleftrightarrow>
     (if xs = [] then lst = None \<and> tail = None
      else tail = Some (last xs) \<and> last xs < length h \<and> seg h lst (butlast xs) tail)"

lemma merged_snoc:
  assumes "merged h lst tail xs" and "e < length h" and "e \<notin> set xs" and "distinct xs"
  shows "\<exists>h'. (if tail \<noteq> None then set_next tail (Some e) h else Some h) = Some h'
    \<and> merged h' (if tail \<noteq> None then lst else Some e) (Some e) (xs @ [e])
    \<and> links_only (set xs) h h'"
proof (cases "xs = []")
  case False
  then have t: "tail = Some (last xs)" "last xs < length h" "seg h lst (butlast xs) (Some (last xs))"
    using assms(1) by (auto simp: merged_def)
  let ?h = "h[last xs := (h ! last xs)\<lparr>nxt := Some e\<rparr>]"
  have "last xs \<notin> set (butlast xs)"
    using False assms(4) by (metis append_butlast_last_id distinct_append disjoint_insert(1) list.set(2))
  then have "seg ?h lst (butlast xs) (Some (last xs))"
    using t(3) by simp
  then have "seg ?h lst xs (Some e)"
    using False t(2) by (subst append_butlast_last_id [OF False, symmetric]) (simp only: seg_append, auto)
  then have "merged ?h lst (Some e) (xs @ [e])"
    using assms(2) by (simp add: merged_def)
  moreover have "links_only (set xs) h ?h"
    using False by (simp add: links_only_update)
  ultimately show ?thesis using t(1,2) by simp
qed (use assms in \<open>auto simp: merged_def\<close>)

text \<open>The runs that remain to be merged: \<open>ps\<close> from \<open>p\<close>, and \<open>qs\<close>, the first \<open>qsize\<close> nodes from \<open>q\<close>.\<close>

definition runs_left ::
  "list_head list \<Rightarrow> nat option \<Rightarrow> nat list \<Rightarrow> nat option \<Rightarrow> nat \<Rightarrow> nat list \<Rightarrow> nat list \<Rightarrow> bool" where
  "runs_left h p ps q qsize qs rest \<longleftrightarrow>
     (\<exists>r. seg h p ps r) \<and> chain h q (qs @ rest) \<and> length qs \<le> qsize \<and> (length qs < qsize \<longrightarrow> rest = [])"

lemma runs_left_links_only:
  assumes "runs_left h p ps q n qs rest" and "links_only A h h'" and "A \<inter> (set ps \<union> set qs \<union> set rest) = {}"
  shows "runs_left h' p ps q n qs rest"
proof -
  have "set ps \<inter> A = {}" "set (qs @ rest) \<inter> A = {}" using assms(3) by auto
  then show ?thesis
    using assms(1,2) unfolding runs_left_def by (metis seg_links_only)
qed

lemma runs_left_pop_p:
  "runs_left h p (x # ps) q n qs rest \<Longrightarrow> p = Some x \<and> x < length h \<and> runs_left h (nxt (h ! x)) ps q n qs rest"
  by (auto simp: runs_left_def)

lemma runs_left_pop_q:
  "runs_left h p ps q n (x # qs) rest \<Longrightarrow> q = Some x \<and> x < length h \<and> 0 < n \<and> runs_left h p ps (nxt (h ! x)) (n - 1) qs rest"
  by (auto simp: runs_left_def)

lemma runs_left_no_q:
  "runs_left h p ps q n [] rest \<Longrightarrow> n = 0 \<or> q = None"
  by (auto simp: runs_left_def)

text \<open>One turn of the loop that takes the node \<open>e\<close>, from the run \<open>p\<close> or the run \<open>q\<close>.\<close>

lemma merge_loop_turn:
  assumes "take_p cmp p psize q qsize h s = Some (from_p, s1)"
    and "0 < psize \<or> 0 < qsize \<and> q \<noteq> None"
    and "(if from_p then p else q) = Some e" and "e < length h"
    and "(if tail \<noteq> None then set_next tail (Some e) h else Some h) = Some h1"
  shows "merge_loop cmp p psize q qsize lst tail h s =
    (if from_p
     then merge_loop cmp (nxt (h ! e)) (psize - 1) q qsize (if tail \<noteq> None then lst else Some e) (Some e) h1 s1
     else merge_loop cmp p psize (nxt (h ! e)) (qsize - 1) (if tail \<noteq> None then lst else Some e) (Some e) h1 s1)"
  by (subst merge_loop.simps, subst if_P [OF assms(2)])
    (simp only: assms(1) option.case prod.case Let_def assms(3) deref_Some [OF assms(4)] assms(5))

lemma merge_loop_stop:
  "psize = 0 \<Longrightarrow> qsize = 0 \<or> q = None \<Longrightarrow> merge_loop cmp p psize q qsize lst tail h s = Some (q, lst, tail, h, s)"
  by (subst merge_loop.simps) auto

text \<open>What the loop achieves from a given point.\<close>

definition merge_done ::
  "list_head list \<Rightarrow> nat list \<Rightarrow> nat list \<Rightarrow> nat list \<Rightarrow> 's \<Rightarrow>
   (nat option \<times> nat option \<times> nat option \<times> list_head list \<times> 's) option \<Rightarrow> bool" where
  "merge_done h xs ms rest s' result \<longleftrightarrow>
     (\<exists>q' lst' tail' h'. result = Some (q', lst', tail', h', s') \<and> merged h' lst' tail' (xs @ ms)
        \<and> chain h' q' rest \<and> links_only (set xs \<union> set ms) h h')"

lemma merge_done_step:
  "links_only (set xs) h h1 \<Longrightarrow> merge_done h1 (xs @ [e]) ms rest s' result \<Longrightarrow> merge_done h xs (e # ms) rest s' result"
  unfolding merge_done_def by (auto dest: links_only_trans simp: insert_commute Un_commute elim!: links_only_mono)

lemma take_p_choice:
  assumes "runs_left h p ps q n qs rest" and "\<forall>x\<in>set ps \<union> set qs. f x = info (h ! x)"
  shows "take_p cmp p (length ps) q n h s = choice cmp f ps qs s"
proof (cases "ps = [] \<or> qs = []")
  case True
  then show ?thesis
    using runs_left_no_q [of h p ps q n rest] runs_left_pop_q [of h p ps q n "hd qs" "tl qs" rest] assms(1)
    by (cases qs) (auto simp: take_p_def choice_def)
next
  case False
  then obtain x ps1 y qs1 where pq: "ps = x # ps1" "qs = y # qs1" by (meson neq_Nil_conv)
  then have "p = Some x" "x < length h" "q = Some y" "y < length h" "0 < n"
    using runs_left_pop_p [of h p x ps1] runs_left_pop_q [of h p ps q n y qs1] assms(1) by auto
  then show ?thesis using assms(2) pq by (auto simp: take_p_def choice_def)
qed

lemma merge_loop_ok:
  assumes "runs_left h p ps q qsize qs rest" and "merged h lst tail xs"
    and "distinct (xs @ ps @ qs @ rest)"
    and "\<forall>x\<in>set ps \<union> set qs. f x = info (h ! x)"
    and "node_merge cmp f ps qs s = Some (ms, s')"
  shows "merge_done h xs ms rest s' (merge_loop cmp p (length ps) q qsize lst tail h s)"
  using assms
proof (induction "length ps + length qs" arbitrary: ps qs s p q qsize lst tail xs h ms)
  case 0
  then show ?case
    using runs_left_no_q [of h p ps q qsize rest] by (auto simp: merge_done_def merge_loop_stop runs_left_def)
next
  case (Suc n)
  note R = Suc.prems(1) and D = Suc.prems(3)
  have nonempty: "ps \<noteq> [] \<or> qs \<noteq> []" using Suc.hyps(2) by auto
  then have guard: "0 < length ps \<or> 0 < qsize \<and> q \<noteq> None"
    using runs_left_pop_q [of h p ps q qsize "hd qs" "tl qs" rest] R by (cases qs) auto
  have turn: "merge_done h xs ms rest s' (merge_loop cmp p (length ps) q qsize lst tail h s)"
    if c: "choice cmp f ps qs s = Some (from_p, s1)" and e: "(if from_p then p else q) = Some e" "e < length h"
      and fresh: "e \<notin> set xs" and d: "distinct (xs @ [e] @ ps1 @ qs1 @ rest)"
      and sub: "set ps1 \<subseteq> set ps" "set qs1 \<subseteq> set qs" and less: "n = length ps1 + length qs1"
      and m: "ms = e # ms1" "node_merge cmp f ps1 qs1 s1 = Some (ms1, s')"
      and left: "runs_left h p1 ps1 q1 qsize1 qs1 rest"
      and step: "\<And>l t h1. (if from_p
         then merge_loop cmp (nxt (h ! e)) (length ps - 1) q qsize l t h1 s1
         else merge_loop cmp p (length ps) (nxt (h ! e)) (qsize - 1) l t h1 s1)
       = merge_loop cmp p1 (length ps1) q1 qsize1 l t h1 s1"
    for from_p s1 e ps1 qs1 ms1 p1 q1 qsize1
  proof -
    obtain h1 where h1: "(if tail \<noteq> None then set_next tail (Some e) h else Some h) = Some h1"
      "merged h1 (if tail \<noteq> None then lst else Some e) (Some e) (xs @ [e])" "links_only (set xs) h h1"
      using merged_snoc [OF Suc.prems(2) e(2) fresh] D by auto
    have f: "\<forall>x\<in>set ps1 \<union> set qs1. f x = info (h1 ! x)"
      using Suc.prems(4) sub left h1(3)
      by (auto simp: runs_left_def links_only_info dest!: seg_in_bounds)
    have left1: "runs_left h1 p1 ps1 q1 qsize1 qs1 rest"
      using d by (intro runs_left_links_only [OF left h1(3)]) auto
    have "merge_done h1 (xs @ [e]) ms1 rest s'
        (merge_loop cmp p1 (length ps1) q1 qsize1 (if tail \<noteq> None then lst else Some e) (Some e) h1 s1)"
      by (rule Suc.hyps(1) [OF less left1 h1(2) _ f m(2)]) (use d in simp)
    then have "merge_done h xs (e # ms1) rest s'
        (merge_loop cmp p1 (length ps1) q1 qsize1 (if tail \<noteq> None then lst else Some e) (Some e) h1 s1)"
      by (rule merge_done_step [OF h1(3)])
    then show ?thesis
      unfolding m(1) merge_loop_turn [OF trans [OF take_p_choice [OF R Suc.prems(4)] c] guard e h1(1)] step .
  qed
  from Suc.prems(5) nonempty show ?case
  proof (cases rule: node_merge_step)
    case (p x ps1 s1 ms1)
    note pop = runs_left_pop_p [OF R [unfolded p(1)]]
    show ?thesis
      by (rule turn [OF p(3), of x ps1 qs ms1 "nxt (h ! x)" q qsize]) (use p pop D Suc.hyps(2) in auto)
  next
    case (q x qs1 s1 ms1)
    note pop = runs_left_pop_q [OF R [unfolded q(1)]]
    show ?thesis
      by (rule turn [OF q(3), of x ps qs1 ms1 p "nxt (h ! x)" "qsize - 1"]) (use q pop D Suc.hyps(2) in auto)
  qed
qed

lemma node_merge_fixed_induct:
  fixes cmp :: "nat \<Rightarrow> nat \<Rightarrow> 's \<Rightarrow> (s32 \<times> 's) option" and f :: "nat \<Rightarrow> nat"
  assumes "\<And>qs s. P [] qs s" and "\<And>p ps s. P (p # ps) [] s"
    and "\<And>p ps q qs s. (\<And>r s1. cmp (f p) (f q) s = Some (r, s1) \<Longrightarrow> sint r \<le> 0 \<Longrightarrow> P ps (q # qs) s1) \<Longrightarrow>
      (\<And>r s1. cmp (f p) (f q) s = Some (r, s1) \<Longrightarrow> \<not> sint r \<le> 0 \<Longrightarrow> P (p # ps) qs s1) \<Longrightarrow>
      P (p # ps) (q # qs) s"
  shows "P ps qs s"
proof -
  have "c = cmp \<Longrightarrow> g = f \<Longrightarrow> P ps qs s" for c g
    by (induction c g ps qs s rule: node_merge.induct) (auto intro: assms)
  then show ?thesis by simp
qed

section \<open>Stable merging\<close>

fun key_merge :: "('a \<Rightarrow> 'k::linorder) \<Rightarrow> 'a list \<Rightarrow> 'a list \<Rightarrow> 'a list" where
  "key_merge k [] ys = ys"
| "key_merge k (x # xs) [] = x # xs"
| "key_merge k (x # xs) (y # ys) =
     (if k x \<le> k y then x # key_merge k xs (y # ys) else y # key_merge k (x # xs) ys)"

lemma key_merge_Nil2 [simp]: "key_merge k xs [] = xs"
  by (cases xs) auto

lemma mset_key_merge [simp]: "mset (key_merge k xs ys) = mset xs + mset ys"
  by (induction k xs ys rule: key_merge.induct) auto

lemma set_key_merge [simp]: "set (key_merge k xs ys) = set xs \<union> set ys"
  by (induction k xs ys rule: key_merge.induct) auto

lemma sorted_key_merge:
  "sorted (map k xs) \<Longrightarrow> sorted (map k ys) \<Longrightarrow> sorted (map k (key_merge k xs ys))"
  by (induction k xs ys rule: key_merge.induct) auto

lemma filter_key_merge:
  "sorted (map k xs) \<Longrightarrow> sorted (map k ys) \<Longrightarrow>
   filter (\<lambda>x. c = k x) (key_merge k xs ys) = filter (\<lambda>x. c = k x) xs @ filter (\<lambda>x. c = k x) ys"
proof (induction k xs ys rule: key_merge.induct)
  case (3 k x xs y ys)
  show ?case
  proof (cases "k x \<le> k y")
    case False
    then have "filter (\<lambda>x. k y = k x) (x # xs) = []"
      using "3.prems" by (auto simp: filter_empty_conv)
    then show ?thesis using 3 False by (cases "c = k y") (auto split: if_splits)
  qed (use 3 in auto)
qed auto

lemma filter_sort_key: "filter (\<lambda>x. c = k x) (sort_key k xs) = filter (\<lambda>x. c = k x) xs"
  using sort_key_stable [of k c xs] by (simp only: eq_commute [of c])

lemma sort_key_append:
  "sort_key k (xs @ ys) = key_merge k (sort_key k xs) (sort_key k ys)"
  by (rule properties_for_sort_key)
    (simp_all add: filter_key_merge sorted_key_merge filter_sort_key)

lemma sort_key_keys_cong:
  assumes "\<And>x. x \<in> set xs \<Longrightarrow> k x = k' x"
  shows "sort_key k xs = sort_key k' xs"
proof (rule properties_for_sort_key)
  have eq: "\<And>x. x \<in> set (sort_key k' xs) \<Longrightarrow> k x = k' x" using assms by simp
  have "map k (sort_key k' xs) = map k' (sort_key k' xs)" using eq by (rule map_cong [OF refl])
  then show "sorted (map k (sort_key k' xs))" by (simp only: sorted_sort_key)
  show "filter (\<lambda>x. k c = k x) (sort_key k' xs) = filter (\<lambda>x. k c = k x) xs"
    if "c \<in> set (sort_key k' xs)" for c
  proof -
    have "filter (\<lambda>x. k c = k x) (sort_key k' xs) = filter (\<lambda>x. k c = k' x) (sort_key k' xs)"
      using eq by (intro filter_cong) auto
    also have "\<dots> = filter (\<lambda>x. k c = k' x) xs" by (rule filter_sort_key)
    also have "\<dots> = filter (\<lambda>x. k c = k x) xs"
      using assms by (intro filter_cong) auto
    finally show ?thesis .
  qed
qed simp

lemma sort_key_short: "length xs \<le> 1 \<Longrightarrow> sort_key k xs = xs"
  by (cases xs) auto

section \<open>The contract of a comparison function\<close>

text \<open>
  A comparison may fill in the key of an item the first time it sees it (\<open>cmp_complex\<close> caches the
  value it calculates), so the keys are those of the state after the sort. Once seen, an item keeps
  its key.
\<close>

locale comparator =
  fixes cmp :: "nat \<Rightarrow> nat \<Rightarrow> 's \<Rightarrow> (s32 \<times> 's) option"
    and inv :: "'s \<Rightarrow> bool"
    and ok :: "nat \<Rightarrow> bool"
    and seen :: "'s \<Rightarrow> nat \<Rightarrow> bool"
    and key :: "'s \<Rightarrow> nat \<Rightarrow> int"
  assumes cmp_returns: "inv s \<Longrightarrow> ok a \<Longrightarrow> ok b \<Longrightarrow> \<exists>r s'. cmp a b s = Some (r, s')"
    and cmp_result: "inv s \<Longrightarrow> ok a \<Longrightarrow> ok b \<Longrightarrow> cmp a b s = Some (r, s') \<Longrightarrow>
      inv s' \<and> seen s' a \<and> seen s' b \<and> (sint r \<le> 0 \<longleftrightarrow> key s' a \<le> key s' b)"
    and cmp_keeps: "inv s \<Longrightarrow> ok a \<Longrightarrow> ok b \<Longrightarrow> cmp a b s = Some (r, s') \<Longrightarrow> seen s c \<Longrightarrow>
      seen s' c \<and> key s' c = key s c"
begin

definition evolves :: "'s \<Rightarrow> 's \<Rightarrow> bool" where
  "evolves s s' \<longleftrightarrow> (\<forall>c. seen s c \<longrightarrow> seen s' c \<and> key s' c = key s c)"

lemma evolves_refl: "evolves s s"
  by (simp add: evolves_def)

lemma evolves_trans: "evolves s s' \<Longrightarrow> evolves s' s'' \<Longrightarrow> evolves s s''"
  by (simp add: evolves_def)

lemma node_merge_keys:
  assumes "inv s" and "\<forall>x\<in>set ps \<union> set qs. ok (f x)"
  shows "\<exists>s'. inv s' \<and> evolves s s'
    \<and> node_merge cmp f ps qs s = Some (key_merge (\<lambda>x. key s' (f x)) ps qs, s')
    \<and> (ps \<noteq> [] \<and> qs \<noteq> [] \<and> (\<forall>x\<in>set (tl ps) \<union> set (tl qs). seen s (f x)) \<longrightarrow>
        (\<forall>x\<in>set ps \<union> set qs. seen s' (f x)))"
  using assms
proof (induction ps qs s rule: node_merge_fixed_induct [where cmp = cmp and f = f])
  case (3 p ps q qs s)
  obtain r s1 where c: "cmp (f p) (f q) s = Some (r, s1)"
    using cmp_returns [OF 3(3), of "f p" "f q"] 3(4) by auto
  have s1: "inv s1" "seen s1 (f p)" "seen s1 (f q)" "sint r \<le> 0 \<longleftrightarrow> key s1 (f p) \<le> key s1 (f q)" "evolves s s1"
    using cmp_result [OF 3(3) _ _ c] cmp_keeps [OF 3(3) _ _ c] 3(4) by (auto simp: evolves_def)
  show ?case
  proof (cases "sint r \<le> 0")
    case True
    then obtain s' where s': "inv s'" "evolves s1 s'"
      "node_merge cmp f ps (q # qs) s1 = Some (key_merge (\<lambda>x. key s' (f x)) ps (q # qs), s')"
      "ps \<noteq> [] \<and> (\<forall>x\<in>set (tl ps) \<union> set qs. seen s1 (f x)) \<longrightarrow> (\<forall>x\<in>set ps \<union> set (q # qs). seen s' (f x))"
      using 3(1) [OF c True] s1(1) 3(4) by auto
    have "key s' (f p) \<le> key s' (f q)"
      using s1(2-4) s'(2) True by (simp add: evolves_def)
    then show ?thesis
      using c True s' s1 evolves_trans [OF s1(5) s'(2)]
      by (intro exI [of _ s']) (auto simp: evolves_def dest: list.set_sel(2))
  next
    case False
    then obtain s' where s': "inv s'" "evolves s1 s'"
      "node_merge cmp f (p # ps) qs s1 = Some (key_merge (\<lambda>x. key s' (f x)) (p # ps) qs, s')"
      "qs \<noteq> [] \<and> (\<forall>x\<in>set ps \<union> set (tl qs). seen s1 (f x)) \<longrightarrow> (\<forall>x\<in>set (p # ps) \<union> set qs. seen s' (f x))"
      using 3(2) [OF c False] s1(1) 3(4) by auto
    have "\<not> key s' (f p) \<le> key s' (f q)"
      using s1(2-4) s'(2) False by (simp add: evolves_def)
    then show ?thesis
      using c False s' s1 evolves_trans [OF s1(5) s'(2)]
      by (intro exI [of _ s']) (auto simp: evolves_def dest: list.set_sel(2))
  qed
qed (auto intro: evolves_refl)

end

section \<open>One pass\<close>

function node_pass ::
  "(nat \<Rightarrow> nat \<Rightarrow> 's \<Rightarrow> (s32 \<times> 's) option) \<Rightarrow> (nat \<Rightarrow> nat) \<Rightarrow> nat \<Rightarrow> nat list \<Rightarrow> 's \<Rightarrow> (nat list \<times> 's \<times> nat) option" where
  "node_pass cmp f k xs s =
     (if k = 0 \<or> xs = [] then Some ([], s, 0)
      else case node_merge cmp f (take k xs) (take k (drop k xs)) s of
        None \<Rightarrow> None
      | Some (ms, s) \<Rightarrow> map_option (\<lambda>(r, s, n). (ms @ r, s, Suc n)) (node_pass cmp f k (drop k (drop k xs)) s))"
  by pat_completeness auto
termination
  by (relation "measure (\<lambda>(cmp, f, k, xs, s). length xs)") auto

declare node_pass.simps [simp del]

lemma node_pass_Nil [simp]: "node_pass cmp f k [] s = Some ([], s, 0)"
  by (simp add: node_pass.simps)

lemma step_loop_ok:
  "chain h p xs \<Longrightarrow> xs \<noteq> [] \<Longrightarrow>
   \<exists>q. step_loop k p m h = Some (q, m + min k (length xs)) \<and> chain h q (drop k xs)"
proof (induction k arbitrary: p m xs)
  case (Suc k)
  then obtain x ys where xs: "xs = x # ys" "p = Some x" "x < length h" "chain h (nxt (h ! x)) ys"
    by (cases xs) auto
  show ?case
  proof (cases ys)
    case Nil
    then show ?thesis using xs by auto
  next
    case (Cons y zs)
    then have "nxt (h ! x) \<noteq> None" using xs by auto
    moreover obtain q where "step_loop k (nxt (h ! x)) (Suc m) h = Some (q, Suc m + min k (length ys))"
      "chain h q (drop k ys)"
      using Suc.IH [OF xs(4), of "Suc m"] Cons by auto
    ultimately show ?thesis using xs by auto
  qed
qed auto

lemma seg_take: "seg h p xs q \<Longrightarrow> \<exists>r. seg h p (take k xs) r"
  by (metis append_take_drop_id seg_append)

lemma pass_loop_ok:
  assumes "chain h p xs" and "merged h lst tail ys" and "distinct (ys @ xs)" and "0 < k"
    and "\<forall>x\<in>set xs. f x = info (h ! x)"
    and "node_pass cmp f k xs s = Some (r, s', n)"
  shows "\<exists>lst' tail' h'. pass_loop cmp k p m lst tail h s = Some (m + n, lst', tail', h', s')
    \<and> merged h' lst' tail' (ys @ r) \<and> links_only (set ys \<union> set xs) h h' \<and> mset r = mset xs"
  using assms
proof (induction "length xs" arbitrary: xs p h lst tail ys s r n m rule: less_induct)
  case less
  show ?case
  proof (cases "xs = []")
    case True
    then show ?thesis using less.prems by (subst pass_loop.simps) (auto simp: node_pass.simps)
  next
    case False
    let ?ps = "take k xs" and ?qs = "take k (drop k xs)" and ?rest = "drop k (drop k xs)"
    have split: "xs = ?ps @ ?qs @ ?rest" by (simp only: append_take_drop_id)
    obtain q where q: "step_loop k p 0 h = Some (q, length ?ps)" "chain h q (drop k xs)"
      using step_loop_ok [OF less.prems(1) False, of k 0] by (auto simp: min.commute)
    obtain ms s1 r1 n1 where pass: "node_merge cmp f ?ps ?qs s = Some (ms, s1)"
      "node_pass cmp f k ?rest s1 = Some (r1, s', n1)" "r = ms @ r1" "n = Suc n1"
      using less.prems(4,6) False by (subst (asm) node_pass.simps) (auto split: option.splits)
    have left: "runs_left h p ?ps q k ?qs ?rest"
      unfolding runs_left_def append_take_drop_id using q(2) seg_take [OF less.prems(1)] by auto
    have "merge_done h ys ms ?rest s1 (merge_loop cmp p (length ?ps) q k lst tail h s)"
    proof (rule merge_loop_ok [OF left less.prems(2) _ _ pass(1)])
      show "distinct (ys @ ?ps @ ?qs @ ?rest)" using less.prems(3) split by simp
      show "\<forall>x\<in>set ?ps \<union> set ?qs. f x = info (h ! x)"
        using less.prems(5) by (auto dest: in_set_takeD in_set_dropD)
    qed
    then obtain q1 lst1 tail1 h1 where merge:
      "merge_loop cmp p (length ?ps) q k lst tail h s = Some (q1, lst1, tail1, h1, s1)"
      "merged h1 lst1 tail1 (ys @ ms)" "chain h1 q1 ?rest" "links_only (set ys \<union> set ms) h h1"
      unfolding merge_done_def by blast
    have ms: "mset ms = mset ?ps + mset ?qs" by (rule node_merge_mset [OF pass(1)])
    then have mset: "mset (ms @ ?rest) = mset xs" by (subst (2) split) (simp add: ac_simps)
    then have "mset ((ys @ ms) @ ?rest) = mset (ys @ xs)" by simp
    then have "distinct ((ys @ ms) @ ?rest)"
      using less.prems(3) by (metis mset_eq_imp_distinct_iff)
    moreover have "\<forall>x\<in>set ?rest. f x = info (h1 ! x)"
      using less.prems(5) merge(3,4)
      by (auto simp: links_only_info [OF merge(4)] links_only_length [OF merge(4)] dest!: seg_in_bounds
          dest: in_set_dropD)
    ultimately obtain lst' tail' h' where rest:
      "pass_loop cmp k q1 (m + 1) lst1 tail1 h1 s1 = Some (m + 1 + n1, lst', tail', h', s')"
      "merged h' lst' tail' ((ys @ ms) @ r1)" "links_only (set (ys @ ms) \<union> set ?rest) h1 h'" "mset r1 = mset ?rest"
      using less.hyps [OF _ merge(3,2) _ less.prems(4) _ pass(2), of "m + 1"] False less.prems(4) by auto
    have set: "set ys \<union> set ms \<union> (set (ys @ ms) \<union> set ?rest) = set ys \<union> set xs"
      using mset_eq_setD [OF mset] by auto
    have "pass_loop cmp k p m lst tail h s = Some (m + n, lst', tail', h', s')"
      using False less.prems(1) q(1) merge(1) rest(1) pass(4) by (subst pass_loop.simps) (cases xs, auto)
    then show ?thesis
      using rest(2) links_only_trans [OF merge(4) rest(3)] mset rest(4) pass(3) unfolding set by auto
  qed
qed

lemma merged_close:
  assumes "merged h lst tail xs" and "xs \<noteq> []" and "distinct xs"
  shows "\<exists>h'. set_next tail None h = Some h' \<and> chain h' lst xs \<and> links_only (set xs) h h'"
proof -
  let ?h = "h[last xs := (h ! last xs)\<lparr>nxt := None\<rparr>]"
  have t: "tail = Some (last xs)" "last xs < length h" "seg h lst (butlast xs) (Some (last xs))"
    using assms by (auto simp: merged_def)
  have "last xs \<notin> set (butlast xs)"
    using assms(2,3) by (metis append_butlast_last_id distinct_append disjoint_insert(1) list.set(2))
  then have "chain ?h lst xs"
    using t by (subst append_butlast_last_id [OF assms(2), symmetric]) (simp only: seg_append, auto)
  then show ?thesis
    using t assms(2) by (simp add: links_only_update)
qed

section \<open>The sort is stable\<close>

lemma sort_key_Nil_iff: "sort_key k xs = [] \<longleftrightarrow> xs = []"
  by (metis length_0_conv length_sort)

context comparator begin

text \<open>A run holds the sorted items of a stretch of the original list; all seen, unless it is single.\<close>

definition run_of :: "(nat \<Rightarrow> nat) \<Rightarrow> 's \<Rightarrow> nat list \<Rightarrow> nat list \<Rightarrow> bool" where
  "run_of f s c0 c \<longleftrightarrow> c = sort_key (\<lambda>x. key s (f x)) c0
     \<and> (length c \<le> 1 \<or> (\<forall>x\<in>set c. seen s (f x)))"

lemma run_of_evolves:
  assumes "run_of f s c0 c" and "evolves s s'"
  shows "run_of f s' c0 c"
proof (cases "length c \<le> 1")
  case True
  then show ?thesis using assms by (simp add: run_of_def sort_key_short)
next
  case False
  then have seen: "\<forall>x\<in>set c0. seen s (f x)" using assms(1) by (auto simp: run_of_def)
  then have "sort_key (\<lambda>x. key s' (f x)) c0 = sort_key (\<lambda>x. key s (f x)) c0"
    using assms(2) by (intro sort_key_keys_cong) (simp add: evolves_def)
  then show ?thesis using assms False by (auto simp: run_of_def evolves_def)
qed

lemma run_of_merge:
  assumes "run_of f s as0 as" and "run_of f s bs0 bs" and "inv s" and "\<forall>x\<in>set as \<union> set bs. ok (f x)"
  shows "\<exists>ms s'. node_merge cmp f as bs s = Some (ms, s') \<and> inv s' \<and> evolves s s' \<and> run_of f s' (as0 @ bs0) ms"
proof -
  obtain s' where s': "inv s'" "evolves s s'"
    "node_merge cmp f as bs s = Some (key_merge (\<lambda>x. key s' (f x)) as bs, s')"
    "as \<noteq> [] \<and> bs \<noteq> [] \<and> (\<forall>x\<in>set (tl as) \<union> set (tl bs). seen s (f x)) \<longrightarrow>
        (\<forall>x\<in>set as \<union> set bs. seen s' (f x))"
    using node_merge_keys [OF assms(3,4)] by blast
  have ab: "run_of f s' as0 as" "run_of f s' bs0 bs"
    using assms(1,2) s'(2) run_of_evolves by auto
  have "\<forall>x\<in>set (tl cs). seen s (f x)" if "run_of f s cs0 cs" for cs0 cs
  proof -
    have "length cs \<le> 1 \<or> (\<forall>x\<in>set cs. seen s (f x))"
      using that unfolding run_of_def by blast
    then show ?thesis by (cases cs) auto
  qed
  then have "as \<noteq> [] \<and> bs \<noteq> [] \<longrightarrow> (\<forall>x\<in>set as \<union> set bs. seen s' (f x))"
    using s'(4) assms(1,2) by blast
  then have "run_of f s' (as0 @ bs0) (key_merge (\<lambda>x. key s' (f x)) as bs)"
    using ab unfolding run_of_def by (cases "as = []"; cases "bs = []") (auto simp: sort_key_append)
  with s' show ?thesis by blast
qed

function runs :: "(nat \<Rightarrow> nat) \<Rightarrow> 's \<Rightarrow> nat \<Rightarrow> nat list \<Rightarrow> nat list \<Rightarrow> bool" where
  "runs f s k xs0 xs =
     (if k = 0 \<or> xs = [] then xs0 = [] \<and> xs = []
      else run_of f s (take k xs0) (take k xs) \<and> runs f s k (drop k xs0) (drop k xs))"
  by pat_completeness auto
termination
  by (relation "measure (\<lambda>(f, s, k, xs0, xs). length xs)") auto

declare runs.simps [simp del]

lemma runs_Nil: "runs f s k xs0 [] \<longleftrightarrow> xs0 = []"
  by (simp add: runs.simps)

lemma run_of_Nil: "run_of f s xs0 [] \<longleftrightarrow> xs0 = []"
  unfolding run_of_def by (metis length_0_conv length_sort list.size(3) zero_le)

lemma runs_unfold:
  "k \<noteq> 0 \<Longrightarrow> xs \<noteq> [] \<Longrightarrow>
   runs f s k xs0 xs \<longleftrightarrow> run_of f s (take k xs0) (take k xs) \<and> runs f s k (drop k xs0) (drop k xs)"
  by (subst runs.simps) simp

lemma runs_step:
  assumes "0 < k"
  shows "runs f s k xs0 xs \<longleftrightarrow> run_of f s (take k xs0) (take k xs) \<and> runs f s k (drop k xs0) (drop k xs)"
proof (cases "xs = []")
  case True
  have "xs0 = [] \<longleftrightarrow> take k xs0 = [] \<and> drop k xs0 = []"
    by (metis append_Nil append_take_drop_id drop_Nil take_Nil)
  then show ?thesis unfolding True by (simp only: runs_Nil run_of_Nil take_Nil drop_Nil)
next
  case False
  then show ?thesis using assms by (intro runs_unfold) auto
qed

lemma runs_evolves: "runs f s k xs0 xs \<Longrightarrow> evolves s s' \<Longrightarrow> runs f s' k xs0 xs"
proof (induction f s k xs0 xs rule: runs.induct)
  case (1 f s k xs0 xs)
  show ?case
  proof (cases "k = 0 \<or> xs = []")
    case True
    then have "xs0 = [] \<and> xs = []" using "1.prems"(1) by (simp add: runs.simps [of f s k xs0 xs])
    then show ?thesis by (simp add: runs_Nil)
  next
    case False
    then have "run_of f s (take k xs0) (take k xs)" "runs f s k (drop k xs0) (drop k xs)"
      using "1.prems"(1) by (simp_all add: runs.simps [of f s k xs0 xs])
    then show ?thesis
      using "1.IH" [OF False _ "1.prems"(2)] run_of_evolves [OF _ "1.prems"(2)] False
      by (simp add: runs.simps [of f s' k xs0 xs])
  qed
qed

lemma runs_length: "runs f s k xs0 xs \<Longrightarrow> length xs0 = length xs"
proof (induction f s k xs0 xs rule: runs.induct)
  case (1 f s k xs0 xs)
  show ?case
  proof (cases "k = 0 \<or> xs = []")
    case False
    then have r: "run_of f s (take k xs0) (take k xs)" "runs f s k (drop k xs0) (drop k xs)"
      using "1.prems" by (auto simp: runs.simps [of f _ k xs0])
    then have "length (take k xs0) = length (take k xs)" by (metis run_of_def length_sort)
    then show ?thesis using "1.IH" [OF False r(2)] by auto
  qed (use 1 in \<open>simp add: runs.simps [of f s k xs0]\<close>)
qed

lemma runs_single: "runs f s 1 xs xs"
proof (induction xs)
  case (Cons x xs)
  then show ?case by (subst runs_step) (auto simp: run_of_def)
qed (simp add: runs_Nil)

text \<open>A pass over runs of \<open>k\<close> nodes leaves runs of \<open>2 k\<close> nodes.\<close>

lemma node_pass_runs:
  assumes "runs f s k xs0 xs" and "0 < k" and "inv s" and "\<forall>x\<in>set xs. ok (f x)"
  shows "\<exists>r s' n. node_pass cmp f k xs s = Some (r, s', n) \<and> inv s' \<and> evolves s s'
    \<and> runs f s' (k + k) xs0 r \<and> (n = 0 \<longleftrightarrow> xs = []) \<and> (n \<le> 1 \<longleftrightarrow> length xs \<le> k + k)"
  using assms
proof (induction "length xs" arbitrary: xs0 xs s rule: less_induct)
  case less
  show ?case
  proof (cases "xs = []")
    case True
    then show ?thesis using less.prems by (auto simp: runs_Nil evolves_refl)
  next
    case False
    let ?a = "take k xs" and ?b = "take k (drop k xs)" and ?rest = "drop k (drop k xs)"
    let ?u = "take k xs0" and ?v = "take k (drop k xs0)" and ?old = "drop k (drop k xs0)"
    have r: "run_of f s ?u ?a" "run_of f s ?v ?b" "runs f s k ?old ?rest"
      using less.prems(1) runs_step [OF less.prems(2), of f s xs0 xs]
        runs_step [OF less.prems(2), of f s "drop k xs0" "drop k xs"] by blast+
    have "\<forall>x\<in>set ?a \<union> set ?b. ok (f x)"
      using less.prems(4) by (auto dest: in_set_takeD in_set_dropD)
    then obtain ms s1 where m: "node_merge cmp f ?a ?b s = Some (ms, s1)" "inv s1" "evolves s s1"
      "run_of f s1 (?u @ ?v) ms"
      using run_of_merge [OF r(1,2) less.prems(3)] by blast
    have shorter: "length ?rest < length xs" using False less.prems(2) by simp
    have ok: "\<forall>x\<in>set ?rest. ok (f x)" using less.prems(4) by (auto dest: in_set_dropD)
    obtain r1 s2 n where p: "node_pass cmp f k ?rest s1 = Some (r1, s2, n)" "inv s2" "evolves s1 s2"
      "runs f s2 (k + k) ?old r1" "n = 0 \<longleftrightarrow> ?rest = []"
      using less.hyps [OF shorter runs_evolves [OF r(3) m(3)] less.prems(2) m(2) ok] by blast
    have len: "length ms = min (k + k) (length xs)"
      using arg_cong [OF node_merge_mset [OF m(1)], of size] by (simp add: min_def) arith
    have r1: "r1 = [] \<longleftrightarrow> ?rest = []"
      using runs_length [OF p(4)] runs_length [OF r(3)] by (metis length_0_conv)
    have parts: "take (k + k) (ms @ r1) = ms" "drop (k + k) (ms @ r1) = r1"
      using len r1 by (cases "length xs \<le> k + k"; simp)+
    have "runs f s2 (k + k) xs0 (ms @ r1)"
    proof (subst runs_step)
      have "run_of f s2 (take (k + k) xs0) ms"
        using run_of_evolves [OF m(4) p(3)] by (simp add: take_add)
      moreover have "runs f s2 (k + k) (drop (k + k) xs0) r1"
        using p(4) by (simp add: add.commute)
      ultimately show "run_of f s2 (take (k + k) xs0) (take (k + k) (ms @ r1)) \<and>
          runs f s2 (k + k) (drop (k + k) xs0) (drop (k + k) (ms @ r1))"
        unfolding parts by simp
    qed (use less.prems(2) in simp)
    moreover have "node_pass cmp f k xs s = Some (ms @ r1, s2, Suc n)"
      using False less.prems(2) m(1) p(1) by (subst node_pass.simps) simp
    ultimately show ?thesis
      using p(2,5) evolves_trans [OF m(3) p(3)] False
      by (intro exI [of _ "ms @ r1"] exI [of _ s2] exI [of _ "Suc n"]) simp
  qed
qed

lemma sort_loop_ok:
  assumes "chain h p xs" and "xs \<noteq> []" and "runs f s k xs0 xs" and "0 < k" and "inv s"
    and "\<forall>x\<in>set xs. ok (f x) \<and> f x = info (h ! x)" and "length xs \<le> 2 ^ 30"
  shows "\<exists>p' h' s'. sort_loop cmp k p h s = Some (p', h', s')
    \<and> chain h' p' (sort_key (\<lambda>x. key s' (f x)) xs0) \<and> links_only (set xs) h h' \<and> inv s' \<and> evolves s s'
    \<and> (2 \<le> length xs \<longrightarrow> (\<forall>x\<in>set xs. seen s' (f x)))"
  using assms
proof (induction "length xs - k" arbitrary: xs p h s k rule: less_induct)
  case less
  obtain r s1 n where pass: "node_pass cmp f k xs s = Some (r, s1, n)" "inv s1" "evolves s s1"
    "runs f s1 (k + k) xs0 r" "n \<le> 1 \<longleftrightarrow> length xs \<le> k + k"
    using node_pass_runs [OF less.prems(3-5)] less.prems(6) by blast
  have "merged h None None []" by (simp add: merged_def)
  then obtain lst tail h1 where loop: "pass_loop cmp k p 0 None None h s = Some (n, lst, tail, h1, s1)"
    "merged h1 lst tail r" "links_only (set xs) h h1" "mset r = mset xs"
    using pass_loop_ok [OF less.prems(1) _ _ less.prems(4) _ pass(1), of None None "[]" 0]
      chain_distinct [OF less.prems(1)] less.prems(6) by auto
  have r: "r \<noteq> []" "distinct r" "length r = length xs" "set r = set xs"
    using loop(4) less.prems(2) chain_distinct [OF less.prems(1)]
    by (auto dest: mset_eq_setD mset_eq_length) (metis mset_eq_imp_distinct_iff)
  obtain h2 where close: "set_next tail None h1 = Some h2" "chain h2 lst r" "links_only (set xs) h1 h2"
    using merged_close [OF loop(2) r(1,2)] r(4) by auto
  have links: "links_only (set xs) h h2"
    using links_only_trans [OF loop(3) close(3)] by simp
  show ?case
  proof (cases "n \<le> 1")
    case True
    then have len: "length xs \<le> k + k" using pass(5) by simp
    then have "run_of f s1 xs0 r"
      using pass(4) runs_step [of "k + k" f s1 xs0 r] runs_length [OF pass(4)] less.prems(4) r(3) by simp
    then have "r = sort_key (\<lambda>x. key s1 (f x)) xs0" "2 \<le> length xs \<longrightarrow> (\<forall>x\<in>set xs. seen s1 (f x))"
      using r(3,4) by (auto simp: run_of_def)
    then show ?thesis
      using True loop(1) close links pass(2,3) by (subst sort_loop.simps) auto
  next
    case False
    then have len: "k + k < length xs" using pass(5) by simp
    have shorter: "length r - (k + k) < length xs - k"
      using len less.prems(4) r(3) by arith
    have f: "\<forall>x\<in>set r. ok (f x) \<and> f x = info (h2 ! x)"
      using less.prems(1,6) r(4) links by (auto simp: links_only_info dest!: seg_in_bounds)
    obtain p' h' s' where IH: "sort_loop cmp (k + k) lst h2 s1 = Some (p', h', s')"
      "chain h' p' (sort_key (\<lambda>x. key s' (f x)) xs0)" "links_only (set xs) h2 h'" "inv s'" "evolves s1 s'"
      "2 \<le> length xs \<longrightarrow> (\<forall>x\<in>set xs. seen s' (f x))"
      using less.hyps [OF _ close(2) r(1) pass(4) _ pass(2) f] less.prems(4,7) shorter r(3,4) by simp blast
    have "sort_loop cmp k p h s = sort_loop cmp (k + k) lst h2 s1"
      using False loop(1) close(1) len less.prems(7) by (subst sort_loop.simps) (simp add: mult_2_right)
    then show ?thesis
      using IH links_only_trans [OF links IH(3)] evolves_trans [OF pass(3) IH(5)] by auto
  qed
qed

lemma mergesort_ok:
  assumes "chain h p xs" and "xs \<noteq> []" and "length xs \<le> 2 ^ 30" and "inv s"
    and "\<forall>x\<in>set xs. ok (info (h ! x))"
  shows "\<exists>p' h' s'. core_list_mergesort p cmp h s = Some (p', h', s')
    \<and> chain h' p' (sort_key (\<lambda>x. key s' (info (h ! x))) xs) \<and> links_only (set xs) h h' \<and> inv s' \<and> evolves s s'
    \<and> (2 \<le> length xs \<longrightarrow> (\<forall>x\<in>set xs. seen s' (info (h ! x))))"
  using sort_loop_ok [OF assms(1,2) runs_single [of "\<lambda>x. info (h ! x)" s] _ assms(4)] assms(3,5)
  by (simp add: core_list_mergesort_def)

end

lemma mergesort_None: "core_list_mergesort None cmp h s = None"
  by (simp add: core_list_mergesort_def sort_loop.simps pass_loop.simps)

text \<open>
  The empty list, which the comment in the code allows for, is not sorted: \<open>tail\<close> is \<open>NULL\<close> when
  its \<open>next\<close> is set.
\<close>

theorem core_list_mergesort_empty: "core_list_mergesort None cmp h s = None"
  by (rule mergesort_None)

end
