(* ===== verification/CoreList.thy ===== *)
theory CoreList
  imports CoreState CoreMatrix MergeSort
begin

text \<open>
  The linked list benchmark, coremark/core_list_join.c.

  The list lives in one memory block: an array of list heads followed by an array of data items. A
  pointer to a list head is its index in the first array (\<open>None\<close> is \<open>NULL\<close>), a pointer to a data item
  is its index in the second. Dereferencing \<open>NULL\<close> or an index outside the arrays is \<open>None\<close>, and so
  is a loop that never ends (over a cyclic list).

  A comparison function may write to the items and to the results structure, so it maps the pair of
  both to the difference and the new pair. A \<open>NULL\<close> results pointer is \<open>None\<close> there.
\<close>

section \<open>The data\<close>

record list_data =
  data16 :: s16
  idx :: s16

record list_mem =
  heads :: "list_head list"
  datas :: "list_data list"

text \<open>\<open>core_results\<close>, coremark.h. Of the memory blocks only the one of the state machine is read
  through the structure; the matrix block is held by \<open>res_mat\<close>.\<close>

record core_results =
  res_seed1 :: s16
  res_seed2 :: s16
  res_seed3 :: s16
  res_memblock3 :: "u8 list"
  res_size :: u32
  res_iterations :: u32
  res_execs :: u32
  res_list :: "nat option"
  res_mat :: mat_params
  res_crc :: u16
  res_crclist :: u16
  res_crcmatrix :: u16
  res_crcstate :: u16
  res_err :: s16

section \<open>Comparison functions\<close>

text \<open>\<open>calc_func\<close>: the value, the new content of the item and the results.\<close>

definition calc_func :: "s16 \<Rightarrow> core_results \<Rightarrow> (s16 \<times> s16 \<times> core_results) option" where
  "calc_func data res =
     (if signed_drop_bit 7 data AND 1 \<noteq> 0 then Some (data AND 0x7f, data, res)
      else
        let flag = data AND 0x7;
            dtype = signed_drop_bit 3 data AND 0xf;
            dtype = dtype OR push_bit 4 dtype
        in do {
          (retval, res) \<leftarrow>
            (if flag = 0 then
               let dtype = (if sint dtype < 0x22 then 0x22 else dtype) in
               do {
                 (retval, mem) \<leftarrow> core_bench_state (res_size res) (res_memblock3 res)
                                     (res_seed1 res) (res_seed2 res) dtype (res_crc res);
                 let res = res\<lparr>res_memblock3 := mem\<rparr>;
                 Some (retval, if res_crcstate res = 0 then res\<lparr>res_crcstate := retval\<rparr> else res)
               }
             else if flag = 1 then
               do {
                 (retval, mat) \<leftarrow> core_bench_matrix (res_mat res) dtype (res_crc res);
                 let res = res\<lparr>res_mat := mat\<rparr>;
                 Some (retval, if res_crcmatrix res = 0 then res\<lparr>res_crcmatrix := retval\<rparr> else res)
               }
             else Some (data, res));
          let res = res\<lparr>res_crc := crcu16 retval (res_crc res)\<rparr>;
          let retval = retval AND 0x7f;
          Some (retval, (data AND 0xff00) OR 0x80 OR retval, res)
        })"

type_synonym cmp_state = "list_data list \<times> core_results option"
type_synonym list_cmp = "nat \<Rightarrow> nat \<Rightarrow> cmp_state \<Rightarrow> (s32 \<times> cmp_state) option"

text \<open>\<open>calc_func(&(a->data16), res)\<close>.\<close>

definition calc_item :: "nat \<Rightarrow> cmp_state \<Rightarrow> (s16 \<times> cmp_state) option" where
  "calc_item a s = do {
     item \<leftarrow> aget (fst s) a;
     res \<leftarrow> snd s;
     (val, data, res) \<leftarrow> calc_func (data16 item) res;
     Some (val, (fst s)[a := item\<lparr>data16 := data\<rparr>], Some res)
   }"

definition cmp_complex :: list_cmp where
  "cmp_complex a b s = do {
     (val1, s) \<leftarrow> calc_item a s;
     (val2, s) \<leftarrow> calc_item b s;
     Some (scast val1 - scast val2, s)
   }"

definition regen :: "s16 \<Rightarrow> s16" where
  "regen x = (x AND 0xff00) OR (0x00ff AND signed_drop_bit 8 x)"

definition regen_item :: "nat \<Rightarrow> list_data list \<Rightarrow> list_data list option" where
  "regen_item a d = do {
     item \<leftarrow> aget d a;
     aset d a (item\<lparr>data16 := regen (data16 item)\<rparr>)
   }"

definition cmp_idx :: list_cmp where
  "cmp_idx a b s = do {
     d \<leftarrow> (if snd s = None then do { d \<leftarrow> regen_item a (fst s); regen_item b d } else Some (fst s));
     ia \<leftarrow> aget d a;
     ib \<leftarrow> aget d b;
     Some (scast (idx ia) - scast (idx ib), d, snd s)
   }"

definition copy_info :: "nat \<Rightarrow> list_data \<Rightarrow> list_data list \<Rightarrow> list_data list option" where
  "copy_info to from d = do {
     item \<leftarrow> aget d to;
     d \<leftarrow> aset d to (item\<lparr>data16 := data16 from\<rparr>);
     item \<leftarrow> aget d to;
     aset d to (item\<lparr>idx := idx from\<rparr>)
   }"

section \<open>Pointer operations\<close>

text \<open>The item a pointer to a list head leads to.\<close>

definition item_at :: "list_mem \<Rightarrow> nat option \<Rightarrow> list_data option" where
  "item_at m p = do {
     c \<leftarrow> deref (heads m) p;
     aget (datas m) (info c)
   }"

text \<open>The new item (or \<open>NULL\<close>), and the updated \<open>*memblock\<close>, \<open>*datablock\<close> and memory.\<close>

definition core_list_insert_new ::
  "nat option \<Rightarrow> list_data \<Rightarrow> nat \<Rightarrow> nat \<Rightarrow> nat \<Rightarrow> nat \<Rightarrow> list_mem \<Rightarrow>
   (nat option \<times> nat \<times> nat \<times> list_mem) option" where
  "core_list_insert_new insert_point itm memblock datablock memblock_end datablock_end m =
     (if memblock + 1 \<ge> memblock_end then Some (None, memblock, datablock, m)
      else if datablock + 1 \<ge> datablock_end then Some (None, memblock, datablock, m)
      else do {
        let newitem = Some memblock;
        ip \<leftarrow> deref (heads m) insert_point;
        h \<leftarrow> set_next newitem (nxt ip) (heads m);
        h \<leftarrow> set_next insert_point newitem h;
        h \<leftarrow> set_info newitem datablock h;
        d \<leftarrow> copy_info datablock itm (datas m);
        Some (newitem, memblock + 1, datablock + 1, \<lparr>heads = h, datas = d\<rparr>)
      })"

text \<open>The two loops of \<open>core_list_find\<close>: \<open>while (list && differs) list = list->next\<close>.\<close>

partial_function (option) find_loop ::
  "(list_data \<Rightarrow> bool) \<Rightarrow> list_mem \<Rightarrow> nat option \<Rightarrow> nat option option" where
  "find_loop differs m p =
     (if p = None then Some None
      else do {
        item \<leftarrow> item_at m p;
        if differs item then do { c \<leftarrow> deref (heads m) p; find_loop differs m (nxt c) } else Some p
      })"

definition core_list_find :: "nat option \<Rightarrow> list_data \<Rightarrow> list_mem \<Rightarrow> nat option option" where
  "core_list_find p itm m =
     (if sint (idx itm) \<ge> 0
      then find_loop (\<lambda>item. idx item \<noteq> idx itm) m p
      else find_loop (\<lambda>item. (scast (data16 item) AND 0xff :: s32) \<noteq> scast (data16 itm)) m p)"

section \<open>Sorting by index\<close>

text \<open>\<open>core_list_mergesort(list, cmp_idx, NULL)\<close> on a list memory.\<close>

definition sort_by_idx :: "nat option \<Rightarrow> list_mem \<Rightarrow> (nat option \<times> list_mem) option" where
  "sort_by_idx p m = do {
     (p, h, d, _) \<leftarrow> core_list_mergesort p cmp_idx (heads m) (datas m, None);
     Some (p, \<lparr>heads = h, datas = d\<rparr>)
   }"

section \<open>Initialisation\<close>

text \<open>The loop \<open>while (finder->next != NULL)\<close> that numbers the items.\<close>

definition item_index :: "u32 \<Rightarrow> s16 \<Rightarrow> u32 \<Rightarrow> s16" where
  "item_index sz seed i =
     (if i < sz div 5 then ucast i
      else let pat = ucast (i XOR scast seed) :: u16
           in ucast (0x3fff AND (push_bit 8 ((i + 1) AND 0x07) OR ucast pat)))"

partial_function (option) index_loop ::
  "u32 \<Rightarrow> s16 \<Rightarrow> nat option \<Rightarrow> u32 \<Rightarrow> list_mem \<Rightarrow> list_mem option" where
  "index_loop sz seed finder i m = do {
     c \<leftarrow> deref (heads m) finder;
     if nxt c \<noteq> None
     then do {
       item \<leftarrow> aget (datas m) (info c);
       d \<leftarrow> aset (datas m) (info c) (item\<lparr>idx := item_index sz seed i\<rparr>);
       index_loop sz seed (nxt c) (i + 1) (m\<lparr>datas := d\<rparr>)
     }
     else Some m
   }"

text \<open>The content of the item that round \<open>i\<close> of the loop inserts.\<close>

definition item_data :: "s16 \<Rightarrow> u32 \<Rightarrow> s16" where
  "item_data seed i =
     (let datpat = ucast (scast seed XOR i) AND 0xf :: u16;
          dat = push_bit 3 datpat OR ucast (i AND 0x7)
      in push_bit 8 dat OR dat)"

definition insert_items ::
  "nat option \<Rightarrow> u32 \<Rightarrow> s16 \<Rightarrow> nat \<times> nat \<times> list_mem \<Rightarrow> (nat \<times> nat \<times> list_mem) option" where
  "insert_items p sz seed s =
     for_loop (unat sz) (\<lambda>i (memblock, datablock, m). do {
       (_, memblock, datablock, m) \<leftarrow>
         core_list_insert_new p \<lparr>data16 = item_data seed (of_nat i), idx = 0x7fff\<rparr>
           memblock datablock (unat sz) (unat sz) m;
       Some (memblock, datablock, m)
     }) s"

definition list_size :: "u32 \<Rightarrow> u32" where
  "list_size blksize = (blksize div 20) - 2"

definition core_list_init :: "u32 \<Rightarrow> list_mem \<Rightarrow> s16 \<Rightarrow> (nat option \<times> list_mem) option" where
  "core_list_init blksize m seed = do {
     let sz = list_size blksize;
     h \<leftarrow> set_next (Some 0) None (heads m);
     h \<leftarrow> set_info (Some 0) 0 h;
     d \<leftarrow> copy_info 0 \<lparr>data16 = 0x8080, idx = 0\<rparr> (datas m);
     (_, memblock, datablock, m) \<leftarrow>
       core_list_insert_new (Some 0) \<lparr>data16 = 0xffff, idx = 0x7fff\<rparr> 1 1 (unat sz) (unat sz)
         \<lparr>heads = h, datas = d\<rparr>;
     (memblock, datablock, m) \<leftarrow> insert_items (Some 0) sz seed (memblock, datablock, m);
     c \<leftarrow> deref (heads m) (Some 0);
     m \<leftarrow> index_loop sz seed (nxt c) 1 m;
     sort_by_idx (Some 0) m
   }"

section \<open>The benchmark\<close>

text \<open>The loop that looks up \<open>find_num\<close> values. Its state is \<open>list\<close>, \<open>info.idx\<close>, \<open>retval\<close>,
  \<open>found\<close>, \<open>missed\<close> and the list heads.\<close>

record find_state =
  f_list :: "nat option"
  f_idx :: s16
  f_retval :: u16
  f_found :: u16
  f_missed :: u16
  f_heads :: "list_head list"

definition find_round :: "list_data list \<Rightarrow> s16 \<Rightarrow> find_state \<Rightarrow> find_state option" where
  "find_round d i st = do {
     this_find \<leftarrow> core_list_find (f_list st) \<lparr>data16 = i AND 0xff, idx = f_idx st\<rparr>
                    \<lparr>heads = f_heads st, datas = d\<rparr>;
     (lst, h) \<leftarrow> core_list_reverse (f_list st) (f_heads st);
     st \<leftarrow> (if this_find = None then do {
              c \<leftarrow> deref h lst;
              item \<leftarrow> item_at \<lparr>heads = h, datas = d\<rparr> (nxt c);
              Some (st\<lparr>f_list := lst, f_heads := h, f_missed := f_missed st + 1,
                       f_retval := f_retval st + ucast (signed_drop_bit 8 (data16 item) AND 1)\<rparr>)
            } else do {
              item \<leftarrow> item_at \<lparr>heads = h, datas = d\<rparr> this_find;
              let retval = (if data16 item AND 1 \<noteq> 0
                            then f_retval st + ucast (signed_drop_bit 9 (data16 item) AND 1)
                            else f_retval st);
              c \<leftarrow> deref h this_find;
              h \<leftarrow> (if nxt c \<noteq> None then do {
                      let finder = nxt c;
                      fc \<leftarrow> deref h finder;
                      h \<leftarrow> set_next this_find (nxt fc) h;
                      lc \<leftarrow> deref h lst;
                      h \<leftarrow> set_next finder (nxt lc) h;
                      set_next lst finder h
                    } else Some h);
              Some (st\<lparr>f_list := lst, f_heads := h, f_found := f_found st + 1, f_retval := retval\<rparr>)
            });
     Some (if sint (f_idx st) \<ge> 0 then st\<lparr>f_idx := f_idx st + 1\<rparr> else st)
   }"

text \<open>\<open>while (finder)\<close>: the item of \<open>list\<close> goes into the checksum once per remaining node.\<close>

partial_function (option) crc_loop ::
  "nat option \<Rightarrow> nat option \<Rightarrow> u16 \<Rightarrow> list_mem \<Rightarrow> u16 option" where
  "crc_loop lst finder retval m =
     (if finder = None then Some retval
      else do {
        item \<leftarrow> item_at m lst;
        c \<leftarrow> deref (heads m) finder;
        crc_loop lst (nxt c) (crc16 (data16 item) retval) m
      })"

definition core_bench_list ::
  "core_results \<Rightarrow> s16 \<Rightarrow> list_mem \<Rightarrow> (u16 \<times> core_results \<times> list_mem) option" where
  "core_bench_list res finder_idx m = do {
     let find_num = nat (sint (res_seed3 res));
     st \<leftarrow> for_loop find_num (\<lambda>i st. find_round (datas m) (of_nat i) st)
            \<lparr>f_list = res_list res, f_idx = finder_idx, f_retval = 0, f_found = 0, f_missed = 0,
             f_heads = heads m\<rparr>;
     let retval = f_retval st + (f_found st * 4 - f_missed st);
     let itm = \<lparr>data16 = (if find_num = 0 then 0 else of_nat (find_num - 1) AND 0xff), idx = f_idx st\<rparr>;
     (lst, h, d, r) \<leftarrow>
       (if sint finder_idx > 0
        then core_list_mergesort (f_list st) cmp_complex (f_heads st) (datas m, Some res)
        else Some (f_list st, f_heads st, datas m, Some res));
     res \<leftarrow> r;
     c \<leftarrow> deref h lst;
     (remover, h) \<leftarrow> core_list_remove (nxt c) h;
     finder \<leftarrow> core_list_find lst itm \<lparr>heads = h, datas = d\<rparr>;
     c \<leftarrow> deref h lst;
     let finder = (if finder = None then nxt c else finder);
     retval \<leftarrow> crc_loop lst finder retval \<lparr>heads = h, datas = d\<rparr>;
     (remover, h) \<leftarrow> core_list_undo_remove remover (nxt c) h;
     (lst, m) \<leftarrow> sort_by_idx lst \<lparr>heads = h, datas = d\<rparr>;
     c \<leftarrow> deref (heads m) lst;
     retval \<leftarrow> crc_loop lst (nxt c) retval m;
     Some (retval, res, m)
   }"

declare find_loop.simps [code] index_loop.simps [code] crc_loop.simps [code]

end
