(* ===== verification/ListSort.thy ===== *)
theory ListSort
  imports CoreList
begin

text \<open>
  The two sorts of coremark/core_list_join.c. Both comparison functions keep the contract of the
  locale \<open>comparator\<close>, so \<open>core_list_mergesort\<close> sorts stably with each of them: by \<open>idx\<close>, regenerating
  the items, or by the value that \<open>calc_func\<close> computes and caches.
\<close>

section \<open>The values that \<open>cmp_complex\<close> compares\<close>

text \<open>Bit 7 says that bits 0 to 6 hold the value.\<close>

abbreviation cached :: "s16 \<Rightarrow> bool" where
  "cached x \<equiv> bit x 7"

abbreviation high_byte :: "s16 \<Rightarrow> s16" where
  "high_byte x \<equiv> x AND 0xff00"

lemma cached_test: "signed_drop_bit 7 (x :: s16) AND 1 \<noteq> 0 \<longleftrightarrow> bit x 7"
proof -
  have "y AND 1 = of_bool (bit y 0)" for y :: s16
    by (simp add: and_one_eq mod_2_eq_odd bit_0)
  then show ?thesis by (simp add: bit_simps)
qed

lemma cache_bits:
  "bit ((data AND 0xff00) OR 0x80 OR (v AND 0x7f) :: s16) 7"
  "((data AND 0xff00) OR 0x80 OR (v AND 0x7f) :: s16) AND 0x7f = v AND 0x7f"
  "high_byte ((data AND 0xff00) OR 0x80 OR (v AND 0x7f)) = high_byte data"
    apply (simp add: bit_simps)
   apply (rule word16_eqI; simp add: bit_simps)
  apply (rule word16_eqI; simp add: bit_simps)
  done

lemma sint_and_7f: "sint (x AND 0x7f :: s16) = int (unat (x AND 0x7f))" "unat (x AND 0x7f :: s16) < 128"
proof -
  have "x AND 0x7f = take_bit 7 x" by (rule word16_eqI; simp add: bit_simps)
  then show *: "unat (x AND 0x7f) < 128"
    using take_bit_nat_less_exp [of 7 "unat x"] by (simp add: unsigned_take_bit_eq)
  then show "sint (x AND 0x7f :: s16) = int (unat (x AND 0x7f))"
    by (subst sint_uint, subst signed_take_bit_int_eq_self) (simp_all add: uint_nat del: of_nat_unat)
qed

lemma regen_regen [simp]: "regen (regen x) = regen x"
  unfolding regen_def by (rule word16_eqI; simp add: bit_simps)

lemma regen_high_byte: "high_byte x = high_byte y \<Longrightarrow> regen x = regen y"
proof -
  have eq: "regen x = high_byte x OR (0x00ff AND drop_bit 8 (high_byte x))" for x
    unfolding regen_def by (rule word16_eqI; simp add: bit_simps)
  show "high_byte x = high_byte y \<Longrightarrow> regen x = regen y"
    unfolding eq [of x] eq [of y] by (simp only:)
qed

lemma high_byte_regen: "high_byte (regen x) = high_byte x"
  unfolding regen_def by (rule word16_eqI; simp add: bit_simps)

section \<open>When the embedded benchmarks can run\<close>

text \<open>
  A state machine block that a run with equal seeds leaves as it was: two zero bytes in a row, and no
  byte that the seed turns into a comma.
\<close>

definition state_block_ok :: "u32 \<Rightarrow> s16 \<Rightarrow> u8 list \<Rightarrow> bool" where
  "state_block_ok blksize seed mem \<longleftrightarrow> unat blksize \<le> length mem
     \<and> (\<exists>z<length mem - 1. mem ! z = 0 \<and> mem ! Suc z = 0)
     \<and> (\<forall>b\<in>set mem. b = 0x2c \<or> b XOR ucast seed \<noteq> 0x2c \<or> (ucast seed :: u8) = 0)"

definition mat_ok :: "mat_params \<Rightarrow> bool" where
  "mat_ok p \<longleftrightarrow> (let n = unat (matN p) in n * n < 2 ^ 32
     \<and> length (matA p) = n * n \<and> length (matB p) = n * n \<and> length (matC p) = n * n)"

definition results_ok :: "core_results \<Rightarrow> bool" where
  "results_ok res \<longleftrightarrow> res_seed1 res = res_seed2 res
     \<and> state_block_ok (res_size res) (res_seed1 res) (res_memblock3 res) \<and> mat_ok (res_mat res)"

text \<open>
  What a run of the benchmarks may change in the results: the checksum, and the checksums of the
  embedded benchmarks as long as they are zero.
\<close>

definition res_keeps :: "core_results \<Rightarrow> core_results \<Rightarrow> bool" where
  "res_keeps r r' \<longleftrightarrow> res_seed1 r' = res_seed1 r \<and> res_seed2 r' = res_seed2 r \<and> res_seed3 r' = res_seed3 r
     \<and> res_memblock3 r' = res_memblock3 r \<and> res_size r' = res_size r \<and> res_iterations r' = res_iterations r
     \<and> res_execs r' = res_execs r \<and> res_list r' = res_list r \<and> matN (res_mat r') = matN (res_mat r)
     \<and> matA (res_mat r') = matA (res_mat r) \<and> matB (res_mat r') = matB (res_mat r)
     \<and> length (matC (res_mat r')) = length (matC (res_mat r))
     \<and> res_crclist r' = res_crclist r \<and> res_err r' = res_err r
     \<and> (res_crcmatrix r \<noteq> 0 \<longrightarrow> res_crcmatrix r' = res_crcmatrix r)
     \<and> (res_crcstate r \<noteq> 0 \<longrightarrow> res_crcstate r' = res_crcstate r)"

lemma res_keeps_refl: "res_keeps r r"
  by (simp add: res_keeps_def)

lemma res_keeps_trans: "res_keeps r r' \<Longrightarrow> res_keeps r' r'' \<Longrightarrow> res_keeps r r''"
  by (simp add: res_keeps_def)

lemma res_keeps_ok: "res_keeps r r' \<Longrightarrow> results_ok r \<Longrightarrow> results_ok r'"
  by (auto simp: res_keeps_def results_ok_def mat_ok_def Let_def)

lemma core_bench_state_block:
  assumes "state_block_ok blksize seed mem" and "2 \<le> sint step"
  shows "\<exists>crc'. core_bench_state blksize mem seed seed step crc = Some (crc', mem)"
proof -
  from assms(1) obtain z where z: "Suc z < length mem" "mem ! z = 0" "mem ! Suc z = 0"
    unfolding state_block_ok_def by (auto simp: less_diff_conv)
  have len: "unat blksize \<le> length mem" using assms(1) by (simp add: state_block_ok_def)
  obtain crc' mem' where run: "core_bench_state blksize mem seed seed step crc = Some (crc', mem')"
    using core_bench_state_returns [OF assms(2) len z] by blast
  have "mem' = mem"
    using core_bench_state_mem [OF _ len run] assms
    by (auto simp: corrupted_twice stepped_def state_block_ok_def)
  with run show ?thesis by blast
qed

lemma core_bench_matrix_keeps:
  assumes "mat_ok p"
  shows "\<exists>crc' C. core_bench_matrix p val crc = Some (crc', p\<lparr>matC := C\<rparr>) \<and> length C = length (matC p)"
proof -
  let ?n = "unat (matN p)"
  have sq: "square (matN p) ?n" and len: "length (matA p) = ?n * ?n" "length (matB p) = ?n * ?n" "length (matC p) = ?n * ?n"
    using assms by (auto simp: mat_ok_def square_def Let_def)
  obtain crc' C where "matrix_test (matN p) (matC p) (matA p) (matB p) val = Some (crc', C, matA p)" "length C = ?n * ?n"
    using matrix_test_eq [OF sq len] by (simp add: Let_def mat_prod_def)
  then show ?thesis using len
    by (intro exI [of _ "crc16 crc' crc"] exI [of _ C]) (simp add: core_bench_matrix_def)
qed

lemma dtype_min: "2 \<le> sint (if sint (d :: s16) < 0x22 then 0x22 else d)"
  by simp

lemma calc_func_ok:
  assumes "results_ok res"
  shows "\<exists>v data' res'. calc_func data res = Some (v, data', res') \<and> res_keeps res res'
    \<and> cached data' \<and> v = data' AND 0x7f \<and> high_byte data' = high_byte data \<and> (cached data \<longrightarrow> data' = data)"
proof (cases "cached data")
  case True
  then show ?thesis
    by (simp add: calc_func_def cached_test res_keeps_refl)
next
  case False
  let ?flag = "data AND 0x7"
  let ?d = "signed_drop_bit 3 data AND 0xf"
  let ?dtype = "?d OR push_bit 4 ?d"
  have seeds: "res_seed1 res = res_seed2 res" "state_block_ok (res_size res) (res_seed1 res) (res_memblock3 res)" "mat_ok (res_mat res)"
    using assms by (auto simp: results_ok_def)
  have finish: ?thesis
    if "calc_func data res = Some (v AND 0x7f, (data AND 0xff00) OR 0x80 OR (v AND 0x7f), r\<lparr>res_crc := c\<rparr>)"
      and "res_keeps res r" for v c r
    using that cache_bits [of data v] False res_keeps_trans [OF that(2), of "r\<lparr>res_crc := c\<rparr>"]
    by (auto simp: res_keeps_def)
  show ?thesis
  proof (cases "?flag = 0")
    case flag: True
    define step where "step = (if sint ?dtype < 0x22 then 0x22 else ?dtype)"
    obtain v where v: "core_bench_state (res_size res) (res_memblock3 res) (res_seed1 res) (res_seed2 res) step (res_crc res)
        = Some (v, res_memblock3 res)"
      using core_bench_state_block [OF seeds(2), of step] seeds(1) dtype_min [of ?dtype] unfolding step_def by metis
    define r where "r = (if res_crcstate res = 0 then res\<lparr>res_crcstate := v\<rparr> else res)"
    have "res_keeps res r"
      using res_keeps_refl [of res] by (auto simp: r_def res_keeps_def)
    moreover have "calc_func data res = Some (v AND 0x7f, (data AND 0xff00) OR 0x80 OR (v AND 0x7f), r\<lparr>res_crc := crcu16 v (res_crc r)\<rparr>)"
      unfolding calc_func_def cached_test Let_def if_not_P [OF False] if_P [OF flag] step_def [symmetric] v
      by (simp add: r_def)
    ultimately show ?thesis by (intro finish)
  next
    case not0: False
    show ?thesis
    proof (cases "?flag = 1")
      case flag: True
      obtain v C where v: "core_bench_matrix (res_mat res) ?dtype (res_crc res) = Some (v, (res_mat res)\<lparr>matC := C\<rparr>)"
        "length C = length (matC (res_mat res))"
        using core_bench_matrix_keeps [OF seeds(3)] by blast
      define r where "r = (if res_crcmatrix res = 0 then res\<lparr>res_mat := (res_mat res)\<lparr>matC := C\<rparr>, res_crcmatrix := v\<rparr>
        else res\<lparr>res_mat := (res_mat res)\<lparr>matC := C\<rparr>\<rparr>)"
      have "res_keeps res r"
        using v(2) unfolding r_def res_keeps_def by auto
      moreover have "calc_func data res = Some (v AND 0x7f, (data AND 0xff00) OR 0x80 OR (v AND 0x7f), r\<lparr>res_crc := crcu16 v (res_crc r)\<rparr>)"
        using False not0 flag v by (simp add: calc_func_def cached_test Let_def r_def)
      ultimately show ?thesis by (intro finish)
    next
      case not1: False
      have "calc_func data res = Some (data AND 0x7f, (data AND 0xff00) OR 0x80 OR (data AND 0x7f), res\<lparr>res_crc := crcu16 data (res_crc res)\<rparr>)"
        using False not0 not1 by (simp add: calc_func_def cached_test Let_def)
      then show ?thesis using finish [OF _ res_keeps_refl] by blast
    qed
  qed
qed

section \<open>The comparison functions keep the contract\<close>

text \<open>
  The invariants are relative to the items \<open>d0\<close> and results \<open>r0\<close> at the start of a sort, and to the
  set \<open>I\<close> of the items of the list: the other items do not change.
\<close>

definition item_ok :: "list_data list \<Rightarrow> nat set \<Rightarrow> nat \<Rightarrow> bool" where
  "item_ok d0 I a \<longleftrightarrow> a \<in> I \<and> a < length d0"

definition items_keep :: "(s16 \<Rightarrow> s16 \<Rightarrow> bool) \<Rightarrow> list_data list \<Rightarrow> nat set \<Rightarrow> list_data list \<Rightarrow> bool" where
  "items_keep R d0 I d \<longleftrightarrow> length d = length d0 \<and>
     (\<forall>a<length d0. idx (d ! a) = idx (d0 ! a) \<and> R (data16 (d0 ! a)) (data16 (d ! a)) \<and> (a \<notin> I \<longrightarrow> d ! a = d0 ! a))"

definition item_idx :: "cmp_state \<Rightarrow> nat \<Rightarrow> int" where
  "item_idx s a = sint (idx (fst s ! a))"

definition item_regen :: "cmp_state \<Rightarrow> nat \<Rightarrow> bool" where
  "item_regen s a \<longleftrightarrow> regen (data16 (fst s ! a)) = data16 (fst s ! a)"

definition idx_inv :: "list_data list \<Rightarrow> nat set \<Rightarrow> cmp_state \<Rightarrow> bool" where
  "idx_inv d0 I s \<longleftrightarrow> snd s = None \<and> items_keep (\<lambda>x y. y = x \<or> y = regen x) d0 I (fst s)"

definition item_value :: "cmp_state \<Rightarrow> nat \<Rightarrow> int" where
  "item_value s a = sint (data16 (fst s ! a) AND 0x7f)"

definition item_cached :: "cmp_state \<Rightarrow> nat \<Rightarrow> bool" where
  "item_cached s a \<longleftrightarrow> cached (data16 (fst s ! a))"

definition value_inv :: "list_data list \<Rightarrow> core_results \<Rightarrow> nat set \<Rightarrow> cmp_state \<Rightarrow> bool" where
  "value_inv d0 r0 I s \<longleftrightarrow> results_ok r0 \<and> (\<exists>r. snd s = Some r \<and> res_keeps r0 r)
     \<and> items_keep (\<lambda>x y. high_byte y = high_byte x) d0 I (fst s)"

lemma sint_diff_le_0: "sint (scast (x :: s16) - scast (y :: s16) :: s32) \<le> 0 \<longleftrightarrow> sint x \<le> sint y"
proof -
  have b: "- (2 ^ 15) \<le> sint x" "sint x < 2 ^ 15" "- (2 ^ 15) \<le> sint y" "sint y < 2 ^ 15"
    using sint_greater_eq [of x] sint_less [of x] sint_greater_eq [of y] sint_less [of y] by simp_all
  have "(scast x - scast y :: s32) = word_of_int (sint x - sint y)"
    unfolding scast_eq by (rule of_int_diff [symmetric])
  then have "sint (scast x - scast y :: s32) = signed_take_bit 31 (sint x - sint y)"
    by (simp only: sint_sbintrunc') simp
  also have "\<dots> = sint x - sint y"
  proof (rule signed_take_bit_int_eq_self)
    have "- (2 ^ 31) \<le> - (2 ^ 15) - (2 ^ 15 :: int)" "(2 ^ 15 :: int) + 2 ^ 15 \<le> 2 ^ 31" by simp_all
    with b show "- (2 ^ 31) \<le> sint x - sint y" "sint x - sint y < 2 ^ 31" by linarith+
  qed
  finally show ?thesis by linarith
qed

lemma regen_item_eq:
  "a < length d \<Longrightarrow> regen_item a d = Some (d[a := (d ! a)\<lparr>data16 := regen (data16 (d ! a))\<rparr>])"
  by (simp add: regen_item_def)

lemma idx_inv_regen:
  assumes "idx_inv d0 I (d, None)" and "item_ok d0 I a"
  shows "idx_inv d0 I (d[a := (d ! a)\<lparr>data16 := regen (data16 (d ! a))\<rparr>], None)"
  using assms by (auto simp: idx_inv_def items_keep_def item_ok_def nth_list_update)

lemma cmp_idx_regen:
  assumes "idx_inv d0 I s" and "item_ok d0 I a" and "item_ok d0 I b"
  shows "\<exists>r s'. cmp_idx a b s = Some (r, s') \<and> idx_inv d0 I s' \<and> item_regen s' a \<and> item_regen s' b
    \<and> (sint r \<le> 0 \<longleftrightarrow> item_idx s' a \<le> item_idx s' b)
    \<and> (\<forall>c. item_idx s' c = item_idx s c \<and> (item_regen s c \<longrightarrow> item_regen s' c))"
proof -
  obtain d where s: "s = (d, None)" using assms(1) by (cases s) (auto simp: idx_inv_def)
  let ?d1 = "d[a := (d ! a)\<lparr>data16 := regen (data16 (d ! a))\<rparr>]"
  let ?d2 = "?d1[b := (?d1 ! b)\<lparr>data16 := regen (data16 (?d1 ! b))\<rparr>]"
  have len: "a < length d" "b < length d" using assms s by (auto simp: idx_inv_def items_keep_def item_ok_def)
  have inv: "idx_inv d0 I (?d2, None)"
    using idx_inv_regen [OF idx_inv_regen [OF assms(1) [unfolded s] assms(2)] assms(3)] .
  have at: "?d2 ! c = (d ! c)\<lparr>data16 := (if c = a \<or> c = b then regen (data16 (d ! c)) else data16 (d ! c))\<rparr>"
    if "c < length d" for c
    using len that by (auto simp: nth_list_update)
  have out: "?d2 ! c = d ! c" if "\<not> c < length d" for c
    using len that by auto
  have cmp: "cmp_idx a b s = Some (scast (idx (?d2 ! a)) - scast (idx (?d2 ! b)), ?d2, None)"
    using len by (simp add: cmp_idx_def s regen_item_eq)
  moreover have "item_idx (?d2, None) c = item_idx s c" for c
    using at [of c] out [of c] by (cases "c < length d") (auto simp: item_idx_def s)
  moreover have "item_regen s c \<longrightarrow> item_regen (?d2, None) c" for c
    using at [of c] out [of c] by (cases "c < length d") (auto simp: item_regen_def s)
  moreover have "item_regen (?d2, None) a" "item_regen (?d2, None) b"
    using at len by (auto simp: item_regen_def)
  ultimately show ?thesis
    using inv
    by (intro exI [of _ "scast (idx (?d2 ! a)) - scast (idx (?d2 ! b))"] exI [of _ "(?d2, None)"])
      (simp add: sint_diff_le_0 item_idx_def del: nth_list_update_eq)
qed

interpretation by_idx: comparator cmp_idx "idx_inv d0 I" "item_ok d0 I" item_regen item_idx
  for d0 I
proof
  show "\<exists>r s'. cmp_idx a b s = Some (r, s')" if "idx_inv d0 I s" "item_ok d0 I a" "item_ok d0 I b" for s a b
    using cmp_idx_regen [OF that] by blast
  show "idx_inv d0 I s' \<and> item_regen s' a \<and> item_regen s' b \<and> (sint r \<le> 0 \<longleftrightarrow> item_idx s' a \<le> item_idx s' b)"
    if "idx_inv d0 I s" "item_ok d0 I a" "item_ok d0 I b" "cmp_idx a b s = Some (r, s')" for s a b r s'
    using cmp_idx_regen [OF that(1-3)] that(4) by auto
  show "item_regen s' c \<and> item_idx s' c = item_idx s c"
    if "idx_inv d0 I s" "item_ok d0 I a" "item_ok d0 I b" "cmp_idx a b s = Some (r, s')" "item_regen s c" for s a b r s' c
    using cmp_idx_regen [OF that(1-3)] that(4,5) by auto
qed

lemma calc_item_ok:
  assumes "value_inv d0 r0 I s" and "item_ok d0 I a"
  shows "\<exists>v s'. calc_item a s = Some (v, s') \<and> value_inv d0 r0 I s' \<and> item_cached s' a \<and> sint v = item_value s' a
    \<and> (\<forall>c. c \<noteq> a \<or> item_cached s a \<longrightarrow> fst s' ! c = fst s ! c)"
proof -
  obtain d r where s: "s = (d, Some r)" "res_keeps r0 r" "results_ok r0" "items_keep (\<lambda>x y. high_byte y = high_byte x) d0 I d"
    using assms(1) by (cases s) (auto simp: value_inv_def)
  have a: "a < length d" using assms(2) s(4) by (simp add: item_ok_def items_keep_def)
  obtain v data' r' where c: "calc_func (data16 (d ! a)) r = Some (v, data', r')" "res_keeps r r'" "cached data'"
    "v = data' AND 0x7f" "high_byte data' = high_byte (data16 (d ! a))" "cached (data16 (d ! a)) \<longrightarrow> data' = data16 (d ! a)"
    using calc_func_ok [OF res_keeps_ok [OF s(2,3)]] by blast
  let ?d = "d[a := (d ! a)\<lparr>data16 := data'\<rparr>]"
  have "calc_item a s = Some (v, ?d, Some r')"
    using a c(1) by (simp add: calc_item_def s(1))
  moreover have "value_inv d0 r0 I (?d, Some r')"
    using s a c(2,5) res_keeps_trans [OF s(2) c(2)] assms(2)
    by (auto simp: value_inv_def items_keep_def item_ok_def nth_list_update)
  moreover have "d[a := (d ! a)\<lparr>data16 := data'\<rparr>] = d" if "cached (data16 (d ! a))"
    using c(6) that by simp
  ultimately show ?thesis
    using a c(3,4) by (intro exI [of _ v] exI [of _ "(?d, Some r')"]) (auto simp: item_cached_def item_value_def s(1))
qed

lemma cmp_complex_cached:
  assumes "value_inv d0 r0 I s" and "item_ok d0 I a" and "item_ok d0 I b"
  shows "\<exists>r s'. cmp_complex a b s = Some (r, s') \<and> value_inv d0 r0 I s' \<and> item_cached s' a \<and> item_cached s' b
    \<and> (sint r \<le> 0 \<longleftrightarrow> item_value s' a \<le> item_value s' b)
    \<and> (\<forall>c. item_cached s c \<longrightarrow> item_cached s' c \<and> item_value s' c = item_value s c)"
proof -
  obtain v1 s1 where 1: "calc_item a s = Some (v1, s1)" "value_inv d0 r0 I s1" "item_cached s1 a" "sint v1 = item_value s1 a"
    "\<forall>c. c \<noteq> a \<or> item_cached s a \<longrightarrow> fst s1 ! c = fst s ! c"
    using calc_item_ok [OF assms(1,2)] by blast
  obtain v2 s2 where 2: "calc_item b s1 = Some (v2, s2)" "value_inv d0 r0 I s2" "item_cached s2 b" "sint v2 = item_value s2 b"
    "\<forall>c. c \<noteq> b \<or> item_cached s1 b \<longrightarrow> fst s2 ! c = fst s1 ! c"
    using calc_item_ok [OF 1(2) assms(3)] by blast
  have keep: "fst s1 ! c = fst s ! c" if "item_cached s c" for c using 1(5) that by metis
  then have "item_cached s1 c" if "item_cached s c" for c using that by (simp add: item_cached_def)
  then have keep2: "fst s2 ! c = fst s1 ! c" if "item_cached s1 c" for c using 2(5) that by metis
  have "cmp_complex a b s = Some (scast v1 - scast v2, s2)"
    using 1(1) 2(1) by (simp add: cmp_complex_def)
  moreover have "item_value s2 a = item_value s1 a" "item_cached s2 a"
    using keep2 [OF 1(3)] 1(3) by (simp_all add: item_value_def item_cached_def)
  moreover have "\<forall>c. item_cached s c \<longrightarrow> item_cached s2 c \<and> item_value s2 c = item_value s c"
    using keep keep2 by (metis item_cached_def item_value_def)
  ultimately show ?thesis
    using 1(4) 2(2-4) by (intro exI [of _ "scast v1 - scast v2"] exI [of _ s2]) (simp add: sint_diff_le_0)
qed

interpretation by_value: comparator cmp_complex "value_inv d0 r0 I" "item_ok d0 I" item_cached item_value
  for d0 r0 I
proof
  show "\<exists>r s'. cmp_complex a b s = Some (r, s')"
    if "value_inv d0 r0 I s" "item_ok d0 I a" "item_ok d0 I b" for s a b
    using cmp_complex_cached [OF that] by blast
  show "value_inv d0 r0 I s' \<and> item_cached s' a \<and> item_cached s' b \<and> (sint r \<le> 0 \<longleftrightarrow> item_value s' a \<le> item_value s' b)"
    if "value_inv d0 r0 I s" "item_ok d0 I a" "item_ok d0 I b" "cmp_complex a b s = Some (r, s')" for s a b r s'
    using cmp_complex_cached [OF that(1-3)] that(4) by auto
  show "item_cached s' c \<and> item_value s' c = item_value s c"
    if "value_inv d0 r0 I s" "item_ok d0 I a" "item_ok d0 I b" "cmp_complex a b s = Some (r, s')" "item_cached s c" for s a b r s' c
    using cmp_complex_cached [OF that(1-3)] that(4,5) by auto
qed

section \<open>Lists with their items\<close>

definition item_of :: "list_mem \<Rightarrow> nat \<Rightarrow> list_data" where
  "item_of m x = datas m ! info (heads m ! x)"

definition wf_list :: "list_mem \<Rightarrow> nat option \<Rightarrow> nat list \<Rightarrow> bool" where
  "wf_list m p xs \<longleftrightarrow> chain (heads m) p xs \<and> (\<forall>x\<in>set xs. info (heads m ! x) < length (datas m))"

lemma item_at_ok: "x < length (heads m) \<Longrightarrow> info (heads m ! x) < length (datas m) \<Longrightarrow> item_at m (Some x) = Some (item_of m x)"
  by (simp add: item_at_def item_of_def)

lemma find_loop_ok:
  "wf_list m p xs \<Longrightarrow> find_loop differs m p = Some (List.find (\<lambda>x. \<not> differs (item_of m x)) xs)"
proof (induction xs arbitrary: p)
  case (Cons x xs)
  then have "p = Some x" "x < length (heads m)" "info (heads m ! x) < length (datas m)" "wf_list m (nxt (heads m ! x)) xs"
    by (auto simp: wf_list_def)
  with Cons.IH [OF this(4)] show ?case
    by (subst find_loop.simps) (simp add: item_at_ok)
qed (simp add: wf_list_def find_loop.simps)

text \<open>The predicate that \<open>core_list_find\<close> searches for.\<close>

definition matches :: "list_data \<Rightarrow> list_data \<Rightarrow> bool" where
  "matches itm item \<longleftrightarrow>
     (if sint (idx itm) \<ge> 0 then idx item = idx itm
      else (scast (data16 item) AND 0xff :: s32) = scast (data16 itm))"

lemma core_list_find_eq:
  "wf_list m p xs \<Longrightarrow> core_list_find p itm m = Some (List.find (\<lambda>x. matches itm (item_of m x)) xs)"
  by (simp add: core_list_find_def find_loop_ok matches_def [abs_def])

section \<open>The two sorts\<close>

lemma sort_by_idx_ok:
  assumes "wf_list m p xs" and "xs \<noteq> []" and "length xs \<le> 2 ^ 30"
  shows "\<exists>p' m'. sort_by_idx p m = Some (p', m')
    \<and> chain (heads m') p' (sort_key (\<lambda>x. sint (idx (item_of m x))) xs)
    \<and> links_only (set xs) (heads m) (heads m')
    \<and> items_keep (\<lambda>x y. y = x \<or> y = regen x) (datas m) ((\<lambda>x. info (heads m ! x)) ` set xs) (datas m')
    \<and> (2 \<le> length xs \<longrightarrow> (\<forall>x\<in>set xs. data16 (item_of m' x) = regen (data16 (item_of m x))))"
proof -
  let ?f = "\<lambda>x. info (heads m ! x)"
  let ?I = "?f ` set xs"
  have chain: "chain (heads m) p xs" and bound: "\<forall>x\<in>set xs. ?f x < length (datas m)"
    using assms(1) by (auto simp: wf_list_def)
  have "idx_inv (datas m) ?I (datas m, None)" by (simp add: idx_inv_def items_keep_def)
  moreover have ok: "\<forall>x\<in>set xs. item_ok (datas m) ?I (?f x)" using bound by (simp add: item_ok_def)
  ultimately obtain p' h' s' where s': "core_list_mergesort p cmp_idx (heads m) (datas m, None) = Some (p', h', s')"
    "chain h' p' (sort_key (\<lambda>x. item_idx s' (?f x)) xs)" "links_only (set xs) (heads m) h'" "idx_inv (datas m) ?I s'"
    "2 \<le> length xs \<longrightarrow> (\<forall>x\<in>set xs. item_regen s' (?f x))"
    using by_idx.mergesort_ok [OF chain assms(2,3)] by blast
  obtain d' where d': "s' = (d', None)" using s'(4) by (cases s') (auto simp: idx_inv_def)
  have keep: "items_keep (\<lambda>x y. y = x \<or> y = regen x) (datas m) ?I d'"
    using s'(4) d' by (simp add: idx_inv_def)
  have "sort_key (\<lambda>x. item_idx s' (?f x)) xs = sort_key (\<lambda>x. sint (idx (item_of m x))) xs"
    using keep bound by (intro sort_key_keys_cong) (simp add: item_idx_def item_of_def d' items_keep_def)
  moreover have "data16 (item_of \<lparr>heads = h', datas = d'\<rparr> x) = regen (data16 (item_of m x))"
    if "2 \<le> length xs" and x: "x \<in> set xs" for x
  proof -
    have "info (h' ! x) = ?f x" using s'(3) chain x by (auto dest: links_only_info seg_in_bounds)
    moreover have "regen (data16 (d' ! ?f x)) = data16 (d' ! ?f x)"
      using s'(5) that d' by (simp add: item_regen_def)
    moreover have "data16 (d' ! ?f x) = data16 (datas m ! ?f x) \<or> data16 (d' ! ?f x) = regen (data16 (datas m ! ?f x))"
      using keep bound x by (auto simp: items_keep_def)
    ultimately show ?thesis by (auto simp: item_of_def)
  qed
  ultimately show ?thesis
    using s' d' keep by (intro exI [of _ p'] exI [of _ "\<lparr>heads = h', datas = d'\<rparr>"]) (simp add: sort_by_idx_def)
qed

text \<open>The item that \<open>calc_func\<close> leaves behind holds its value in bits 0 to 6.\<close>

definition value_of :: "list_data \<Rightarrow> int" where
  "value_of item = sint (data16 item AND 0x7f)"

lemma sort_by_value_ok:
  assumes "chain h p xs" and "\<forall>x\<in>set xs. info (h ! x) < length d" and "xs \<noteq> []" and "length xs \<le> 2 ^ 30"
    and "results_ok res"
  shows "\<exists>p' h' d' res'. core_list_mergesort p cmp_complex h (d, Some res) = Some (p', h', d', Some res')
    \<and> chain h' p' (sort_key (\<lambda>x. value_of (d' ! info (h ! x))) xs)
    \<and> links_only (set xs) h h' \<and> res_keeps res res'
    \<and> items_keep (\<lambda>x y. high_byte y = high_byte x) d ((\<lambda>x. info (h ! x)) ` set xs) d'
    \<and> (2 \<le> length xs \<longrightarrow> (\<forall>x\<in>set xs. cached (data16 (d' ! info (h ! x)))))"
proof -
  let ?I = "(\<lambda>x. info (h ! x)) ` set xs"
  have "value_inv d res ?I (d, Some res)"
    using assms(5) by (simp add: value_inv_def items_keep_def res_keeps_refl)
  moreover have "\<forall>x\<in>set xs. item_ok d ?I (info (h ! x))" using assms(2) by (simp add: item_ok_def)
  ultimately obtain p' h' s' where s': "core_list_mergesort p cmp_complex h (d, Some res) = Some (p', h', s')"
    "chain h' p' (sort_key (\<lambda>x. item_value s' (info (h ! x))) xs)" "links_only (set xs) h h'" "value_inv d res ?I s'"
    "2 \<le> length xs \<longrightarrow> (\<forall>x\<in>set xs. item_cached s' (info (h ! x)))"
    using by_value.mergesort_ok [OF assms(1,3,4)] by blast
  obtain d' r where "s' = (d', Some r)" using s'(4) by (cases s') (auto simp: value_inv_def)
  then show ?thesis
    using s' by (intro exI [of _ p'] exI [of _ h'] exI [of _ d'] exI [of _ r])
      (simp add: value_inv_def item_value_def item_cached_def value_of_def)
qed

section \<open>Properties\<close>

text \<open>
  C11: sorting by index returns (the sort terminates and dereferences no bad pointer), its result is
  the stable sort of the nodes by the \<open>idx\<close> of their items, only the links of these nodes change, no
  other item changes, and every item of a list of two or more has its low byte regenerated.
\<close>

theorem sort_by_idx_sorts:
  assumes "chain (heads m) p xs" and "\<forall>x\<in>set xs. info (heads m ! x) < length (datas m)"
    and "xs \<noteq> []" and "length xs \<le> 2 ^ 30"
  shows "\<exists>p' m'. sort_by_idx p m = Some (p', m')
    \<and> chain (heads m') p' (sort_key (\<lambda>x. sint (idx (item_of m x))) xs)
    \<and> links_only (set xs) (heads m) (heads m')
    \<and> items_keep (\<lambda>x y. y = x \<or> y = regen x) (datas m) ((\<lambda>x. info (heads m ! x)) ` set xs) (datas m')
    \<and> (2 \<le> length xs \<longrightarrow> (\<forall>x\<in>set xs. data16 (item_of m' x) = regen (data16 (item_of m x))))"
  using sort_by_idx_ok [of m p xs] assms by (simp add: wf_list_def)

theorem sort_by_idx_sorts_witness:
  "\<exists>p' m'. sort_by_idx (Some 0)
      \<lparr>heads = [\<lparr>nxt = Some 1, info = 0\<rparr>, \<lparr>nxt = Some 2, info = 1\<rparr>, \<lparr>nxt = None, info = 2\<rparr>],
       datas = [\<lparr>data16 = 0x1234, idx = 5\<rparr>, \<lparr>data16 = 0, idx = -3\<rparr>, \<lparr>data16 = 0, idx = 5\<rparr>]\<rparr> = Some (p', m')
    \<and> chain (heads m') p' [1, 0, 2] \<and> data16 (item_of m' 0) = regen 0x1234"
  using sort_by_idx_sorts [of "\<lparr>heads = [\<lparr>nxt = Some 1, info = 0\<rparr>, \<lparr>nxt = Some 2, info = 1\<rparr>, \<lparr>nxt = None, info = 2\<rparr>],
       datas = [\<lparr>data16 = 0x1234, idx = 5\<rparr>, \<lparr>data16 = 0, idx = -3\<rparr>, \<lparr>data16 = 0, idx = 5\<rparr>]\<rparr>" "Some 0" "[0, 1, 2]"]
  by (auto simp: item_of_def nth_Cons')

text \<open>
  C3: sorting by value returns, with the embedded state machine and matrix benchmarks run inside the
  comparisons. The nodes are in the stable order of the values that the items hold at the end, all of
  them cached; the benchmark memory is as it was, and the items keep their index and high byte.
\<close>

theorem sort_by_value_sorts:
  assumes "chain h p xs" and "\<forall>x\<in>set xs. info (h ! x) < length d" and "xs \<noteq> []" and "length xs \<le> 2 ^ 30"
    and "results_ok res"
  shows "\<exists>p' h' d' res'. core_list_mergesort p cmp_complex h (d, Some res) = Some (p', h', d', Some res')
    \<and> chain h' p' (sort_key (\<lambda>x. value_of (d' ! info (h ! x))) xs)
    \<and> links_only (set xs) h h' \<and> res_keeps res res'
    \<and> items_keep (\<lambda>x y. high_byte y = high_byte x) d ((\<lambda>x. info (h ! x)) ` set xs) d'
    \<and> (2 \<le> length xs \<longrightarrow> (\<forall>x\<in>set xs. cached (data16 (d' ! info (h ! x)))))"
  by (rule sort_by_value_ok [OF assms])

definition small_results :: core_results where
  "small_results = \<lparr>res_seed1 = 0, res_seed2 = 0, res_seed3 = 2, res_memblock3 = [0, 0], res_size = 2,
     res_iterations = 1, res_execs = 7, res_list = Some 0,
     res_mat = \<lparr>matN = 1, matA = [3], matB = [4], matC = [0]\<rparr>,
     res_crc = 0, res_crclist = 0, res_crcmatrix = 0, res_crcstate = 0, res_err = 0\<rparr>"

lemma small_results_ok: "results_ok small_results"
  by (auto simp: results_ok_def small_results_def state_block_ok_def mat_ok_def)

theorem sort_by_value_sorts_witness:
  "\<exists>p' h' d' res'. core_list_mergesort (Some 0) cmp_complex
      [\<lparr>nxt = Some 1, info = 0\<rparr>, \<lparr>nxt = None, info = 1\<rparr>]
      ([\<lparr>data16 = 0, idx = 5\<rparr>, \<lparr>data16 = 1, idx = 6\<rparr>], Some small_results) = Some (p', h', d', Some res')
    \<and> cached (data16 (d' ! 0)) \<and> cached (data16 (d' ! 1))"
  using sort_by_value_sorts [of "[\<lparr>nxt = Some 1, info = 0\<rparr>, \<lparr>nxt = None, info = 1\<rparr>]" "Some 0" "[0, 1]"
      "[\<lparr>data16 = 0, idx = 5\<rparr>, \<lparr>data16 = 1, idx = 6\<rparr>]" small_results] small_results_ok
  by auto

end
