(* ===== verification/ListBench.thy ===== *)
theory ListBench
  imports ListSort
begin

text \<open>
  A run of \<open>core_bench_list\<close>: what each lookup does to the order of the nodes, the checksum loop, and
  that a run puts the list back.
\<close>

section \<open>One lookup of the benchmark\<close>

text \<open>
  The order of the nodes after a lookup that found \<open>x\<close>: the node after \<open>x\<close> moves behind the head.
\<close>

definition cache_next :: "nat option \<Rightarrow> nat list \<Rightarrow> nat list" where
  "cache_next found xs =
     (case found of None \<Rightarrow> xs
      | Some x \<Rightarrow>
        (case (takeWhile (\<lambda>y. y \<noteq> x) xs, dropWhile (\<lambda>y. y \<noteq> x) xs) of
           (u # us, _ # y # vs) \<Rightarrow> u # y # us @ x # vs
         | _ \<Rightarrow> xs))"

lemma cache_next_not_found [simp]: "cache_next None xs = xs"
  by (simp add: cache_next_def)

lemma cache_next_split:
  assumes "x \<notin> set us"
  shows "cache_next (Some x) (us @ x # vs) =
    (case (us, vs) of (u # us, y # vs) \<Rightarrow> u # y # us @ x # vs | _ \<Rightarrow> us @ x # vs)"
proof -
  have t: "takeWhile (\<lambda>y. y \<noteq> x) (us @ x # vs) = us" "dropWhile (\<lambda>y. y \<noteq> x) (us @ x # vs) = x # vs"
    using assms by (auto simp: takeWhile_append dropWhile_append)
  show ?thesis unfolding cache_next_def option.case t by (simp split: list.split)
qed

lemma cache_next_mset: "\<forall>x. found = Some x \<longrightarrow> x \<in> set xs \<Longrightarrow> mset (cache_next found xs) = mset xs"
proof (cases found)
  case (Some x)
  assume "\<forall>x. found = Some x \<longrightarrow> x \<in> set xs"
  then have "x \<in> set xs" using Some by simp
  then obtain us vs where "xs = us @ x # vs" "x \<notin> set us"
    using split_list_first [of x xs] by blast
  then show ?thesis using Some by (auto simp: cache_next_split split: list.split)
qed simp

lemma move_next_ok:
  assumes "chain h (Some l) (us @ x # y # vs)" and "us = [] \<or> hd us = l"
  defines "h1 \<equiv> h[x := (h ! x)\<lparr>nxt := nxt (h ! y)\<rparr>]"
  defines "h2 \<equiv> h1[y := (h1 ! y)\<lparr>nxt := nxt (h1 ! l)\<rparr>]"
  defines "h3 \<equiv> h2[l := (h2 ! l)\<lparr>nxt := Some y\<rparr>]"
  shows "chain h3 (Some l) (if us = [] then x # y # vs else hd us # y # tl us @ x # vs)
    \<and> links_only {x, y, l} h h3"
proof -
  have d: "distinct (us @ x # y # vs)" by (rule chain_distinct [OF assms(1)])
  have b: "l < length h" "x < length h" "y < length h"
    using assms(1) by (auto simp: seg_append dest: seg_in_bounds) (metis append_Nil list.exhaust option.inject seg.simps)+
  have tail: "chain h (nxt (h ! y)) vs" "nxt (h ! x) = Some y" using assms(1) by (auto simp: seg_append)
  have links: "links_only {x, y, l} h h3"
    using b by (auto simp: h3_def h2_def h1_def links_only_def nth_list_update)
  show ?thesis
  proof (cases us)
    case Nil
    then have "l = x" using assms(1) by simp
    then show ?thesis using Nil d b tail links
      by (auto simp: h3_def h2_def h1_def nth_list_update)
  next
    case (Cons u us1)
    then have u: "u = l" using assms(2) by simp
    then have first: "seg h (nxt (h ! l)) us1 (Some x)"
      using assms(1) Cons by (auto simp: seg_append)
    have "seg h3 (nxt (h ! l)) us1 (Some x)" "chain h3 (nxt (h ! y)) vs"
      using first tail d Cons u by (auto simp: h3_def h2_def h1_def)
    moreover have "nxt (h3 ! l) = Some y" "nxt (h3 ! y) = nxt (h ! l)" "nxt (h3 ! x) = nxt (h ! y)" "length h3 = length h"
      using d Cons u b by (auto simp: h3_def h2_def h1_def nth_list_update)
    ultimately show ?thesis
      using Cons u b links by (auto simp: seg_append)
  qed
qed

lemma find_in_set: "List.find P xs = Some x \<Longrightarrow> x \<in> set xs"
  by (auto simp: find_Some_iff)

lemma find_round_ok:
  fixes i :: s16
  assumes "wf_list \<lparr>heads = f_heads st, datas = d\<rparr> (f_list st) xs" and "2 \<le> length xs"
  defines "found \<equiv> List.find (\<lambda>x. matches \<lparr>data16 = i AND 0xff, idx = f_idx st\<rparr> (d ! info (f_heads st ! x))) xs"
  shows "\<exists>st'. find_round d i st = Some st' \<and> chain (f_heads st') (f_list st') (cache_next found (rev xs))
    \<and> links_only (set xs) (f_heads st) (f_heads st')"
proof -
  let ?m = "\<lparr>heads = f_heads st, datas = d\<rparr>"
  have bound: "x < length (f_heads st)" "info (f_heads st ! x) < length d" if "x \<in> set xs" for x
    using assms(1) that by (auto simp: wf_list_def dest: seg_in_bounds)
  have find: "core_list_find (f_list st) \<lparr>data16 = i AND 0xff, idx = f_idx st\<rparr> ?m = Some found"
    using core_list_find_eq [OF assms(1)] by (simp add: found_def item_of_def)
  obtain lst h where rev: "core_list_reverse (f_list st) (f_heads st) = Some (lst, h)" "chain h lst (rev xs)"
    "links_only (set xs) (f_heads st) h"
    using core_list_reverse_ok [of "f_heads st" "f_list st" xs] assms(1) by (auto simp: wf_list_def)
  have at: "x < length h" "info (h ! x) < length d" if "x \<in> set xs" for x
    using bound [OF that] rev(3) by (auto simp: links_only_def)
  have item: "item_at \<lparr>heads = h, datas = d\<rparr> (Some x) = Some (d ! info (h ! x))" if "x \<in> set xs" for x
    using at [OF that] item_at_ok [of x "\<lparr>heads = h, datas = d\<rparr>"] by (simp add: item_of_def)
  obtain a b ws where ab: "rev xs = a # b # ws"
    using assms(2) by (metis Suc_le_length_iff length_rev numeral_2_eq_2)
  then have lst: "lst = Some a" "a < length h" "nxt (h ! a) = Some b" using rev(2) by auto
  have mem: "a \<in> set xs" "b \<in> set xs" using arg_cong [OF ab, of set] by auto
  show ?thesis
  proof (cases found)
    case None
    have "\<exists>st1. find_round d i st = Some st1 \<and> f_heads st1 = h \<and> f_list st1 = lst"
      using find rev(1) None lst item [OF mem(2)] unfolding find_round_def by simp
    then show ?thesis using None rev by auto
  next
    case (Some x)
    then have x: "x \<in> set xs" by (auto simp: found_def find_Some_iff)
    then obtain us vs where us: "rev xs = us @ x # vs" "x \<notin> set us"
      using split_list_first [of x "rev xs"] by auto
    show ?thesis
    proof (cases vs)
      case Nil
      then have "nxt (h ! x) = None" using rev(2) us by (auto simp: seg_append)
      then have "\<exists>st1. find_round d i st = Some st1 \<and> f_heads st1 = h \<and> f_list st1 = lst"
        using find rev(1) Some item [OF x] at [OF x] unfolding find_round_def by simp
      moreover have "cache_next found (rev xs) = rev xs"
        using Some Nil us(2) by (simp add: us(1) cache_next_split split: list.split)
      ultimately show ?thesis using rev by auto
    next
      case (Cons y zs)
      define h1 where "h1 = h[x := (h ! x)\<lparr>nxt := nxt (h ! y)\<rparr>]"
      define h2 where "h2 = h1[y := (h1 ! y)\<lparr>nxt := nxt (h1 ! a)\<rparr>]"
      define h3 where "h3 = h2[a := (h2 ! a)\<lparr>nxt := Some y\<rparr>]"
      have "y \<in> set (rev xs)" unfolding us(1) Cons by simp
      then have y_in: "y \<in> set xs" by (simp only: set_rev)
      then have y: "nxt (h ! x) = Some y" "y < length h" "y \<in> set xs"
        using rev(2) us Cons by (auto simp: seg_append intro: y_in)
      have "us = [] \<or> hd us = a" using ab us(1) by (cases us) auto
      then have move: "chain h3 (Some a) (if us = [] then x # y # zs else hd us # y # tl us @ x # zs)"
        "links_only {x, y, a} h h3"
        using move_next_ok [of h a us x y zs] rev(2) us(1) Cons lst(1) unfolding h1_def h2_def h3_def by auto
      have "\<exists>st1. find_round d i st = Some st1 \<and> f_heads st1 = h3 \<and> f_list st1 = lst"
        using find rev(1) Some item [OF x] at [OF x] y lst unfolding find_round_def
        by (simp add: h3_def h2_def h1_def)
      moreover have "cache_next found (rev xs) = (if us = [] then x # y # zs else hd us # y # tl us @ x # zs)"
        unfolding Some us(1) cache_next_split [OF us(2)] Cons by (cases us) auto
      moreover have "links_only (set xs) h h3"
        using move(2) x y(3) mem by (auto elim!: links_only_mono)
      ultimately show ?thesis
        using move(1) lst(1) links_only_trans [OF rev(3), of "set xs" h3] by auto
    qed
  qed
qed

lemma find_rounds_ok:
  assumes "wf_list \<lparr>heads = f_heads st, datas = d\<rparr> (f_list st) xs" and "2 \<le> length xs"
  shows "\<exists>st' ys. for_loop n (\<lambda>i st. find_round d (of_nat i) st) st = Some st'
    \<and> chain (f_heads st') (f_list st') ys \<and> mset ys = mset xs \<and> links_only (set xs) (f_heads st) (f_heads st')"
proof -
  let ?I = "\<lambda>i st1. \<exists>ys. chain (f_heads st1) (f_list st1) ys \<and> mset ys = mset xs
    \<and> links_only (set xs) (f_heads st) (f_heads st1)"
  have "\<exists>st'. for_loop n (\<lambda>i st. find_round d (of_nat i) st) st = Some st' \<and> ?I n st'"
  proof (rule for_loop_rule [where I = ?I])
    show "?I 0 st" using assms(1) by (auto simp: wf_list_def)
    show "\<exists>st2. find_round d (of_nat i) st1 = Some st2 \<and> ?I (Suc i) st2" if "?I i st1" for i st1
    proof -
      from that obtain ys where ys: "chain (f_heads st1) (f_list st1) ys" "mset ys = mset xs"
        "links_only (set xs) (f_heads st) (f_heads st1)" by blast
      have set: "set ys = set xs" and len: "length ys = length xs"
        using ys(2) by (auto dest: mset_eq_setD mset_eq_length)
      have "wf_list \<lparr>heads = f_heads st1, datas = d\<rparr> (f_list st1) ys"
        using ys assms(1) set by (auto simp: wf_list_def links_only_def dest!: seg_in_bounds)
      then obtain found where "\<exists>st2. find_round d (of_nat i) st1 = Some st2
          \<and> chain (f_heads st2) (f_list st2) (cache_next found (rev ys)) \<and> links_only (set ys) (f_heads st1) (f_heads st2)"
          "found = List.find (\<lambda>x. matches \<lparr>data16 = of_nat i AND 0xff, idx = f_idx st1\<rparr> (d ! info (f_heads st1 ! x))) ys"
        using find_round_ok [of st1 d ys "of_nat i"] assms(2) len by auto
      then obtain st2 where st2: "find_round d (of_nat i) st1 = Some st2"
        "chain (f_heads st2) (f_list st2) (cache_next found (rev ys))" "links_only (set ys) (f_heads st1) (f_heads st2)"
        "\<forall>x. found = Some x \<longrightarrow> x \<in> set (rev ys)"
        using find_in_set by fastforce
      then show ?thesis
        using ys(2) set links_only_trans [OF ys(3) st2(3)] cache_next_mset [OF st2(4)]
        by (intro exI [of _ st2] conjI exI [of _ "cache_next found (rev ys)"]) simp_all
    qed
  qed
  then show ?thesis by blast
qed

section \<open>The checksum loop\<close>

lemma crc_loop_eq:
  assumes "chain (heads m) finder ys" and "item_at m lst = Some item"
  shows "crc_loop lst finder retval m = Some ((crc16 (data16 item) ^^ length ys) retval)"
  using assms(1)
proof (induction ys arbitrary: finder retval)
  case (Cons y ys)
  then show ?case using assms(2)
    by (subst crc_loop.simps) (simp add: funpow_comm)
qed (simp add: crc_loop.simps)

section \<open>A whole run\<close>

text \<open>The sort by value, which only one of the two runs of an iteration makes.\<close>

lemma value_phase_ok:
  assumes "chain h p xs" and "\<forall>x\<in>set xs. info (h ! x) < length d" and "xs \<noteq> []" and "length xs \<le> 2 ^ 30"
    and "results_ok res"
  shows "\<exists>p' h' d' res' ys. (if sint (k :: s16) > 0 then core_list_mergesort p cmp_complex h (d, Some res) else Some (p, h, d, Some res))
      = Some (p', h', d', Some res')
    \<and> chain h' p' ys \<and> mset ys = mset xs \<and> links_only (set xs) h h' \<and> res_keeps res res'
    \<and> items_keep (\<lambda>x y. high_byte y = high_byte x) d ((\<lambda>x. info (h ! x)) ` set xs) d'"
proof (cases "sint k > 0")
  case True
  then show ?thesis
    using sort_by_value_ok [OF assms] by (auto intro!: exI [of _ "sort_key _ xs"])
next
  case False
  then show ?thesis
    using assms by (auto simp: items_keep_def res_keeps_refl intro!: exI [of _ xs])
qed

text \<open>Removing the first item after the head, the lookup and checksum over what is left, and the undo.\<close>

lemma remove_phase_ok:
  assumes "chain h p (a # b # c # zs)" and "\<forall>x\<in>set (a # b # c # zs). info (h ! x) < length d"
  shows "\<exists>h' finder r. core_list_remove (Some b) h = Some (Some c, h')
    \<and> core_list_find p itm \<lparr>heads = h', datas = d\<rparr> = Some finder
    \<and> deref h' p = Some \<lparr>nxt = Some b, info = info (h ! a)\<rparr>
    \<and> crc_loop p (if finder = None then Some b else finder) retval \<lparr>heads = h', datas = d\<rparr> = Some r
    \<and> core_list_undo_remove (Some c) (Some b) h' = Some (Some c, h)"
proof -
  have d: "distinct (a # b # c # zs)" by (rule chain_distinct [OF assms(1)])
  have a: "p = Some a" "a < length h" "nxt (h ! a) = Some b" and tail: "chain h (Some b) (b # c # zs)"
    using assms(1) by auto
  obtain h' where h': "core_list_remove (Some b) h = Some (Some c, h')" "length h' = length h" "chain h' (Some b) (b # zs)"
    "info (h' ! b) = info (h ! c)" "\<forall>x. x \<noteq> b \<longrightarrow> x \<noteq> c \<longrightarrow> h' ! x = h ! x"
    "core_list_undo_remove (Some c) (Some b) h' = Some (Some c, h)"
    using remove_undo [OF tail] by blast
  let ?m = "\<lparr>heads = h', datas = d\<rparr>"
  have ha: "h' ! a = h ! a" using h'(5) d by auto
  have wf: "wf_list ?m p (a # b # zs)"
    using a h' ha assms(2) d by (auto simp: wf_list_def)
  have find: "core_list_find p itm ?m = Some (List.find (\<lambda>x. matches itm (item_of ?m x)) (a # b # zs))"
    by (rule core_list_find_eq [OF wf])
  define finder where "finder = List.find (\<lambda>x. matches itm (item_of ?m x)) (a # b # zs)"
  have item: "item_at ?m p = Some (item_of ?m a)"
    using wf item_at_ok [of a ?m] by (simp add: wf_list_def)
  have "\<exists>ys. chain h' (if finder = None then Some b else finder) ys"
  proof (cases finder)
    case None
    then show ?thesis using h'(3) by (intro exI [of _ "b # zs"]) simp
  next
    case (Some x)
    then have "x \<in> set (a # b # zs)" unfolding finder_def by (rule find_in_set)
    then obtain us vs where "a # b # zs = us @ x # vs" by (meson split_list)
    then have "chain h' p (us @ x # vs)" using wf by (simp add: wf_list_def)
    then show ?thesis using Some by (intro exI [of _ "x # vs"]) (auto simp: seg_append)
  qed
  then obtain ys where "chain h' (if finder = None then Some b else finder) ys" by blast
  then have "\<exists>r. crc_loop p (if finder = None then Some b else finder) retval ?m = Some r"
    using crc_loop_eq [of ?m _ ys p] item by simp
  moreover have "deref h' p = Some \<lparr>nxt = Some b, info = info (h ! a)\<rparr>"
    using a h'(2) ha by (cases "h ! a") simp
  ultimately show ?thesis
    using h'(1,6) find unfolding finder_def by blast
qed

lemma items_keep_regen:
  assumes "items_keep (\<lambda>x y. high_byte y = high_byte x) d0 I d1" and "items_keep (\<lambda>x y. y = x \<or> y = regen x) d1 I d2"
  shows "items_keep (\<lambda>x y. regen y = regen x) d0 I d2"
proof -
  have step1: "length d1 = length d0" "\<And>a. a < length d0 \<Longrightarrow> idx (d1 ! a) = idx (d0 ! a)"
      "\<And>a. a < length d0 \<Longrightarrow> high_byte (data16 (d1 ! a)) = high_byte (data16 (d0 ! a))"
      "\<And>a. a < length d0 \<Longrightarrow> a \<notin> I \<Longrightarrow> d1 ! a = d0 ! a"
    using assms(1) unfolding items_keep_def by blast+
  have step2: "length d2 = length d1" "\<And>a. a < length d1 \<Longrightarrow> idx (d2 ! a) = idx (d1 ! a)"
      "\<And>a. a < length d1 \<Longrightarrow> data16 (d2 ! a) = data16 (d1 ! a) \<or> data16 (d2 ! a) = regen (data16 (d1 ! a))"
      "\<And>a. a < length d1 \<Longrightarrow> a \<notin> I \<Longrightarrow> d2 ! a = d1 ! a"
    using assms(2) unfolding items_keep_def by blast+
  have "regen (data16 (d2 ! a)) = regen (data16 (d0 ! a))" if "a < length d0" for a
  proof -
    have "data16 (d2 ! a) = data16 (d1 ! a) \<or> data16 (d2 ! a) = regen (data16 (d1 ! a))"
      using step2(3) that step1(1) by simp
    then show ?thesis using regen_high_byte [OF step1(3) [OF that]] by (elim disjE) (simp_all only: regen_regen)
  qed
  then show ?thesis using step1(1,2,4) step2(1,2,4) unfolding items_keep_def by simp
qed

lemma core_bench_list_ok:
  assumes wf: "wf_list m (res_list res) xs" and len: "3 \<le> length xs" "length xs \<le> 2 ^ 30" and ok: "results_ok res"
  shows "\<exists>r res' m' p' ys. core_bench_list res k m = Some (r, res', m') \<and> res_keeps res res'
    \<and> chain (heads m') p' (sort_key (\<lambda>x. sint (idx (item_of m x))) ys) \<and> mset ys = mset xs
    \<and> links_only (set xs) (heads m) (heads m')
    \<and> items_keep (\<lambda>x y. regen y = regen x) (datas m) ((\<lambda>x. info (heads m ! x)) ` set xs) (datas m')
    \<and> (\<forall>x\<in>set xs. data16 (item_of m' x) = regen (data16 (item_of m x)))"
proof -
  let ?I = "(\<lambda>x. info (heads m ! x)) ` set xs"
  have m: "\<lparr>heads = heads m, datas = datas m\<rparr> = m" by simp
  let ?st = "\<lparr>f_list = res_list res, f_idx = k, f_retval = 0, f_found = 0, f_missed = 0, f_heads = heads m\<rparr>"
  have inb: "x < length (heads m)" "info (heads m ! x) < length (datas m)" if "x \<in> set xs" for x
    using wf that by (auto simp: wf_list_def dest: seg_in_bounds)
  obtain st ys1 where 1: "for_loop (nat (sint (res_seed3 res))) (\<lambda>i st. find_round (datas m) (of_nat i) st) ?st = Some st"
    "chain (f_heads st) (f_list st) ys1" "mset ys1 = mset xs" "links_only (set xs) (heads m) (f_heads st)"
    using find_rounds_ok [of ?st "datas m" xs "nat (sint (res_seed3 res))"] wf len m by auto
  have set1: "set ys1 = set xs" and len1: "length ys1 = length xs"
    using mset_eq_setD [OF 1(3)] mset_eq_length [OF 1(3)] by auto
  have inf1: "info (f_heads st ! x) = info (heads m ! x)" if "x \<in> set xs" for x
    using 1(4) inb(1) [OF that] by (rule links_only_info)
  have I1: "(\<lambda>x. info (f_heads st ! x)) ` set xs = ?I" using inf1 by (auto intro!: image_cong)
  have "\<forall>x\<in>set ys1. info (f_heads st ! x) < length (datas m)" using inf1 inb(2) set1 by simp
  moreover have "ys1 \<noteq> []" using len1 len by auto
  ultimately obtain p2 h2 d2 res2 ys2 where 2:
    "(if sint k > 0 then core_list_mergesort (f_list st) cmp_complex (f_heads st) (datas m, Some res)
      else Some (f_list st, f_heads st, datas m, Some res)) = Some (p2, h2, d2, Some res2)"
    "chain h2 p2 ys2" "mset ys2 = mset xs" "links_only (set xs) (f_heads st) h2" "res_keeps res res2"
    "items_keep (\<lambda>x y. high_byte y = high_byte x) (datas m) ?I d2"
    using value_phase_ok [OF 1(2) _ _ _ ok, of "datas m" k] len len1 1(3) unfolding set1 I1 by auto
  have set2: "set ys2 = set xs" and len2: "length ys2 = length xs"
    using mset_eq_setD [OF 2(3)] mset_eq_length [OF 2(3)] by auto
  have links2: "links_only (set xs) (heads m) h2" using links_only_trans [OF 1(4) 2(4)] by simp
  have inf2: "info (h2 ! x) = info (heads m ! x)" if "x \<in> set xs" for x
    using links2 inb(1) [OF that] by (rule links_only_info)
  have len_d2: "length d2 = length (datas m)" using 2(6) by (simp add: items_keep_def)
  obtain a b c zs where abc: "ys2 = a # b # c # zs"
    using len len2 by (metis (no_types) Suc_le_length_iff numeral_3_eq_3)
  define itm where "itm = \<lparr>data16 = (if nat (sint (res_seed3 res)) = 0 then 0 else of_nat (nat (sint (res_seed3 res)) - 1) AND 0xff),
    idx = f_idx st\<rparr>"
  have chain2: "chain h2 p2 (a # b # c # zs)" and inb2: "\<forall>x\<in>set (a # b # c # zs). info (h2 ! x) < length d2"
    using 2(2) inf2 inb(2) set2 len_d2 unfolding abc by auto
  define rv where "rv = f_retval st + (f_found st * 4 - f_missed st)"
  obtain h3 finder r3 where 3: "core_list_remove (Some b) h2 = Some (Some c, h3)"
    "core_list_find p2 itm \<lparr>heads = h3, datas = d2\<rparr> = Some finder"
    "deref h3 p2 = Some \<lparr>nxt = Some b, info = info (h2 ! a)\<rparr>"
    "crc_loop p2 (if finder = None then Some b else finder) rv \<lparr>heads = h3, datas = d2\<rparr> = Some r3"
    "core_list_undo_remove (Some c) (Some b) h3 = Some (Some c, h2)"
    using remove_phase_ok [OF chain2 inb2] by blast
  let ?m2 = "\<lparr>heads = h2, datas = d2\<rparr>"
  have wf2: "wf_list ?m2 p2 ys2" using chain2 inb2 by (simp add: wf_list_def abc)
  have ne: "ys2 \<noteq> []" "length ys2 \<le> 2 ^ 30" "2 \<le> length ys2" using len len2 by auto
  obtain p4 m4 where 4: "sort_by_idx p2 ?m2 = Some (p4, m4)"
    "chain (heads m4) p4 (sort_key (\<lambda>x. sint (idx (item_of ?m2 x))) ys2)" "links_only (set ys2) h2 (heads m4)"
    "items_keep (\<lambda>x y. y = x \<or> y = regen x) d2 ((\<lambda>x. info (h2 ! x)) ` set ys2) (datas m4)"
    "\<forall>x\<in>set ys2. data16 (item_of m4 x) = regen (data16 (item_of ?m2 x))"
    using sort_by_idx_ok [OF wf2 ne(1,2)] ne(3) by auto
  have I2: "(\<lambda>x. info (h2 ! x)) ` set xs = ?I" using inf2 by (auto intro!: image_cong)
  have keep: "items_keep (\<lambda>x y. regen y = regen x) (datas m) ?I (datas m4)"
    using items_keep_regen [OF 2(6) 4(4) [unfolded set2 I2]] .
  have links4: "links_only (set xs) (heads m) (heads m4)" using links_only_trans [OF links2 4(3)] set2 by simp
  have idx2: "idx (item_of ?m2 x) = idx (item_of m x)" if "x \<in> set xs" for x
    using 2(6) inb(2) [OF that] inf2 [OF that] by (simp add: item_of_def items_keep_def)
  have sort: "sort_key (\<lambda>x. sint (idx (item_of ?m2 x))) ys2 = sort_key (\<lambda>x. sint (idx (item_of m x))) ys2"
    using idx2 set2 by (intro sort_key_keys_cong) simp
  have data: "\<forall>x\<in>set xs. data16 (item_of m4 x) = regen (data16 (item_of m x))"
  proof
    fix x assume x: "x \<in> set xs"
    have hb: "high_byte (data16 (item_of ?m2 x)) = high_byte (data16 (item_of m x))"
      using 2(6) inb(2) [OF x] inf2 [OF x] by (simp add: item_of_def items_keep_def)
    have "x \<in> set ys2" using x set2 by simp
    then have "data16 (item_of m4 x) = regen (data16 (item_of ?m2 x))" using 4(5) by blast
    then show "data16 (item_of m4 x) = regen (data16 (item_of m x))"
      unfolding regen_high_byte [OF hb] .
  qed
  obtain e es where es: "sort_key (\<lambda>x. sint (idx (item_of ?m2 x))) ys2 = e # es"
    using ne(1) by (metis length_0_conv length_sort neq_Nil_conv)
  then have p4: "p4 = Some e" "e < length (heads m4)" "chain (heads m4) (nxt (heads m4 ! e)) es"
    using 4(2) by auto
  have "e \<in> set xs" using es set2 by (metis list.set_intros(1) set_sort)
  then have "info (heads m4 ! e) < length (datas m4)"
    using links_only_info [OF links4] inb keep by (simp add: items_keep_def)
  then obtain r5 where 5: "crc_loop p4 (nxt (heads m4 ! e)) r3 m4 = Some r5"
    using crc_loop_eq [OF p4(3), of p4] item_at_ok [of e m4] p4 by auto
  have "core_bench_list res k m = Some (r5, res2, m4)"
  proof -
    have p2: "deref h2 p2 = Some (h2 ! a)" "nxt (h2 ! a) = Some b" using chain2 by auto
    have p4': "deref (heads m4) p4 = Some (heads m4 ! e)" using p4 by simp
    show ?thesis
      unfolding core_bench_list_def Let_def 1(1) Option.bind.bind_lunit 2(1) prod.case p2 3(1) itm_def [symmetric] 3(2,3)
        list_head.select_convs rv_def [symmetric] 3(4,5) 4(1) p4' 5 ..
  qed
  then show ?thesis
    using 2(3,5) 4(2) links4 keep data unfolding sort by (intro exI conjI)
qed

section \<open>Restoring the list\<close>

lemma segs_same_links:
  "seg h p xs r \<Longrightarrow> seg h' q xs r \<Longrightarrow> x \<in> set xs \<Longrightarrow> nxt (h' ! x) = nxt (h ! x)"
proof (induction xs arbitrary: p q)
  case (Cons y ys)
  then show ?case by (cases ys) auto
qed simp

lemma heads_restored:
  assumes "chain h p xs" and "chain h' q xs" and "links_only (set xs) h h'"
  shows "h' = h"
proof (rule nth_equalityI)
  show "h' ! a = h ! a" if "a < length h'" for a
  proof (cases "a \<in> set xs")
    case True
    then have "nxt (h' ! a) = nxt (h ! a)" using segs_same_links assms(1,2) by metis
    then show ?thesis
      using assms(3) that by (cases "h' ! a"; cases "h ! a") (auto simp: links_only_def)
  qed (use assms(3) that in \<open>auto simp: links_only_def\<close>)
qed (use assms(3) in \<open>simp add: links_only_def\<close>)

text \<open>A list in strictly increasing order of \<open>idx\<close>, whose items have their low byte regenerated.\<close>

definition pristine :: "list_mem \<Rightarrow> nat list \<Rightarrow> bool" where
  "pristine m xs \<longleftrightarrow> sorted_wrt (<) (map (\<lambda>x. sint (idx (item_of m x))) xs)
     \<and> (\<forall>x\<in>set xs. regen (data16 (item_of m x)) = data16 (item_of m x))"

lemma pristine_sort:
  assumes "pristine m xs" and "mset ys = mset xs"
  shows "sort_key (\<lambda>x. sint (idx (item_of m x))) ys = xs"
proof (rule sort_key_inj_key_eq [OF assms(2)])
  have sorted: "sorted_wrt (<) (map (\<lambda>x. sint (idx (item_of m x))) xs)"
    using assms(1) by (simp add: pristine_def)
  then show "sorted (map (\<lambda>x. sint (idx (item_of m x))) xs)"
    by (simp add: strict_sorted_imp_sorted)
  have "distinct (map (\<lambda>x. sint (idx (item_of m x))) xs)"
    using sorted by (simp add: strict_sorted_iff)
  then show "inj_on (\<lambda>x. sint (idx (item_of m x))) (set ys)"
    using mset_eq_setD [OF assms(2)] by (simp add: distinct_map)
qed

lemma bench_list_pristine:
  assumes wf: "wf_list m (res_list res) xs" and len: "3 \<le> length xs" "length xs \<le> 2 ^ 30" and ok: "results_ok res"
    and pristine: "pristine m xs"
  shows "\<exists>r res'. core_bench_list res k m = Some (r, res', m) \<and> res_keeps res res'"
proof -
  let ?I = "(\<lambda>x. info (heads m ! x)) ` set xs"
  obtain r res' m' p' ys where run: "core_bench_list res k m = Some (r, res', m')" "res_keeps res res'"
    "chain (heads m') p' (sort_key (\<lambda>x. sint (idx (item_of m x))) ys)" "mset ys = mset xs"
    "links_only (set xs) (heads m) (heads m')"
    "items_keep (\<lambda>x y. regen y = regen x) (datas m) ?I (datas m')"
    "\<forall>x\<in>set xs. data16 (item_of m' x) = regen (data16 (item_of m x))"
    using core_bench_list_ok [OF wf len ok, of k] by blast
  have chain: "chain (heads m) (res_list res) xs" using wf by (simp add: wf_list_def)
  have "chain (heads m') p' xs" using run(3) pristine_sort [OF pristine run(4)] by simp
  then have heads: "heads m' = heads m"
    using heads_restored [OF chain _ run(5)] by blast
  have "datas m' = datas m"
  proof (rule nth_equalityI)
    show len: "length (datas m') = length (datas m)" using run(6) by (simp add: items_keep_def)
    fix a assume "a < length (datas m')"
    then have a: "a < length (datas m)" using len by simp
    show "datas m' ! a = datas m ! a"
    proof (cases "a \<in> ?I")
      case True
      then obtain x where x: "x \<in> set xs" "a = info (heads m ! x)" by blast
      then have "data16 (datas m' ! a) = data16 (datas m ! a)"
        using run(7) pristine heads by (simp add: item_of_def pristine_def)
      moreover have "idx (datas m' ! a) = idx (datas m ! a)"
        using run(6) a unfolding items_keep_def by blast
      ultimately show ?thesis by (cases "datas m' ! a"; cases "datas m ! a") simp
    next
      case False
      then show ?thesis using run(6) a unfolding items_keep_def by blast
    qed
  qed
  with heads have "m' = m" by (cases m'; cases m) simp
  with run(1,2) show ?thesis by blast
qed

section \<open>Properties\<close>

text \<open>
  C5: a run returns the list to its original state. When the items are in strictly increasing order
  of \<open>idx\<close> with their low bytes regenerated, as \<open>core_list_init\<close> leaves them, every run of
  \<open>core_bench_list\<close> returns, and the memory of list heads and items is exactly as before; of the
  results only the checksums and the result matrix change.
\<close>

theorem core_bench_list_restores:
  assumes "chain (heads m) (res_list res) xs" and "\<forall>x\<in>set xs. info (heads m ! x) < length (datas m)"
    and "3 \<le> length xs" and "length xs \<le> 2 ^ 30" and "results_ok res"
    and "sorted_wrt (<) (map (\<lambda>x. sint (idx (item_of m x))) xs)"
    and "\<forall>x\<in>set xs. regen (data16 (item_of m x)) = data16 (item_of m x)"
  shows "\<exists>r res'. core_bench_list res finder_idx m = Some (r, res', m) \<and> res_keeps res res'"
  using bench_list_pristine [of m res xs finder_idx] assms by (simp add: wf_list_def pristine_def)

theorem core_bench_list_restores_witness:
  "\<exists>r res'. core_bench_list small_results 1
      \<lparr>heads = [\<lparr>nxt = Some 2, info = 0\<rparr>, \<lparr>nxt = None, info = 1\<rparr>, \<lparr>nxt = Some 1, info = 2\<rparr>],
       datas = [\<lparr>data16 = 0, idx = 0\<rparr>, \<lparr>data16 = 0, idx = 9\<rparr>, \<lparr>data16 = 0x0101, idx = 4\<rparr>]\<rparr> = Some (r, res',
      \<lparr>heads = [\<lparr>nxt = Some 2, info = 0\<rparr>, \<lparr>nxt = None, info = 1\<rparr>, \<lparr>nxt = Some 1, info = 2\<rparr>],
       datas = [\<lparr>data16 = 0, idx = 0\<rparr>, \<lparr>data16 = 0, idx = 9\<rparr>, \<lparr>data16 = 0x0101, idx = 4\<rparr>]\<rparr>)"
proof -
  have "regen 0 = 0" "regen 0x0101 = 0x0101" by (simp_all add: regen_def)
  then show ?thesis
    using core_bench_list_restores [of "\<lparr>heads = [\<lparr>nxt = Some 2, info = 0\<rparr>, \<lparr>nxt = None, info = 1\<rparr>, \<lparr>nxt = Some 1, info = 2\<rparr>],
        datas = [\<lparr>data16 = 0, idx = 0\<rparr>, \<lparr>data16 = 0, idx = 9\<rparr>, \<lparr>data16 = 0x0101, idx = 4\<rparr>]\<rparr>" small_results "[0, 2, 1]" 1]
      small_results_ok by (auto simp: item_of_def small_results_def)
qed

text \<open>
  A lookup leaves the list reversed, with the node after the one it found moved behind the head;
  when it finds nothing the list is only reversed. Nothing but links changes.
\<close>

theorem find_round_reorders:
  fixes i :: s16
  assumes "chain (f_heads st) (f_list st) xs" and "\<forall>x\<in>set xs. info (f_heads st ! x) < length d" and "2 \<le> length xs"
  shows "\<exists>st'. find_round d i st = Some st'
    \<and> chain (f_heads st') (f_list st')
        (cache_next (List.find (\<lambda>x. matches \<lparr>data16 = i AND 0xff, idx = f_idx st\<rparr> (d ! info (f_heads st ! x))) xs) (rev xs))
    \<and> links_only (set xs) (f_heads st) (f_heads st')"
  using find_round_ok [of st d xs i] assms by (simp add: wf_list_def)

theorem find_round_reorders_witness:
  "\<exists>st'. find_round [\<lparr>data16 = 0, idx = 7\<rparr>, \<lparr>data16 = 0, idx = 8\<rparr>, \<lparr>data16 = 0, idx = 9\<rparr>] 0
      \<lparr>f_list = Some 0, f_idx = 8, f_retval = 0, f_found = 0, f_missed = 0,
       f_heads = [\<lparr>nxt = Some 1, info = 0\<rparr>, \<lparr>nxt = Some 2, info = 1\<rparr>, \<lparr>nxt = None, info = 2\<rparr>]\<rparr> = Some st'
    \<and> chain (f_heads st') (f_list st') [2, 0, 1]"
  using find_round_reorders [of "\<lparr>f_list = Some 0, f_idx = 8, f_retval = 0, f_found = 0, f_missed = 0,
       f_heads = [\<lparr>nxt = Some 1, info = 0\<rparr>, \<lparr>nxt = Some 2, info = 1\<rparr>, \<lparr>nxt = None, info = 2\<rparr>]\<rparr>"
      "[0, 1, 2]" "[\<lparr>data16 = 0, idx = 7\<rparr>, \<lparr>data16 = 0, idx = 8\<rparr>, \<lparr>data16 = 0, idx = 9\<rparr>]" 0]
  by (auto simp: matches_def cache_next_def nth_Cons')

text \<open>
  The checksum loops read the item of the list head in every turn, so the checksum of a list is
  that of its first item, repeated once per remaining node; it does not depend on the other items.
\<close>

theorem crc_loop_repeats_head:
  assumes "chain (heads m) finder ys" and "item_at m lst = Some item"
  shows "crc_loop lst finder retval m = Some (crc_seq (replicate (length ys) (data16 item)) retval)"
proof -
  have "(crc16 v ^^ n) c = crc_seq (replicate n v) c" for v n c
    by (induction n arbitrary: c) (simp_all add: crc_seq_def funpow_comm crc16_def)
  then show ?thesis using crc_loop_eq [OF assms] by simp
qed

theorem crc_loop_repeats_head_witness:
  "crc_loop (Some 0) (Some 0) 0 \<lparr>heads = [\<lparr>nxt = Some 1, info = 0\<rparr>, \<lparr>nxt = None, info = 1\<rparr>],
     datas = [\<lparr>data16 = 5, idx = 0\<rparr>, \<lparr>data16 = 77, idx = 1\<rparr>]\<rparr> = Some (crc_seq [5, 5] 0)"
  using crc_loop_repeats_head [of "\<lparr>heads = [\<lparr>nxt = Some 1, info = 0\<rparr>, \<lparr>nxt = None, info = 1\<rparr>],
     datas = [\<lparr>data16 = 5, idx = 0\<rparr>, \<lparr>data16 = 77, idx = 1\<rparr>]\<rparr>" "Some 0" "[0, 1]" "Some 0" "\<lparr>data16 = 5, idx = 0\<rparr>" 0]
  by (simp add: item_at_def numeral_2_eq_2)

end
