(* ===== verification/ListInit.thy ===== *)
theory ListInit
  imports ListBench
begin

text \<open>
  \<open>core_list_init\<close>: the nodes it links, the items it fills in, and that what it builds is a list
  that the benchmark restores.
\<close>

section \<open>Initialisation\<close>

text \<open>The nodes after \<open>k\<close> calls that inserted: the head, the items newest first, the tail.\<close>

definition init_order :: "nat \<Rightarrow> nat list" where
  "init_order k = 0 # rev [2..<2 + k] @ [1]"

definition init_inv :: "nat \<Rightarrow> s16 \<Rightarrow> nat \<Rightarrow> nat \<Rightarrow> list_mem \<Rightarrow> bool" where
  "init_inv n seed i k m \<longleftrightarrow> length (heads m) = n \<and> length (datas m) = n \<and> k = min i (n - 3)
     \<and> chain (heads m) (Some 0) (init_order k)
     \<and> (\<forall>x<2 + k. info (heads m ! x) = x)
     \<and> datas m ! 0 = \<lparr>data16 = 0x8080, idx = 0\<rparr> \<and> datas m ! 1 = \<lparr>data16 = 0xffff, idx = 0x7fff\<rparr>
     \<and> (\<forall>j<k. datas m ! (2 + j) = \<lparr>data16 = item_data seed (of_nat j), idx = 0x7fff\<rparr>)"

lemma copy_info_ok: "a < length d \<Longrightarrow> copy_info a itm d = Some (d[a := \<lparr>data16 = data16 itm, idx = idx itm\<rparr>])"
  by (cases "d ! a") (simp add: copy_info_def)

lemma insert_new_ok:
  assumes "a < length h" and "mb + 1 < n" and "mb \<noteq> a" and "length h = n" and "length d = n"
  shows "core_list_insert_new (Some a) itm mb mb n n \<lparr>heads = h, datas = d\<rparr> =
    Some (Some mb, mb + 1, mb + 1,
      \<lparr>heads = h[mb := \<lparr>nxt = nxt (h ! a), info = mb\<rparr>, a := (h ! a)\<lparr>nxt := Some mb\<rparr>],
       datas = d[mb := \<lparr>data16 = data16 itm, idx = idx itm\<rparr>]\<rparr>)"
proof -
  have "h[mb := (h ! mb)\<lparr>nxt := nxt (h ! a)\<rparr>, a := (h ! a)\<lparr>nxt := Some mb\<rparr>, mb := (h ! mb)\<lparr>nxt := nxt (h ! a), info := mb\<rparr>]
      = h[mb := \<lparr>nxt = nxt (h ! a), info = mb\<rparr>, a := (h ! a)\<lparr>nxt := Some mb\<rparr>]"
    using assms(3) by (cases "h ! mb") (simp add: list_update_swap [of mb a])
  then show ?thesis
    using assms by (simp add: core_list_insert_new_def copy_info_ok nth_list_update Let_def)
qed

lemma init_order_Suc: "init_order (Suc k) = 0 # (2 + k) # rev [2..<2 + k] @ [1]"
  by (simp add: init_order_def)

lemma init_round:
  assumes "init_inv n seed i k m" and "3 \<le> n"
  shows "\<exists>p k' m'. core_list_insert_new (Some 0) \<lparr>data16 = item_data seed (of_nat i), idx = 0x7fff\<rparr> (2 + k) (2 + k) n n m
      = Some (p, 2 + k', 2 + k', m') \<and> init_inv n seed (Suc i) k' m'"
proof (cases "i < n - 3")
  case False
  then have "core_list_insert_new (Some 0) \<lparr>data16 = item_data seed (of_nat i), idx = 0x7fff\<rparr> (2 + k) (2 + k) n n m
      = Some (None, 2 + k, 2 + k, m)"
    using assms by (auto simp: core_list_insert_new_def init_inv_def)
  moreover have "init_inv n seed (Suc i) k m"
    using assms False by (auto simp: init_inv_def)
  ultimately show ?thesis by blast
next
  case True
  obtain h d where m: "m = \<lparr>heads = h, datas = d\<rparr>" by (cases m) auto
  have k: "k = i" "2 + k + 1 < n" and len: "length h = n" "length d = n"
    and chain: "chain h (Some 0) (init_order k)" and info: "\<forall>x<2 + k. info (h ! x) = x"
    using assms True by (auto simp: init_inv_def m)
  let ?h = "h[2 + k := \<lparr>nxt = nxt (h ! 0), info = 2 + k\<rparr>, 0 := (h ! 0)\<lparr>nxt := Some (2 + k)\<rparr>]"
  let ?d = "d[2 + k := \<lparr>data16 = item_data seed (of_nat i), idx = 0x7fff\<rparr>]"
  have insert: "core_list_insert_new (Some 0) \<lparr>data16 = item_data seed (of_nat i), idx = 0x7fff\<rparr> (2 + k) (2 + k) n n m
      = Some (Some (2 + k), 2 + Suc k, 2 + Suc k, \<lparr>heads = ?h, datas = ?d\<rparr>)"
    using insert_new_ok [of 0 h "2 + k" n d] k len unfolding m by simp
  have "chain h (nxt (h ! 0)) (rev [2..<2 + k] @ [1])"
    using chain by (simp add: init_order_def)
  then have "chain ?h (nxt (h ! 0)) (rev [2..<2 + k] @ [1])"
    by (subst seg_update, simp, subst seg_update) auto
  then have "chain ?h (Some 0) (init_order (Suc k))"
    using k len unfolding init_order_Suc by simp
  moreover have "\<forall>x<2 + Suc k. info (?h ! x) = x"
    using info k len by (auto simp: nth_list_update less_Suc_eq)
  ultimately have "init_inv n seed (Suc i) (Suc k) \<lparr>heads = ?h, datas = ?d\<rparr>"
    using assms(1) True k len by (auto simp: init_inv_def m nth_list_update less_Suc_eq)
  with insert show ?thesis by blast
qed

lemma insert_items_ok:
  assumes "init_inv n seed 0 0 m" and "3 \<le> n" and "n = unat sz"
  shows "\<exists>m'. insert_items (Some 0) sz seed (2, 2, m) = Some (2 + (n - 3), 2 + (n - 3), m') \<and> init_inv n seed n (n - 3) m'"
proof -
  let ?I = "\<lambda>i s. \<exists>k m. s = (2 + k, 2 + k, m) \<and> init_inv n seed i k m"
  have "\<exists>s'. insert_items (Some 0) sz seed (2, 2, m) = Some s' \<and> ?I n s'"
    unfolding insert_items_def assms(3) [symmetric]
  proof (rule for_loop_rule [where I = ?I])
    show "?I 0 (2, 2, m)" using assms(1) by (intro exI [of _ 0]) simp
    show "\<exists>s'. (case s of (memblock, datablock, m) \<Rightarrow> do {
            (_, memblock, datablock, m) \<leftarrow> core_list_insert_new (Some 0)
              \<lparr>data16 = item_data seed (of_nat i), idx = 0x7fff\<rparr> memblock datablock n n m;
            Some (memblock, datablock, m) }) = Some s' \<and> ?I (Suc i) s'" if I: "?I i s" for i s
    proof -
      obtain k m1 where s: "s = (2 + k, 2 + k, m1)" "init_inv n seed i k m1" using I by blast
      then obtain p k' m' where "core_list_insert_new (Some 0) \<lparr>data16 = item_data seed (of_nat i), idx = 0x7fff\<rparr>
          (2 + k) (2 + k) n n m1 = Some (p, 2 + k', 2 + k', m')" "init_inv n seed (Suc i) k' m'"
        using init_round [OF s(2) assms(2)] by blast
      then show ?thesis unfolding s(1) by auto
    qed
  qed
  then show ?thesis using assms(2) by (auto simp: init_inv_def)
qed

text \<open>The numbering loop.\<close>

lemma index_loop_ok:
  assumes "chain (heads m) p (ys @ [z])" and "\<forall>y\<in>set ys. info (heads m ! y) < length (datas m)"
    and "inj_on (\<lambda>y. info (heads m ! y)) (set ys)"
  shows "\<exists>d. index_loop sz seed p i m = Some (m\<lparr>datas := d\<rparr>) \<and> length d = length (datas m)
    \<and> (\<forall>j<length ys. d ! info (heads m ! (ys ! j)) = (datas m ! info (heads m ! (ys ! j)))\<lparr>idx := item_index sz seed (i + of_nat j)\<rparr>)
    \<and> (\<forall>a. a \<notin> (\<lambda>y. info (heads m ! y)) ` set ys \<longrightarrow> d ! a = datas m ! a)"
  using assms
proof (induction ys arbitrary: p i m)
  case Nil
  then show ?case by (subst index_loop.simps) (auto intro!: exI [of _ "datas m"])
next
  case (Cons y ys)
  let ?a = "info (heads m ! y)"
  let ?m = "m\<lparr>datas := (datas m)[?a := (datas m ! ?a)\<lparr>idx := item_index sz seed i\<rparr>]\<rparr>"
  have y: "p = Some y" "y < length (heads m)" "chain (heads m) (nxt (heads m ! y)) (ys @ [z])" "?a < length (datas m)"
    using Cons.prems by auto
  have "nxt (heads m ! y) \<noteq> None" using y(3) by (cases ys) auto
  then have step: "index_loop sz seed p i m = index_loop sz seed (nxt (heads m ! y)) (i + 1) ?m"
    using y by (subst index_loop.simps) simp
  have "y \<notin> set ys" using chain_distinct [OF Cons.prems(1)] by simp
  then have fresh: "?a \<notin> (\<lambda>y. info (heads m ! y)) ` set ys"
    using Cons.prems(3) by (auto simp: inj_on_def)
  obtain d where d: "index_loop sz seed (nxt (heads m ! y)) (i + 1) ?m = Some (?m\<lparr>datas := d\<rparr>)" "length d = length (datas m)"
    "\<forall>j<length ys. d ! info (heads m ! (ys ! j)) = (datas ?m ! info (heads m ! (ys ! j)))\<lparr>idx := item_index sz seed (i + 1 + of_nat j)\<rparr>"
    "\<forall>a. a \<notin> (\<lambda>y. info (heads m ! y)) ` set ys \<longrightarrow> d ! a = datas ?m ! a"
    using Cons.IH [of ?m "nxt (heads m ! y)" "i + 1"] y(3) Cons.prems(2,3) by (auto simp: inj_on_def)
  have "d ! info (heads m ! ((y # ys) ! j)) = (datas m ! info (heads m ! ((y # ys) ! j)))\<lparr>idx := item_index sz seed (i + of_nat j)\<rparr>"
    if "j < length (y # ys)" for j
  proof (cases j)
    case 0
    then show ?thesis using d(4) fresh y(4) by simp
  next
    case (Suc j')
    then have "ys ! j' \<in> set ys" using that by simp
    then have "info (heads m ! (ys ! j')) \<noteq> ?a" using fresh by (metis imageI)
    then show ?thesis using Suc that d(3) by (simp add: ac_simps)
  qed
  moreover have "\<forall>a. a \<notin> (\<lambda>y. info (heads m ! y)) ` set (y # ys) \<longrightarrow> d ! a = datas m ! a"
    using d(4) by auto
  ultimately show ?case using step d(1,2) by (intro exI [of _ d]) simp
qed

text \<open>The items of a new list: head, tail, and the items in between.\<close>

definition init_item :: "u32 \<Rightarrow> s16 \<Rightarrow> nat \<Rightarrow> list_data" where
  "init_item sz seed x =
     (if x = 0 then \<lparr>data16 = 0x8080, idx = 0\<rparr>
      else if x = 1 then \<lparr>data16 = 0xffff, idx = 0x7fff\<rparr>
      else \<lparr>data16 = item_data seed (of_nat (x - 2)), idx = item_index sz seed (of_nat (unat sz - 1 - x))\<rparr>)"

lemma push_bit_8_or:
  assumes "dat AND 0xff = (dat :: s16)"
  shows "regen (push_bit 8 dat OR dat) = push_bit 8 dat OR dat"
proof -
  have "regen (push_bit 8 (x AND 0xff) OR (x AND 0xff)) = push_bit 8 (x AND 0xff) OR (x AND 0xff)" for x :: s16
    unfolding regen_def by (rule word16_eqI; simp add: bit_simps)
  then show ?thesis by (metis assms)
qed

lemma regen_item_data: "regen (item_data seed i) = item_data seed i"
proof -
  have "(push_bit 3 (ucast x AND 0xf) OR ucast (i AND 0x7)) AND 0xff = (push_bit 3 (ucast x AND 0xf) OR ucast (i AND 0x7) :: u16)"
    for x :: u32
    by (rule word16_eqI; simp add: bit_simps)
  then show ?thesis unfolding item_data_def Let_def by (intro push_bit_8_or)
qed

lemma regen_init_item: "regen (data16 (init_item sz seed x)) = data16 (init_item sz seed x)"
  by (simp add: init_item_def regen_item_data) (simp add: regen_def)

lemma init_order_set: "3 \<le> n \<Longrightarrow> set (init_order (n - 3)) = {..<n - 1}"
  by (auto simp: init_order_def)

lemma init_order_distinct: "distinct (init_order k)"
  by (auto simp: init_order_def)

lemma init_order_length: "length (init_order k) = k + 2"
  by (simp add: init_order_def) arith

lemma core_list_init_eq:
  assumes n: "n = unat (list_size blksize)" "3 \<le> n" "n \<le> 2 ^ 30" and len: "length (heads m) = n" "length (datas m) = n"
  shows "\<exists>p m'. core_list_init blksize m seed = Some (p, m')
    \<and> wf_list m' p (sort_key (\<lambda>x. sint (idx (init_item (list_size blksize) seed x))) (init_order (n - 3)))
    \<and> length (heads m') = n \<and> length (datas m') = n
    \<and> (\<forall>x<n - 1. info (heads m' ! x) = x \<and> datas m' ! x = init_item (list_size blksize) seed x)"
proof -
  let ?sz = "list_size blksize"
  obtain h d where m: "m = \<lparr>heads = h, datas = d\<rparr>" by (cases m) auto
  have hd: "length h = n" "length d = n" using len m by auto
  define h0 where "h0 = h[0 := \<lparr>nxt = None, info = 0\<rparr>]"
  define d0 where "d0 = d[0 := \<lparr>data16 = 0x8080, idx = 0\<rparr>]"
  define m1 where "m1 = \<lparr>heads = h0[1 := \<lparr>nxt = None, info = 1\<rparr>, 0 := \<lparr>nxt = Some 1, info = 0\<rparr>],
      datas = d0[1 := \<lparr>data16 = 0xffff, idx = 0x7fff\<rparr>]\<rparr>"
  have head: "set_next (Some 0) None h = Some (h[0 := (h ! 0)\<lparr>nxt := None\<rparr>])"
      "set_info (Some 0) 0 (h[0 := (h ! 0)\<lparr>nxt := None\<rparr>]) = Some h0"
      "copy_info 0 \<lparr>data16 = 0x8080, idx = 0\<rparr> d = Some d0"
    using hd n(2) by (cases "h ! 0"; simp add: h0_def d0_def copy_info_ok)+
  have tail: "core_list_insert_new (Some 0) \<lparr>data16 = 0xffff, idx = 0x7fff\<rparr> 1 1 n n \<lparr>heads = h0, datas = d0\<rparr> = Some (Some 1, 2, 2, m1)"
    using insert_new_ok [of 0 h0 1 n d0] hd n(2) by (simp add: h0_def d0_def m1_def)
  have "init_inv n seed 0 0 m1"
    using hd n(2) by (auto simp: init_inv_def m1_def h0_def d0_def init_order_def less_Suc_eq nth_list_update)
  then obtain m2 where m2: "insert_items (Some 0) ?sz seed (2, 2, m1) = Some (2 + (n - 3), 2 + (n - 3), m2)" "init_inv n seed n (n - 3) m2"
    using insert_items_ok [OF _ n(2,1)] by blast
  let ?ys = "rev [2..<n - 1]"
  have order: "init_order (n - 3) = 0 # ?ys @ [1]" 
  proof -
    have "2 + (n - 3) = n - 1" using n(2) by arith
    then show ?thesis unfolding init_order_def by (simp only:)
  qed
  have lens: "length (heads m2) = n" "length (datas m2) = n" and chain2: "chain (heads m2) (Some 0) (0 # ?ys @ [1])"
    and info2: "\<forall>x<n - 1. info (heads m2 ! x) = x"
    and d2: "datas m2 ! 0 = \<lparr>data16 = 0x8080, idx = 0\<rparr>" "datas m2 ! 1 = \<lparr>data16 = 0xffff, idx = 0x7fff\<rparr>"
      "\<forall>j<n - 3. datas m2 ! (2 + j) = \<lparr>data16 = item_data seed (of_nat j), idx = 0x7fff\<rparr>"
    using m2(2) n(2) by (auto simp: init_inv_def order)
  have "chain (heads m2) (nxt (heads m2 ! 0)) (?ys @ [1])" using chain2 by simp
  moreover have "\<forall>y\<in>set ?ys. info (heads m2 ! y) < length (datas m2)" using lens info2 by auto
  moreover have "inj_on (\<lambda>y. info (heads m2 ! y)) (set ?ys)" using info2 by (auto simp: inj_on_def)
  ultimately obtain d3 where d3: "index_loop ?sz seed (nxt (heads m2 ! 0)) 1 m2 = Some (m2\<lparr>datas := d3\<rparr>)" "length d3 = n"
    "\<forall>j<length ?ys. d3 ! info (heads m2 ! (?ys ! j)) = (datas m2 ! info (heads m2 ! (?ys ! j)))\<lparr>idx := item_index ?sz seed (1 + of_nat j)\<rparr>"
    "\<forall>a. a \<notin> (\<lambda>y. info (heads m2 ! y)) ` set ?ys \<longrightarrow> d3 ! a = datas m2 ! a"
    using index_loop_ok [of m2 "nxt (heads m2 ! 0)" ?ys 1 ?sz seed 1] unfolding lens by blast
  have item: "d3 ! x = init_item ?sz seed x" if x: "x < n - 1" for x
  proof (cases "2 \<le> x")
    case True
    have at: "?ys ! (n - 2 - x) = x" "n - 2 - x < length ?ys" using True x by (auto simp: rev_nth)
    have "1 + (n - 2 - x) = unat ?sz - 1 - x" using x True n(1) by arith
    then have "(1 :: u32) + of_nat (n - 2 - x) = of_nat (unat ?sz - 1 - x)" by (metis of_nat_1 of_nat_add)
    moreover have e: "2 + (x - 2) = x" "x - 2 < n - 3" using True x by arith+
    have "datas m2 ! x = \<lparr>data16 = item_data seed (of_nat (x - 2)), idx = 0x7fff\<rparr>"
      using d2(3) [rule_format, OF e(2)] unfolding e(1) .
    moreover have "d3 ! x = (datas m2 ! x)\<lparr>idx := item_index ?sz seed (1 + of_nat (n - 2 - x))\<rparr>"
      using d3(3) at info2 x by metis
    ultimately show ?thesis using True by (simp add: init_item_def)
  next
    case False
    have "x \<notin> (\<lambda>y. info (heads m2 ! y)) ` set ?ys" using False info2 by auto
    then have "d3 ! x = datas m2 ! x" using d3(4) by blast
    moreover have "x = 0 \<or> x = 1" using False by arith
    ultimately show ?thesis using d2(1,2) by (elim disjE) (simp_all add: init_item_def)
  qed
  let ?m3 = "m2\<lparr>datas := d3\<rparr>"
  have item3: "item_of ?m3 x = init_item ?sz seed x" if "x < n - 1" for x
    using item info2 that by (simp add: item_of_def)
  have set3: "set (0 # ?ys @ [1]) = {..<n - 1}" using init_order_set [OF n(2)] order by simp
  have wf3: "wf_list ?m3 (Some 0) (0 # ?ys @ [1])"
    unfolding wf_list_def set3 using chain2 d3(2) info2 by auto
  have "length (0 # ?ys @ [1 :: nat]) \<le> 2 ^ 30" "2 \<le> length (0 # ?ys @ [1 :: nat])" using n(2,3) by simp_all
  then obtain p m' where sort: "sort_by_idx (Some 0) ?m3 = Some (p, m')"
    "chain (heads m') p (sort_key (\<lambda>x. sint (idx (item_of ?m3 x))) (0 # ?ys @ [1]))"
    "links_only (set (0 # ?ys @ [1])) (heads ?m3) (heads m')"
    "items_keep (\<lambda>x y. y = x \<or> y = regen x) d3 ((\<lambda>x. info (heads ?m3 ! x)) ` set (0 # ?ys @ [1])) (datas m')"
    "\<forall>x\<in>set (0 # ?ys @ [1]). data16 (item_of m' x) = regen (data16 (item_of ?m3 x))"
    using sort_by_idx_ok [OF wf3] by auto
  have sorted: "sort_key (\<lambda>x. sint (idx (item_of ?m3 x))) (0 # ?ys @ [1]) = sort_key (\<lambda>x. sint (idx (init_item ?sz seed x))) (init_order (n - 3))"
    unfolding order
  proof (rule sort_key_keys_cong)
    show "sint (idx (item_of ?m3 x)) = sint (idx (init_item ?sz seed x))" if "x \<in> set (0 # ?ys @ [1])" for x
      using that item3 [of x] unfolding set3 by simp
  qed
  have len': "length (heads m') = n" "length (datas m') = n"
    using sort(3,4) lens d3(2) by (auto simp: links_only_def items_keep_def)
  have info': "info (heads m' ! x) = x" if "x < n - 1" for x
    using links_only_info [OF sort(3)] info2 lens that by simp
  have data': "datas m' ! x = init_item ?sz seed x" if x: "x < n - 1" for x
  proof -
    have "x \<in> set (0 # ?ys @ [1])" unfolding set3 using x by simp
    then have "data16 (item_of m' x) = regen (data16 (item_of ?m3 x))" using sort(5) by blast
    then have "data16 (datas m' ! x) = data16 (init_item ?sz seed x)"
      using info' [OF x] unfolding item3 [OF x] regen_init_item by (simp add: item_of_def)
    moreover have "idx (datas m' ! x) = idx (init_item ?sz seed x)"
      using sort(4) item [OF x] x d3(2) unfolding items_keep_def by simp
    ultimately show ?thesis by (cases "datas m' ! x"; cases "init_item ?sz seed x") simp
  qed
  have wf': "wf_list m' p (sort_key (\<lambda>x. sint (idx (init_item ?sz seed x))) (init_order (n - 3)))"
    using sort(2) len' info' init_order_set [OF n(2)] unfolding sorted wf_list_def by auto
  have "core_list_init blksize m seed = Some (p, m')"
  proof -
    have c: "deref (heads m2) (Some 0) = Some (heads m2 ! 0)" using lens n(2) by simp
    show ?thesis
      unfolding core_list_init_def Let_def m list_mem.select_convs head Option.bind.bind_lunit n(1) [symmetric] tail prod.case
        m2(1) c d3(1) sort(1) ..
  qed
  then show ?thesis using wf' len' info' data' by blast
qed

section \<open>Properties\<close>

text \<open>
  C12: for every block that holds at least three list heads, \<open>core_list_init\<close> returns without leaving
  the two arrays. The list has one node less than the block has room for, in the stable order of the
  indexes; node \<open>x\<close> points to item \<open>x\<close>, and the items are the head, the tail, and the data computed
  from the seed and the insertion number.
\<close>

theorem core_list_init_ok:
  assumes "n = unat (list_size blksize)" and "3 \<le> n" and "n \<le> 2 ^ 30"
    and "length (heads m) = n" and "length (datas m) = n"
  shows "\<exists>p m'. core_list_init blksize m seed = Some (p, m')
    \<and> chain (heads m') p (sort_key (\<lambda>x. sint (idx (init_item (list_size blksize) seed x))) (init_order (n - 3)))
    \<and> length (heads m') = n \<and> length (datas m') = n
    \<and> (\<forall>x<n - 1. info (heads m' ! x) = x \<and> datas m' ! x = init_item (list_size blksize) seed x)"
  using core_list_init_eq [OF assms, of seed] by (auto simp: wf_list_def)

theorem core_list_init_ok_witness:
  "\<exists>p m'. core_list_init 100 \<lparr>heads = replicate 3 \<lparr>nxt = Some 9, info = 7\<rparr>, datas = replicate 3 \<lparr>data16 = 1, idx = 1\<rparr>\<rparr> 0
     = Some (p, m') \<and> chain (heads m') p [0, 1]"
proof -
  have "unat (list_size 100) = 3" by (simp add: list_size_def)
  then show ?thesis
    using core_list_init_ok [of 3 100 "\<lparr>heads = replicate 3 \<lparr>nxt = Some 9, info = 7\<rparr>, datas = replicate 3 \<lparr>data16 = 1, idx = 1\<rparr>\<rparr>" 0]
    by (auto simp: init_order_def init_item_def)
qed

text \<open>What the initialisation builds is in order and regenerated, when no two items share an index.\<close>

lemma core_list_init_pristine:
  assumes n: "n = unat (list_size blksize)" "3 \<le> n" "n \<le> 2 ^ 30" and len: "length (heads m) = n" "length (datas m) = n"
    and distinct: "distinct (map (\<lambda>x. idx (init_item (list_size blksize) seed x)) [0..<n - 1])"
  shows "\<exists>p m' xs. core_list_init blksize m seed = Some (p, m') \<and> wf_list m' p xs \<and> pristine m' xs
    \<and> length xs = n - 1"
proof -
  let ?k = "\<lambda>x. sint (idx (init_item (list_size blksize) seed x))"
  let ?xs = "sort_key ?k (init_order (n - 3))"
  obtain p m' where init: "core_list_init blksize m seed = Some (p, m')" "wf_list m' p ?xs"
    "\<forall>x<n - 1. info (heads m' ! x) = x \<and> datas m' ! x = init_item (list_size blksize) seed x"
    using core_list_init_eq [OF n len, of seed] by blast
  have set: "set ?xs = {..<n - 1}" using init_order_set [OF n(2)] by simp
  have item: "item_of m' x = init_item (list_size blksize) seed x" if "x \<in> set ?xs" for x
    using init(3) that unfolding set by (simp add: item_of_def)
  have "inj_on ?k {..<n - 1}"
    using distinct signed_word_eqI by (fastforce simp: distinct_map inj_on_def lessThan_atLeast0)
  then have "distinct (map ?k ?xs)"
    using init_order_distinct [of "n - 3"] set by (simp add: distinct_map)
  then have "sorted_wrt (<) (map ?k ?xs)"
    by (simp add: strict_sorted_iff)
  moreover have "map (\<lambda>x. sint (idx (item_of m' x))) ?xs = map ?k ?xs"
    using item by (intro map_cong refl) simp
  ultimately have "sorted_wrt (<) (map (\<lambda>x. sint (idx (item_of m' x))) ?xs)" by (simp only:)
  then have "pristine m' ?xs"
    unfolding pristine_def using item regen_init_item by simp
  moreover have "length ?xs = n - 1" using n(2) by (simp add: init_order_length)
  ultimately show ?thesis using init(1,2) by blast
qed

text \<open>Consecutive runs.\<close>

fun bench_runs :: "s16 list \<Rightarrow> core_results \<Rightarrow> list_mem \<Rightarrow> (core_results \<times> list_mem) option" where
  "bench_runs [] res m = Some (res, m)"
| "bench_runs (k # ks) res m =
     (case core_bench_list res k m of None \<Rightarrow> None | Some (r, res, m) \<Rightarrow> bench_runs ks res m)"

lemma bench_runs_pristine:
  assumes "wf_list m (res_list res) xs" and "3 \<le> length xs" and "length xs \<le> 2 ^ 30" and "results_ok res"
    and "pristine m xs"
  shows "\<exists>res'. bench_runs ks res m = Some (res', m) \<and> res_keeps res res'"
  using assms(1,4)
proof (induction ks arbitrary: res)
  case Nil
  then show ?case by (simp add: res_keeps_refl)
next
  case (Cons k ks)
  obtain r res1 where run: "core_bench_list res k m = Some (r, res1, m)" "res_keeps res res1"
    using bench_list_pristine [OF Cons.prems(1) assms(2,3) Cons.prems(2) assms(5)] by blast
  have "res_list res1 = res_list res" using run(2) by (simp add: res_keeps_def)
  then obtain res2 where "bench_runs ks res1 m = Some (res2, m)" "res_keeps res1 res2"
    using Cons.IH [of res1] Cons.prems(1) res_keeps_ok [OF run(2) Cons.prems(2)] by auto
  then show ?case using run res_keeps_trans by auto
qed

text \<open>
  C2: initialisation and benchmark together. When the seed gives the items of the block different
  indexes, any number of runs of \<open>core_bench_list\<close>, with any \<open>finder_idx\<close>, all return and leave the
  list memory as \<open>core_list_init\<close> built it.
\<close>

theorem core_list_init_bench:
  assumes "n = unat (list_size blksize)" and "4 \<le> n" and "n \<le> 2 ^ 30"
    and "length (heads m) = n" and "length (datas m) = n" and "results_ok res"
    and "distinct (map (\<lambda>x. idx (init_item (list_size blksize) seed x)) [0..<n - 1])"
  shows "\<exists>p m' res'. core_list_init blksize m seed = Some (p, m')
    \<and> bench_runs ks (res\<lparr>res_list := p\<rparr>) m' = Some (res', m')"
proof -
  obtain p m' xs where init: "core_list_init blksize m seed = Some (p, m')" "wf_list m' p xs" "pristine m' xs"
    "length xs = n - 1"
    using core_list_init_pristine [OF assms(1) _ assms(3-5) assms(7)] assms(2) by fastforce
  have l: "3 \<le> length xs" "length xs \<le> 2 ^ 30" using init(4) assms(2,3) by simp_all
  have "results_ok (res\<lparr>res_list := p\<rparr>) = results_ok res" by (simp add: results_ok_def)
  then show ?thesis
    using bench_runs_pristine [of m' "res\<lparr>res_list := p\<rparr>" xs ks] init(1-3) l assms(6) by auto
qed

theorem core_list_init_bench_witness:
  "\<exists>p m' res'. core_list_init 666 \<lparr>heads = replicate 31 \<lparr>nxt = None, info = 0\<rparr>, datas = replicate 31 \<lparr>data16 = 0, idx = 0\<rparr>\<rparr> 0
     = Some (p, m') \<and> bench_runs [1, -1, 1, -1] (small_results\<lparr>res_list := p\<rparr>) m' = Some (res', m')"
proof -
  have "list_size 666 = 31" by (simp add: list_size_def)
  moreover have "distinct (map (\<lambda>x. idx (init_item 31 0 x)) [0..<30])"
    by (simp add: upt_rec init_item_def item_index_def)
  ultimately show ?thesis
    using core_list_init_bench [of 31 666 "\<lparr>heads = replicate 31 \<lparr>nxt = None, info = 0\<rparr>, datas = replicate 31 \<lparr>data16 = 0, idx = 0\<rparr>\<rparr>"
        small_results 0 "[1, -1, 1, -1]"] small_results_ok by simp
qed

end
