(* ===== verification/ListSim.thy ===== *)
theory ListSim
  imports ListInit
begin

text \<open>
  What a run of the benchmark depends on. Two results structures that agree on the seeds, the inputs
  of the embedded benchmarks, the list and the running checksums give the same run, whatever their
  iteration counts, result matrices, error counts and list checksums are.
\<close>

section \<open>Simulation of the merge sort\<close>

definition follows ::
  "('s \<Rightarrow> 's \<Rightarrow> bool) \<Rightarrow> (nat \<Rightarrow> nat \<Rightarrow> 's \<Rightarrow> (s32 \<times> 's) option) \<Rightarrow> bool" where
  "follows R cmp \<longleftrightarrow> (\<forall>a b s s' r t. R s s' \<longrightarrow> cmp a b s = Some (r, t) \<longrightarrow>
     (\<exists>t'. cmp a b s' = Some (r, t') \<and> R t t'))"

lemma followsD:
  assumes "follows R cmp" and "R s s'" and "cmp a b s = Some (r, t)"
  obtains t' where "cmp a b s' = Some (r, t')" and "R t t'"
  using assms unfolding follows_def by blast

lemma take_p_follows:
  assumes "follows R cmp" and "R s s'" and "take_p cmp p psize q qsize h s = Some (b, t)"
  obtains t' where "take_p cmp p psize q qsize h s' = Some (b, t')" and "R t t'"
proof (cases "psize = 0 \<or> qsize = 0 \<or> q = None")
  case True
  then show ?thesis
    using that assms(2,3) by (auto simp: take_p_def split: if_splits)
next
  case False
  then obtain pc qc r where c: "deref h p = Some pc" "deref h q = Some qc" "cmp (info pc) (info qc) s = Some (r, t)"
    "b \<longleftrightarrow> sint r \<le> 0"
    using assms(3) by (auto simp: take_p_def bind_eq_Some_iff)
  obtain t' where t': "cmp (info pc) (info qc) s' = Some (r, t')" "R t t'"
    using followsD [OF assms(1,2) c(3)] .
  have "take_p cmp p psize q qsize h s' = Some (b, t')"
    using False c(1,2,4) t'(1) by (auto simp: take_p_def)
  then show ?thesis using t'(2) by (rule that)
qed

lemma merge_loop_follows:
  assumes "follows R cmp" and "R s s'" and "merge_loop cmp p psize q qsize lst tail h s = Some (q', l', t', h', u)"
  shows "\<exists>u'. merge_loop cmp p psize q qsize lst tail h s' = Some (q', l', t', h', u') \<and> R u u'"
  using assms
proof (induction cmp p psize q qsize lst tail h s arbitrary: s' rule: merge_loop.induct)
  case (1 cmp p psize q qsize lst tail h s)
  show ?case
  proof (cases "0 < psize \<or> 0 < qsize \<and> q \<noteq> None")
    case False
    then have "merge_loop cmp p psize q qsize lst tail h z = Some (q, lst, tail, h, z)" for z
      by (simp only: merge_loop.simps [of cmp p psize q] if_False)
    then show ?thesis using "1.prems" by simp
  next
    case True
    obtain b t where t: "take_p cmp p psize q qsize h s = Some (b, t)"
      using "1.prems"(3) True by (auto simp: merge_loop.simps [of cmp p psize q] split: option.splits)
    obtain s1 where s1: "take_p cmp p psize q qsize h s' = Some (b, s1)" "R t s1"
      using take_p_follows [OF "1.prems"(1,2) t] .
    define e where "e = (if b then p else q)"
    have "\<exists>c h1. deref h (if b then p else q) = Some c
        \<and> (if tail \<noteq> None then set_next tail (if b then p else q) h else Some h) = Some h1"
      using "1.prems"(3) True t
      by (auto simp: merge_loop.simps [of cmp p psize q] Let_def split: option.splits)
    then obtain c h1 where c: "deref h e = Some c" "(if tail \<noteq> None then set_next tail e h else Some h) = Some h1"
      unfolding e_def by blast
    have step: "merge_loop cmp p psize q qsize lst tail h z =
        (if b then merge_loop cmp (nxt c) (psize - 1) q qsize (if tail \<noteq> None then lst else e) e h1 z'
         else merge_loop cmp p psize (nxt c) (qsize - 1) (if tail \<noteq> None then lst else e) e h1 z')"
      if "take_p cmp p psize q qsize h z = Some (b, z')" for z z'
      using True c that unfolding merge_loop.simps [of cmp p psize q qsize lst tail h z] e_def
      by (simp only: if_True option.case prod.case Let_def)
    show ?thesis
    proof (cases b)
      case True
      note IH = "1.IH"(1) [OF \<open>0 < psize \<or> 0 < qsize \<and> q \<noteq> None\<close> t refl e_def c True "1.prems"(1) s1(2)]
      show ?thesis
        using "1.prems"(3) IH unfolding step [OF t] step [OF s1(1)] if_P [OF True] by blast
    next
      case False
      note IH = "1.IH"(2) [OF True t refl e_def c False "1.prems"(1) s1(2)]
      show ?thesis
        using "1.prems"(3) IH unfolding step [OF t] step [OF s1(1)] if_not_P [OF False] by blast
    qed
  qed
qed


lemma pass_loop_follows:
  assumes "follows R cmp" and "R s s'" and "pass_loop cmp insize p nmerges lst tail h s = Some (n, l', t', h', u)"
  shows "\<exists>u'. pass_loop cmp insize p nmerges lst tail h s' = Some (n, l', t', h', u') \<and> R u u'"
proof -
  have "\<forall>s'. follows R cmp \<longrightarrow> R s s' \<longrightarrow>
     (case out of (n, l', t', h', u) \<Rightarrow>
        \<exists>u'. pass_loop cmp insize p nmerges lst tail h s' = Some (n, l', t', h', u') \<and> R u u')"
    if "pass_loop cmp insize p nmerges lst tail h s = Some out" for out
    using that
  proof (induction rule: pass_loop.raw_induct [rotated, consumes 1, case_names step])
    case (step pass cmp insize p nmerges lst tail h s out)
    show ?case
    proof (intro allI impI)
      fix s'
      assume f: "follows R cmp" and R: "R s s'"
      show "case out of (n, l', t', h', u) \<Rightarrow>
          \<exists>u'. pass_loop cmp insize p nmerges lst tail h s' = Some (n, l', t', h', u') \<and> R u u'"
      proof (cases "p = None")
        case True
        then show ?thesis using step(2) R by (auto simp: pass_loop.simps)
      next
        case False
        obtain q psize where 1: "step_loop insize p 0 h = Some (q, psize)"
          using step(2) False by (auto simp: bind_eq_Some_iff)
        obtain q1 l1 t1 h1 s1 where 2: "merge_loop cmp p psize q insize lst tail h s = Some (q1, l1, t1, h1, s1)"
          "pass cmp insize q1 (nmerges + 1) l1 t1 h1 s1 = Some out"
          using step(2) False 1 by (auto simp: bind_eq_Some_iff)
        obtain s2 where 3: "merge_loop cmp p psize q insize lst tail h s' = Some (q1, l1, t1, h1, s2)" "R s1 s2"
          using merge_loop_follows [OF f R 2(1)] by blast
        have "pass_loop cmp insize p nmerges lst tail h s' = pass_loop cmp insize q1 (nmerges + 1) l1 t1 h1 s2"
          using False 1 3(1) by (subst pass_loop.simps) auto
        then show ?thesis using step(1) [OF 2(2)] f 3(2) by (auto split: prod.splits)
      qed
    qed
  qed
  from this [OF assms(3)] assms(1,2) show ?thesis by simp
qed

lemma sort_loop_follows:
  assumes "follows R cmp" and "R s s'" and "sort_loop cmp insize p h s = Some (l', h', u)"
  shows "\<exists>u'. sort_loop cmp insize p h s' = Some (l', h', u') \<and> R u u'"
proof -
  have "\<forall>s'. follows R cmp \<longrightarrow> R s s' \<longrightarrow>
     (case out of (l', h', u) \<Rightarrow> \<exists>u'. sort_loop cmp insize p h s' = Some (l', h', u') \<and> R u u')"
    if "sort_loop cmp insize p h s = Some out" for out
    using that
  proof (induction rule: sort_loop.raw_induct [rotated, consumes 1, case_names step])
    case (step sort cmp insize p h s out)
    show ?case
    proof (intro allI impI)
      fix s'
      assume f: "follows R cmp" and R: "R s s'"
      obtain n l1 t1 h1 s1 h2 where 1: "pass_loop cmp insize p 0 None None h s = Some (n, l1, t1, h1, s1)"
        "set_next t1 None h1 = Some h2"
        using step(2) by (auto simp: bind_eq_Some_iff)
      obtain s2 where 2: "pass_loop cmp insize p 0 None None h s' = Some (n, l1, t1, h1, s2)" "R s1 s2"
        using pass_loop_follows [OF f R 1(1)] by blast
      show "case out of (l', h', u) \<Rightarrow> \<exists>u'. sort_loop cmp insize p h s' = Some (l', h', u') \<and> R u u'"
      proof (cases "n \<le> 1")
        case True
        then have "out = (l1, h2, s1)" using step(2) 1 by simp
        moreover have "sort_loop cmp insize p h s' = Some (l1, h2, s2)"
          using True 1(2) 2(1) by (subst sort_loop.simps) simp
        ultimately show ?thesis using 2(2) by simp
      next
        case False
        then have small: "\<not> insize * 2 \<ge> 2 ^ 31" and more: "sort cmp (insize * 2) l1 h2 s1 = Some out"
          using step(2) 1 by (auto split: if_splits)
        have "sort_loop cmp insize p h s' = sort_loop cmp (insize * 2) l1 h2 s2"
          using False small 1(2) 2(1) by (subst sort_loop.simps) simp
        then show ?thesis using step(1) [OF more] f 2(2) by (auto split: prod.splits)
      qed
    qed
  qed
  from this [OF assms(3)] assms(1,2) show ?thesis by simp
qed

lemma mergesort_follows:
  "follows R cmp \<Longrightarrow> R s s' \<Longrightarrow> core_list_mergesort p cmp h s = Some (l', h', u) \<Longrightarrow>
   \<exists>u'. core_list_mergesort p cmp h s' = Some (l', h', u') \<and> R u u'"
  unfolding core_list_mergesort_def by (rule sort_loop_follows)


section \<open>Results structures that give the same run\<close>

definition same_run :: "core_results \<Rightarrow> core_results \<Rightarrow> bool" where
  "same_run r r' \<longleftrightarrow> res_seed1 r' = res_seed1 r \<and> res_seed2 r' = res_seed2 r \<and> res_seed3 r' = res_seed3 r
     \<and> res_memblock3 r' = res_memblock3 r \<and> res_size r' = res_size r \<and> res_list r' = res_list r
     \<and> matN (res_mat r') = matN (res_mat r) \<and> matA (res_mat r') = matA (res_mat r)
     \<and> matB (res_mat r') = matB (res_mat r) \<and> mat_ok (res_mat r) \<and> mat_ok (res_mat r')
     \<and> res_crc r' = res_crc r \<and> res_crcmatrix r' = res_crcmatrix r \<and> res_crcstate r' = res_crcstate r"

lemma core_bench_matrix_same:
  assumes "matN q = matN p" and "matA q = matA p" and "matB q = matB p" and "mat_ok p" and "mat_ok q"
  shows "\<exists>crc' C. core_bench_matrix p val crc = Some (crc', p\<lparr>matC := C\<rparr>)
    \<and> core_bench_matrix q val crc = Some (crc', q\<lparr>matC := C\<rparr>) \<and> length C = length (matC p)"
proof -
  let ?n = "unat (matN p)"
  have sq: "square (matN p) ?n" and len: "length (matA p) = ?n * ?n" "length (matB p) = ?n * ?n"
    "length (matC p) = ?n * ?n" "length (matC q) = ?n * ?n"
    using assms by (auto simp: mat_ok_def square_def Let_def)
  obtain r C where "\<And>C0. length C0 = ?n * ?n \<Longrightarrow> matrix_test (matN p) C0 (matA p) (matB p) val = Some (r, C, matA p)"
    "length C = ?n * ?n"
    using matrix_test_eq [OF sq len(1,2)] by (simp add: Let_def mat_prod_def)
  then show ?thesis using len assms(1-3)
    by (intro exI [of _ "crc16 r crc"] exI [of _ C]) (simp add: core_bench_matrix_def)
qed

lemma calc_func_same:
  assumes s: "same_run r r'" and run: "calc_func data r = Some (v, d, t)"
  shows "\<exists>t'. calc_func data r' = Some (v, d, t') \<and> same_run t t'"
proof (cases "signed_drop_bit 7 data AND 1 \<noteq> 0")
  case True
  then show ?thesis using s run by (auto simp: calc_func_def)
next
  case False
  let ?flag = "data AND 0x7"
  let ?d = "signed_drop_bit 3 data AND 0xf"
  let ?dtype = "?d OR push_bit 4 ?d"
  define step where "step = (if sint ?dtype < 0x22 then 0x22 else ?dtype)"
  have f: "res_seed1 r' = res_seed1 r" "res_seed2 r' = res_seed2 r" "res_memblock3 r' = res_memblock3 r"
    "res_size r' = res_size r" "res_crc r' = res_crc r" "res_crcstate r' = res_crcstate r"
    "res_crcmatrix r' = res_crcmatrix r"
    using s by (simp_all add: same_run_def)
  consider "?flag = 0" | "?flag \<noteq> 0" "?flag = 1" | "?flag \<noteq> 0" "?flag \<noteq> 1" by blast
  then show ?thesis
  proof cases
    case 1
    obtain w mem where b: "core_bench_state (res_size r) (res_memblock3 r) (res_seed1 r) (res_seed2 r) step (res_crc r) = Some (w, mem)"
      using run False 1 unfolding calc_func_def Let_def step_def by (auto simp: bind_eq_Some_iff)
    show ?thesis
      using run s unfolding calc_func_def Let_def if_not_P [OF False] if_P [OF 1] step_def [symmetric] f b
      by (auto simp: same_run_def f)
  next
    case 2
    obtain w C where b: "core_bench_matrix (res_mat r) ?dtype (res_crc r) = Some (w, (res_mat r)\<lparr>matC := C\<rparr>)"
      "core_bench_matrix (res_mat r') ?dtype (res_crc r) = Some (w, (res_mat r')\<lparr>matC := C\<rparr>)"
      "length C = length (matC (res_mat r))"
      using core_bench_matrix_same [of "res_mat r'" "res_mat r" ?dtype "res_crc r"] s by (auto simp: same_run_def)
    show ?thesis
      using run s b(3) unfolding calc_func_def Let_def if_not_P [OF False] if_not_P [OF 2(1)] if_P [OF 2(2)] f b(1,2)
      by (auto simp: same_run_def f mat_ok_def Let_def)
  next
    case 3
    show ?thesis
      using run s unfolding calc_func_def Let_def if_not_P [OF False] if_not_P [OF 3(1)] if_not_P [OF 3(2)] f
      by (auto simp: same_run_def f)
  qed
qed

text \<open>The states of the sort by value.\<close>

definition same_state :: "cmp_state \<Rightarrow> cmp_state \<Rightarrow> bool" where
  "same_state s s' \<longleftrightarrow> fst s' = fst s \<and> (\<exists>r r'. snd s = Some r \<and> snd s' = Some r' \<and> same_run r r')"

lemma calc_item_same:
  assumes "same_state s s'" and "calc_item a s = Some (v, t)"
  shows "\<exists>t'. calc_item a s' = Some (v, t') \<and> same_state t t'"
proof -
  obtain d r r' where s: "s = (d, Some r)" "s' = (d, Some r')" "same_run r r'"
    using assms(1) by (cases s; cases s') (auto simp: same_state_def)
  obtain item data r1 where c: "aget d a = Some item" "calc_func (data16 item) r = Some (v, data, r1)"
    "t = (d[a := item\<lparr>data16 := data\<rparr>], Some r1)"
    using assms(2) by (auto simp: calc_item_def s(1) bind_eq_Some_iff)
  obtain r2 where "calc_func (data16 item) r' = Some (v, data, r2)" "same_run r1 r2"
    using calc_func_same [OF s(3) c(2)] by blast
  then show ?thesis using c by (simp add: calc_item_def s(2) same_state_def)
qed

lemma cmp_complex_follows: "follows same_state cmp_complex"
  unfolding follows_def
proof (intro allI impI)
  fix a b s s' r t
  assume s: "same_state s s'" and run: "cmp_complex a b s = Some (r, t)"
  obtain v1 s1 v2 where 1: "calc_item a s = Some (v1, s1)" "calc_item b s1 = Some (v2, t)" "r = scast v1 - scast v2"
    using run by (auto simp: cmp_complex_def bind_eq_Some_iff)
  obtain s1' where 2: "calc_item a s' = Some (v1, s1')" "same_state s1 s1'" using calc_item_same [OF s 1(1)] by blast
  obtain t' where 3: "calc_item b s1' = Some (v2, t')" "same_state t t'" using calc_item_same [OF 2(2) 1(2)] by blast
  show "\<exists>t'. cmp_complex a b s' = Some (r, t') \<and> same_state t t'"
    using 1(3) 2(1) 3 by (simp add: cmp_complex_def)
qed

text \<open>The benchmark.\<close>

lemma core_bench_list_same:
  assumes s: "same_run r r'" and run: "core_bench_list r k m = Some (v, t, m1)"
  shows "\<exists>t'. core_bench_list r' k m = Some (v, t', m1) \<and> same_run t t'"
proof -
  have f: "res_seed3 r' = res_seed3 r" "res_list r' = res_list r" using s by (simp_all add: same_run_def)
  define st0 where "st0 = \<lparr>f_list = res_list r, f_idx = k, f_retval = 0, f_found = 0, f_missed = 0, f_heads = heads m\<rparr>"
  obtain st where st: "for_loop (nat (sint (res_seed3 r))) (\<lambda>i st. find_round (datas m) (of_nat i) st) st0 = Some st"
    using run by (auto simp: core_bench_list_def Let_def st0_def bind_eq_Some_iff)
  define phase where "phase x = (if sint k > 0
      then core_list_mergesort (f_list st) cmp_complex (f_heads st) (datas m, Some x)
      else Some (f_list st, f_heads st, datas m, Some x))" for x
  obtain lst h d o1 where p: "phase r = Some (lst, h, d, o1)"
    using run by (auto simp: core_bench_list_def Let_def st0_def [symmetric] st phase_def bind_eq_Some_iff)
  have "\<exists>u'. phase r' = Some (lst, h, u') \<and> same_state (d, o1) u'"
  proof (cases "sint k > 0")
    case True
    have "same_state (datas m, Some r) (datas m, Some r')" using s by (simp add: same_state_def)
    then show ?thesis
      using mergesort_follows [OF cmp_complex_follows] p True by (simp add: phase_def)
  next
    case False
    then show ?thesis using p s by (auto simp: phase_def same_state_def)
  qed
  then obtain t1 t2 where p': "phase r' = Some (lst, h, d, Some t2)" "o1 = Some t1" "same_run t1 t2"
    by (auto simp: same_state_def)
  define itm where "itm = \<lparr>data16 = (if nat (sint (res_seed3 r)) = 0 then 0 else of_nat (nat (sint (res_seed3 r)) - 1) AND 0xff),
    idx = f_idx st\<rparr>"
  define rv where "rv = f_retval st + (f_found st * 4 - f_missed st)"
  note body = core_bench_list_def Let_def f st0_def [symmetric] st Option.bind.bind_lunit phase_def [symmetric] prod.case
    itm_def [symmetric] rv_def [symmetric]
  obtain c rm h1 fi c1 rv1 rm1 h2 l2 c2 where e: "deref h lst = Some c" "core_list_remove (nxt c) h = Some (rm, h1)"
    "core_list_find lst itm \<lparr>heads = h1, datas = d\<rparr> = Some fi" "deref h1 lst = Some c1"
    "crc_loop lst (if fi = None then nxt c1 else fi) rv \<lparr>heads = h1, datas = d\<rparr> = Some rv1"
    "core_list_undo_remove rm (nxt c1) h1 = Some (rm1, h2)" "sort_by_idx lst \<lparr>heads = h2, datas = d\<rparr> = Some (l2, m1)"
    "deref (heads m1) l2 = Some c2" "crc_loop l2 (nxt c2) rv1 m1 = Some v" "t = t1"
    using run unfolding body p p'(2) by (elim bind_eq_SomeE) (auto elim!: bind_eq_SomeE)
  have "core_bench_list r' k m = Some (v, t2, m1)"
    unfolding body p'(1) e(1-9) ..
  then show ?thesis using p'(3) e(10) by blast
qed

end
