(* ===== verification/Printf.thy ===== *)
theory Printf
  imports Prelude "HOL-Library.Monad_Syntax"
begin

text \<open>
  Formatted output, coremark/multiplix/ee_printf.c, without the conversions of \<open>HAS_FLOAT\<close>.

  A C string is the list of its characters before the terminating zero; the pointer \<open>fmt\<close> is the
  rest of the format string. A routine that writes through \<open>str\<close> returns what it writes. A variable
  argument is a 64 bit slot, a string (or \<open>NULL\<close>), or a pointer to the bytes of an address; reading
  one of another kind, or one too many, is \<open>None\<close>, and so is a \<open>skip_atoi\<close> that overflows its
  \<open>int\<close>, the negation of the least \<open>int\<close> or \<open>long\<close>, and an \<open>ee_printf\<close> that runs over its buffer. The
  other \<open>int\<close> variables are mathematical integers: they count output characters, and the buffer is
  overrun long before one could overflow.
\<close>

section \<open>The code\<close>

record flags =
  ZEROPAD :: bool
  SIGN :: bool
  PLUS :: bool
  SPACE :: bool
  LEFT :: bool
  HEX_PREP :: bool
  UPPERCASE :: bool

definition no_flags :: flags where
  "no_flags = \<lparr>ZEROPAD = False, SIGN = False, PLUS = False, SPACE = False, LEFT = False, HEX_PREP = False, UPPERCASE = False\<rparr>"

definition digits :: string where
  "digits = ''0123456789abcdefghijklmnopqrstuvwxyz''"

definition upper_digits :: string where
  "upper_digits = ''0123456789ABCDEFGHIJKLMNOPQRSTUVWXYZ''"

definition dig_of :: "flags \<Rightarrow> string" where
  "dig_of ty = (if UPPERCASE ty then upper_digits else digits)"

definition is_digit_char :: "char \<Rightarrow> bool" where
  "is_digit_char c \<longleftrightarrow> 48 \<le> (of_char c :: int) \<and> (of_char c :: int) \<le> 57"

fun strnlen :: "string \<Rightarrow> u64 \<Rightarrow> nat" where
  "strnlen [] cnt = 0"
| "strnlen (c # s) cnt = (if cnt \<noteq> 0 then Suc (strnlen s (cnt - 1)) else 0)"

fun skip_atoi :: "int \<Rightarrow> string \<Rightarrow> (int \<times> string) option" where
  "skip_atoi i [] = Some (i, [])"
| "skip_atoi i (c # s) =
     (if is_digit_char c
      then if i * 10 + of_char c \<ge> 2 ^ 31 then None else skip_atoi (i * 10 + of_char c - 48) s
      else Some (i, c # s))"

text \<open>\<open>while (size-- > 0) *str++ = c\<close>: the output and the final \<open>size\<close>.\<close>

definition pad :: "char \<Rightarrow> int \<Rightarrow> string \<times> int" where
  "pad c sz = (replicate (nat sz) c, (if sz > 0 then 0 else sz) - 1)"

text \<open>The digits of a nonzero number, the least significant first, as \<open>tmp\<close> holds them.\<close>

function digit_loop :: "string \<Rightarrow> u64 \<Rightarrow> nat \<Rightarrow> string" where
  "digit_loop dig num base =
     (if num \<noteq> 0 \<and> 2 \<le> base
      then dig ! (unat num mod base) # digit_loop dig (of_nat (unat num div base)) base
      else [])"
  by pat_completeness auto
termination
proof (relation "measure (\<lambda>(dig, num, base). unat num)")
  fix dig :: string and num :: u64 and base :: nat
  assume a: "num \<noteq> 0 \<and> 2 \<le> base"
  have "unat num div base < 2 ^ 64"
    using le_less_trans [OF div_le_dividend unat_bound [of num]] by simp
  then have "unat (of_nat (unat num div base) :: u64) = unat num div base"
    by (simp add: unat_of_nat)
  also have "\<dots> < unat num" using a by (simp add: unat_gt_0)
  finally show "((dig, of_nat (unat num div base), base), dig, num, base) \<in> measure (\<lambda>(dig, num, base). unat num)"
    by simp
qed simp

declare digit_loop.simps [simp del]

definition number :: "u64 \<Rightarrow> int \<Rightarrow> int \<Rightarrow> int \<Rightarrow> flags \<Rightarrow> string option" where
  "number num base sz precision ty =
     (let dig = dig_of ty;
          ty = (if LEFT ty then ty\<lparr>ZEROPAD := False\<rparr> else ty) in
      if base < 2 \<or> base > 36 then None
      else if SIGN ty \<and> num = 2 ^ 63 then None
      else
      let c = (if ZEROPAD ty then CHR ''0'' else CHR '' '');
          (sign, num, sz) =
            (if SIGN ty
             then if sint num < 0 then (''-'', - num, sz - 1)
                  else if PLUS ty then (''+'', num, sz - 1)
                  else if SPACE ty then ('' '', num, sz - 1)
                  else ('''', num, sz)
             else ('''', num, sz));
          sz = (if HEX_PREP ty then if base = 16 then sz - 2 else if base = 8 then sz - 1 else sz else sz);
          tmp = (if num = 0 then ''0'' else digit_loop dig num (nat base));
          i = int (length tmp);
          precision = (if i > precision then i else precision);
          sz = sz - precision;
          (pad1, sz) = (if \<not> (ZEROPAD ty \<or> LEFT ty) then pad CHR '' '' sz else ('''', sz));
          prefix = (if HEX_PREP ty
                    then if base = 8 then ''0'' else if base = 16 then [CHR ''0'', digits ! 33] else ''''
                    else '''');
          (pad2, sz) = (if \<not> LEFT ty then pad c sz else ('''', sz));
          zeros = replicate (nat (precision - i)) CHR ''0'';
          (pad3, sz) = pad CHR '' '' sz
      in Some (pad1 @ sign @ prefix @ pad2 @ zeros @ rev tmp @ pad3))"

text \<open>\<open>while (len < size--) *str++ = ' '\<close>.\<close>

definition pad_to :: "int \<Rightarrow> int \<Rightarrow> string \<times> int" where
  "pad_to len sz = (replicate (nat (sz - len)) CHR '' '', (if len < sz then len else sz) - 1)"

definition justify :: "flags \<Rightarrow> string \<Rightarrow> int \<Rightarrow> string" where
  "justify ty tmp sz =
     (let len = int (length tmp);
          (pad1, sz) = (if \<not> LEFT ty then pad_to len sz else ('''', sz));
          (pad2, sz) = pad_to len sz
      in pad1 @ tmp @ pad2)"

fun eaddr_tmp :: "string \<Rightarrow> nat \<Rightarrow> u8 list \<Rightarrow> nat \<Rightarrow> string option" where
  "eaddr_tmp dig 0 addr i = Some ''''"
| "eaddr_tmp dig (Suc n) addr i = do {
     a \<leftarrow> aget addr i;
     rest \<leftarrow> eaddr_tmp dig n addr (Suc i);
     Some ((if i \<noteq> 0 then '':'' else '''') @ [dig ! unat (drop_bit 4 a), dig ! unat (a AND 0x0f)] @ rest)
   }"

definition eaddr :: "u8 list \<Rightarrow> int \<Rightarrow> flags \<Rightarrow> string option" where
  "eaddr addr sz ty = map_option (\<lambda>tmp. justify ty tmp sz) (eaddr_tmp (dig_of ty) 6 addr 0)"

definition iaddr_part :: "u8 \<Rightarrow> string" where
  "iaddr_part a =
     (let n = unat a in
      if n = 0 then [digits ! 0]
      else if n \<ge> 100 then [digits ! (n div 100), digits ! (n mod 100 div 10), digits ! (n mod 100 mod 10)]
      else if n \<ge> 10 then [digits ! (n div 10), digits ! (n mod 10)]
      else [digits ! n])"

fun iaddr_tmp :: "nat \<Rightarrow> u8 list \<Rightarrow> nat \<Rightarrow> string option" where
  "iaddr_tmp 0 addr i = Some ''''"
| "iaddr_tmp (Suc n) addr i = do {
     a \<leftarrow> aget addr i;
     rest \<leftarrow> iaddr_tmp n addr (Suc i);
     Some ((if i \<noteq> 0 then ''.'' else '''') @ iaddr_part a @ rest)
   }"

definition iaddr :: "u8 list \<Rightarrow> int \<Rightarrow> flags \<Rightarrow> string option" where
  "iaddr addr sz ty = map_option (\<lambda>tmp. justify ty tmp sz) (iaddr_tmp 4 addr 0)"

section \<open>Directives\<close>

datatype varg = VNum u64 | VStr "string option" | VAddr "u8 list"

fun arg_num :: "varg list \<Rightarrow> (u64 \<times> varg list) option" where
  "arg_num (VNum w # as) = Some (w, as)"
| "arg_num _ = None"

text \<open>\<open>va_arg(args, int)\<close>.\<close>

definition arg_int :: "varg list \<Rightarrow> (s32 \<times> varg list) option" where
  "arg_int args = map_option (\<lambda>(w, as). (ucast w, as)) (arg_num args)"

fun parse_flags :: "flags \<Rightarrow> string \<Rightarrow> flags \<times> string" where
  "parse_flags fl [] = (fl, [])"
| "parse_flags fl (c # s) =
     (if c = CHR ''-'' then parse_flags (fl\<lparr>LEFT := True\<rparr>) s
      else if c = CHR ''+'' then parse_flags (fl\<lparr>PLUS := True\<rparr>) s
      else if c = CHR '' '' then parse_flags (fl\<lparr>SPACE := True\<rparr>) s
      else if c = CHR ''#'' then parse_flags (fl\<lparr>HEX_PREP := True\<rparr>) s
      else if c = CHR ''0'' then parse_flags (fl\<lparr>ZEROPAD := True\<rparr>) s
      else (fl, c # s))"

definition starts :: "char \<Rightarrow> string \<Rightarrow> bool" where
  "starts c s \<longleftrightarrow> (case s of [] \<Rightarrow> False | d # _ \<Rightarrow> d = c)"

definition starts_digit :: "string \<Rightarrow> bool" where
  "starts_digit s \<longleftrightarrow> (case s of [] \<Rightarrow> False | d # _ \<Rightarrow> is_digit_char d)"

definition parse_width :: "flags \<Rightarrow> string \<Rightarrow> varg list \<Rightarrow> (int \<times> flags \<times> string \<times> varg list) option" where
  "parse_width fl s args =
     (if starts_digit s then map_option (\<lambda>(w, s). (w, fl, s, args)) (skip_atoi 0 s)
      else if starts CHR ''*'' s
      then do {
        (w, args) \<leftarrow> arg_int args;
        if sint w = - (2 ^ 31) then None
        else if sint w < 0 then Some (- sint w, fl\<lparr>LEFT := True\<rparr>, tl s, args)
        else Some (sint w, fl, tl s, args)
      }
      else Some (-1, fl, s, args))"

definition parse_precision :: "string \<Rightarrow> varg list \<Rightarrow> (int \<times> string \<times> varg list) option" where
  "parse_precision s args =
     (if \<not> starts CHR ''.'' s then Some (-1, s, args)
      else
        let s = tl s in
        map_option (\<lambda>(p, s, args). (if p < 0 then 0 else p, s, args))
          (if starts_digit s then map_option (\<lambda>(p, s). (p, s, args)) (skip_atoi 0 s)
           else if starts CHR ''*'' s then map_option (\<lambda>(w, args). (sint w, tl s, args)) (arg_int args)
           else Some (-1, s, args)))"

text \<open>
  The \<open>switch\<close> on the conversion character, with the code after it for the integer conversions. It
  returns the output and the remaining arguments; the format string moves on by one character, unless
  it has ended.
\<close>

definition convert_num ::
  "bool \<Rightarrow> int \<Rightarrow> int \<Rightarrow> int \<Rightarrow> flags \<Rightarrow> varg list \<Rightarrow> (string \<times> varg list) option" where
  "convert_num long base width precision fl args = do {
     (w, args) \<leftarrow> arg_num args;
     let num = (if long then w else if SIGN fl then scast (ucast w :: s32) else ucast (ucast w :: u32));
     out \<leftarrow> number num base width precision fl;
     Some (out, args)
   }"

definition convert_c :: "int \<Rightarrow> flags \<Rightarrow> varg list \<Rightarrow> (string \<times> varg list) option" where
  "convert_c width fl args = do {
     (w, args) \<leftarrow> arg_int args;
     let fill = replicate (nat (width - 1)) CHR '' '';
     let ch = char_of (unat w);
     Some (if LEFT fl then ch # fill else fill @ [ch], args)
   }"

definition convert_s ::
  "int \<Rightarrow> int \<Rightarrow> flags \<Rightarrow> varg list \<Rightarrow> (string \<times> varg list) option" where
  "convert_s width precision fl args =
     (case args of
        VStr s # args \<Rightarrow>
          let s = (case s of None \<Rightarrow> ''<NULL>'' | Some s \<Rightarrow> s);
              len = strnlen s (word_of_int precision)
          in Some (justify fl (take len s) width, args)
      | _ \<Rightarrow> None)"

definition convert_p ::
  "int \<Rightarrow> int \<Rightarrow> flags \<Rightarrow> varg list \<Rightarrow> (string \<times> varg list) option" where
  "convert_p width precision fl args =
     (if width = -1 then convert_num True 16 16 precision (fl\<lparr>ZEROPAD := True\<rparr>) args
      else convert_num True 16 width precision fl args)"

definition convert_a ::
  "bool \<Rightarrow> int \<Rightarrow> flags \<Rightarrow> varg list \<Rightarrow> (string \<times> varg list) option" where
  "convert_a long width fl args =
     (case args of
        VAddr addr # args \<Rightarrow>
          map_option (\<lambda>out. (out, args)) (if long then eaddr addr width fl else iaddr addr width fl)
      | _ \<Rightarrow> None)"

fun convert ::
  "bool \<Rightarrow> int \<Rightarrow> int \<Rightarrow> flags \<Rightarrow> string \<Rightarrow> varg list \<Rightarrow> (string \<times> varg list) option" where
  "convert long width precision fl [] args = Some (''%'', args)"
| "convert long width precision fl (c # rest) args =
     (if c = CHR ''c'' then convert_c width fl args
      else if c = CHR ''s'' then convert_s width precision fl args
      else if c = CHR ''p'' then convert_p width precision fl args
      else if c = CHR ''A'' then convert_a long width (fl\<lparr>UPPERCASE := True\<rparr>) args
      else if c = CHR ''a'' then convert_a long width fl args
      else if c = CHR ''o'' then convert_num long 8 width precision fl args
      else if c = CHR ''X'' then convert_num long 16 width precision (fl\<lparr>UPPERCASE := True\<rparr>) args
      else if c = CHR ''x'' then convert_num long 16 width precision fl args
      else if c = CHR ''d'' \<or> c = CHR ''i'' then convert_num long 10 width precision (fl\<lparr>SIGN := True\<rparr>) args
      else if c = CHR ''u'' then convert_num long 10 width precision fl args
      else Some ((if c \<noteq> CHR ''%'' then ''%'' else '''') @ [c], args))"

text \<open>Everything after a \<open>%\<close>. Only the qualifier \<open>l\<close> is ever tested for.\<close>

definition directive :: "string \<Rightarrow> varg list \<Rightarrow> (string \<times> string \<times> varg list) option" where
  "directive s args = do {
     let (fl, s) = parse_flags no_flags s;
     (width, fl, s, args) \<leftarrow> parse_width fl s args;
     (precision, s, args) \<leftarrow> parse_precision s args;
     let long = starts CHR ''l'' s;
     let s = (if starts CHR ''l'' s \<or> starts CHR ''L'' s then tl s else s);
     (out, args) \<leftarrow> convert long width precision fl s args;
     Some (out, tl s, args)
   }"

lemma parse_flags_length: "parse_flags fl s = (fl', s') \<Longrightarrow> length s' \<le> length s"
  by (induction fl s rule: parse_flags.induct) (auto split: if_splits)

lemma skip_atoi_length: "skip_atoi i s = Some (v, s') \<Longrightarrow> length s' \<le> length s"
  by (induction i s rule: skip_atoi.induct) (auto split: if_splits)

lemma parse_width_length: "parse_width fl s args = Some (w, fl', s', args') \<Longrightarrow> length s' \<le> length s"
  by (auto simp: parse_width_def split: if_splits dest: skip_atoi_length elim!: bind_eq_SomeE)

lemma parse_precision_length: "parse_precision s args = Some (p, s', args') \<Longrightarrow> length s' \<le> length s"
  by (auto simp: parse_precision_def Let_def split: if_splits dest!: skip_atoi_length)

lemma directive_length:
  assumes d: "directive s args = Some (out, s', args')"
  shows "length s' \<le> length s"
proof -
  obtain fl s1 where 1: "parse_flags no_flags s = (fl, s1)" by fastforce
  then obtain w fl2 s2 args2 where 2: "parse_width fl s1 args = Some (w, fl2, s2, args2)"
    using d by (auto simp: directive_def Let_def elim!: bind_eq_SomeE)
  then obtain p s3 args3 where 3: "parse_precision s2 args2 = Some (p, s3, args3)"
    using d 1 by (auto simp: directive_def Let_def elim!: bind_eq_SomeE)
  have "s' = tl (if starts CHR ''l'' s3 \<or> starts CHR ''L'' s3 then tl s3 else s3)"
    using d unfolding directive_def Let_def 1 prod.case 2 3 Option.bind.bind_lunit
    by (auto elim!: bind_eq_SomeE)
  then have "length s' \<le> length s3" by simp
  then show ?thesis
    using parse_flags_length [OF 1] parse_width_length [OF 2] parse_precision_length [OF 3] by simp
qed

section \<open>\<open>ee_vsprintf\<close> and \<open>ee_printf\<close>\<close>

function ee_vsprintf :: "string \<Rightarrow> varg list \<Rightarrow> string option" where
  "ee_vsprintf [] args = Some ''''"
| "ee_vsprintf (c # s) args =
     (if c \<noteq> CHR ''%'' then map_option ((#) c) (ee_vsprintf s args)
      else case directive s args of
             None \<Rightarrow> None
           | Some (out, s', args') \<Rightarrow> map_option ((@) out) (ee_vsprintf s' args'))"
  by pat_completeness auto
termination
  by (relation "measure (\<lambda>(s, args). length s)") (auto dest: directive_length)

text \<open>
  \<open>ee_printf\<close>: the characters it sends to the UART and the number it returns. The formatted text and
  its terminating zero have to fit the buffer; output stops at the first zero character.
\<close>

definition ee_printf :: "string \<Rightarrow> varg list \<Rightarrow> (string \<times> nat) option" where
  "ee_printf fmt args = do {
     out \<leftarrow> ee_vsprintf fmt args;
     if length out + 1 > 1024 then None
     else let sent = takeWhile (\<lambda>c. c \<noteq> char_of (0 :: nat)) out in Some (sent, length sent)
   }"

section \<open>Digits\<close>

text \<open>The digits of a number, least significant first, and the number they stand for.\<close>

function digit_list :: "nat \<Rightarrow> nat \<Rightarrow> nat list" where
  "digit_list base n = (if n = 0 \<or> base < 2 then [] else n mod base # digit_list base (n div base))"
  by pat_completeness auto
termination by (relation "measure snd") auto

declare digit_list.simps [simp del]

definition digits_value :: "nat \<Rightarrow> nat list \<Rightarrow> nat" where
  "digits_value base ds = foldr (\<lambda>d v. d + base * v) ds 0"

lemma digit_loop_list: "digit_loop dig num base = map ((!) dig) (digit_list base (unat num))"
proof (induction dig num base rule: digit_loop.induct)
  case (1 dig num base)
  have "unat num div base < 2 ^ 64"
    using le_less_trans [OF div_le_dividend unat_bound [of num]] by simp
  then have "unat (of_nat (unat num div base) :: u64) = unat num div base"
    by (simp add: unat_of_nat)
  with 1 show ?case
    by (subst digit_loop.simps, subst digit_list.simps) (auto simp: unat_eq_0)
qed

lemma digit_list_value: "2 \<le> base \<Longrightarrow> digits_value base (digit_list base n) = n"
proof (induction base n rule: digit_list.induct)
  case (1 base n)
  then show ?case
    by (subst digit_list.simps) (auto simp: digits_value_def)
qed

lemma digit_list_less: "d \<in> set (digit_list base n) \<Longrightarrow> d < base"
proof (induction base n rule: digit_list.induct)
  case (1 base n)
  show ?case
    using "1.prems" "1.IH" by (subst (asm) digit_list.simps) (auto split: if_splits)
qed

lemma digit_list_length: "2 \<le> base \<Longrightarrow> n < base ^ k \<Longrightarrow> length (digit_list base n) \<le> k"
proof (induction k arbitrary: n)
  case 0
  then show ?case by (simp add: digit_list.simps)
next
  case (Suc k)
  have "n div base < base ^ k"
    using Suc.prems by (simp add: less_mult_imp_div_less mult.commute)
  then show ?case
    using Suc.IH Suc.prems(1) by (subst digit_list.simps) auto
qed

lemma digit_loop_length: "2 \<le> base \<Longrightarrow> length (digit_loop dig num base) \<le> 64"
proof -
  assume b: "2 \<le> base"
  have "unat num < 2 ^ 64" using unat_bound [of num] by simp
  also have "2 ^ 64 \<le> base ^ 64" using b by (rule power_mono) simp
  finally show ?thesis
    using digit_list_length [OF b] by (simp add: digit_loop_list)
qed

text \<open>The usual decimal notation.\<close>

fun decimal :: "nat \<Rightarrow> string" where
  "decimal n = (if n < 10 then [char_of (48 + n)] else decimal (n div 10) @ [char_of (48 + n mod 10)])"

declare decimal.simps [simp del]

lemma less_10_cases: "(n :: nat) < 10 \<Longrightarrow> n \<in> {0, 1, 2, 3, 4, 5, 6, 7, 8, 9}"
  by auto

lemma digit_char: "n < 10 \<Longrightarrow> digits ! n = char_of (48 + n)"
  using less_10_cases [of n] by (auto simp: digits_def char_of_def bit_0)

lemma of_digit_char: "n < 10 \<Longrightarrow> of_char (char_of (48 + n) :: char) = (48 + int n)" for n :: nat
  by (subst of_nat_of_char [symmetric], subst of_char_of) simp

lemma is_digit_char_digit [simp]: "n < 10 \<Longrightarrow> is_digit_char (char_of (48 + n))" for n :: nat
  by (simp add: is_digit_char_def of_digit_char)

lemma decimal_digits: "n \<noteq> 0 \<Longrightarrow> rev (map ((!) digits) (digit_list 10 n)) = decimal n"
proof (induction n rule: decimal.induct)
  case (1 n)
  show ?case
  proof (cases "n < 10")
    case True
    then show ?thesis using 1
      by (subst digit_list.simps, subst decimal.simps) (simp add: digit_char digit_list.simps)
  next
    case False
    then show ?thesis using 1
      by (subst digit_list.simps, subst decimal.simps) (simp add: digit_char)
  qed
qed

lemma skip_atoi_decimal:
  assumes "int n + 48 < 2 ^ 31" and "\<not> starts_digit s"
  shows "skip_atoi 0 (decimal n @ s) = Some (int n, s)"
proof -
  have step: "skip_atoi 0 (decimal n @ t) = skip_atoi (int n) t" if "int n + 48 < 2 ^ 31" for t
    using that
  proof (induction n arbitrary: t rule: decimal.induct)
    case (1 n)
    show ?case
    proof (cases "n < 10")
      case True
      then show ?thesis
        by (subst decimal.simps) (simp add: of_digit_char)
    next
      case False
      have m: "n mod 10 < 10" by simp
      have n: "int (n div 10) * 10 + (48 + int (n mod 10)) = int n + 48"
        by (simp add: zdiv_int zmod_int)
      have "skip_atoi 0 (decimal (n div 10) @ char_of (48 + n mod 10) # t) = skip_atoi (int (n div 10)) (char_of (48 + n mod 10) # t)"
        using 1 False by simp
      also have "\<dots> = skip_atoi (int n) t"
        using 1(2) m n by (simp add: of_digit_char)
      finally show ?thesis
        using False by (subst decimal.simps) simp
    qed
  qed
  have "skip_atoi (int n) s = Some (int n, s)"
    using assms(2) by (cases s) (auto simp: starts_digit_def)
  then show ?thesis using step [OF assms(1)] by simp
qed

section \<open>The layout of a number\<close>

definition sign_text :: "flags \<Rightarrow> u64 \<Rightarrow> string" where
  "sign_text ty num =
     (if \<not> SIGN ty then '''' else if sint num < 0 then ''-''
      else if PLUS ty then ''+'' else if SPACE ty then '' '' else '''')"

definition prefix_text :: "flags \<Rightarrow> int \<Rightarrow> string" where
  "prefix_text ty base =
     (if \<not> HEX_PREP ty then '''' else if base = 8 then ''0'' else if base = 16 then ''0x'' else '''')"

definition magnitude :: "flags \<Rightarrow> u64 \<Rightarrow> u64" where
  "magnitude ty num = (if SIGN ty \<and> sint num < 0 then - num else num)"

definition digit_text :: "flags \<Rightarrow> u64 \<Rightarrow> int \<Rightarrow> string" where
  "digit_text ty num base =
     (if num = 0 then ''0'' else rev (map ((!) (dig_of ty)) (digit_list (nat base) (unat num))))"

definition number_text :: "u64 \<Rightarrow> int \<Rightarrow> int \<Rightarrow> int \<Rightarrow> flags \<Rightarrow> string" where
  "number_text num base sz precision ty =
     (let ds = digit_text ty (magnitude ty num) base;
          body = replicate (nat (precision - int (length ds))) CHR ''0'' @ ds;
          lead = sign_text ty num @ prefix_text ty base;
          fill = nat (sz - int (length lead + length body))
      in if LEFT ty then lead @ body @ replicate fill CHR '' ''
         else if ZEROPAD ty then lead @ replicate fill CHR ''0'' @ body
         else replicate fill CHR '' '' @ lead @ body)"

lemma pad_done [simp]: "pad c (snd (pad c' sz)) = ('''', snd (pad c' sz) - 1)"
  by (auto simp: pad_def)

lemma fst_pad [simp]: "fst (pad c sz) = replicate (nat sz) c"
  by (simp add: pad_def)

lemma snd_pad_le [simp]: "snd (pad c sz) \<le> 0" "snd (pad c sz) - 1 \<le> 0"
  by (auto simp: pad_def)

lemma hex_prefix: "[CHR ''0'', digits ! 33] = ''0x''"
  by (simp add: digits_def)

lemma number_eq:
  assumes "2 \<le> base" and "base \<le> 36" and "SIGN ty \<Longrightarrow> num \<noteq> 2 ^ 63"
  shows "number num base sz precision ty = Some (number_text num base sz precision ty)"
proof -
  let ?ds = "digit_text ty (magnitude ty num) base"
  have tmp: "(if n = 0 then ''0'' else digit_loop (dig_of ty) n (nat base)) = rev (digit_text ty n base)" for n
    by (simp add: digit_text_def digit_loop_list)
  have base: "\<not> (base < 2 \<or> base > 36)" using assms by simp
  define k where "k = int (length ?ds)"
  define p where "p = (if k > precision then k else precision)"
  define l where "l = int (length (sign_text ty num)) + int (length (prefix_text ty base))"
  have body: "int (length (replicate (nat (precision - k)) CHR ''0'' @ ?ds)) = p"
    by (simp add: p_def k_def)
  have zeros: "nat (p - k) = nat (precision - k)" by (simp add: p_def)
  have sign: "(if SIGN ty'
             then if sint num < 0 then (''-'', - num, sz - 1)
                  else if PLUS ty' then (''+'', num, sz - 1)
                  else if SPACE ty' then ('' '', num, sz - 1)
                  else ('''', num, sz)
             else ('''', num, sz)) = (sign_text ty num, magnitude ty num, sz - int (length (sign_text ty num)))"
    if "SIGN ty' = SIGN ty" "PLUS ty' = PLUS ty" "SPACE ty' = SPACE ty" for ty' :: flags
    using that by (simp add: sign_text_def magnitude_def)
  have prefix: "(if HEX_PREP ty' then if base = 8 then ''0'' else if base = 16 then [CHR ''0'', digits ! 33] else '''' else '''')
      = prefix_text ty base"
    and sz: "(if HEX_PREP ty' then if base = 16 then n - 2 else if base = 8 then n - 1 else n else n)
      = n - int (length (prefix_text ty base))"
    if "HEX_PREP ty' = HEX_PREP ty" for ty' :: flags and n
    using that by (auto simp: prefix_text_def hex_prefix)
  let ?ty = "if LEFT ty then ty\<lparr>ZEROPAD := False\<rparr> else ty"
  have ty: "SIGN ?ty = SIGN ty" "PLUS ?ty = PLUS ty" "SPACE ?ty = SPACE ty" "HEX_PREP ?ty = HEX_PREP ty" "LEFT ?ty = LEFT ty"
    "ZEROPAD ?ty = (ZEROPAD ty \<and> \<not> LEFT ty)"
    by auto
  have least: "\<not> (SIGN ?ty \<and> num = 2 ^ 63)" using assms(3) unfolding ty(1) by blast
  have fill: "nat (sz - int (length (sign_text ty num @ prefix_text ty base) + length (replicate (nat (precision - int (length ?ds))) CHR ''0'' @ ?ds)))
      = nat (sz - int (length (sign_text ty num)) - int (length (prefix_text ty base)) - p)"
    using body by (simp add: k_def algebra_simps)
  show ?thesis
    unfolding number_def Let_def if_not_P [OF base] if_not_P [OF least] sign [OF ty(1-3)] prod.case tmp sz [OF ty(4)] prefix [OF ty(4)] ty(5,6)
      length_rev rev_rev_ident k_def [symmetric] p_def [symmetric] zeros
    unfolding number_text_def Let_def fill
    by (cases "LEFT ty"; cases "ZEROPAD ty") (auto simp: k_def split_beta)
qed

lemma number_eq_unsigned:
  "2 \<le> base \<Longrightarrow> base \<le> 36 \<Longrightarrow> \<not> SIGN ty \<Longrightarrow>
   number num base sz precision ty = Some (number_text num base sz precision ty)"
  by (rule number_eq) simp_all

lemma number_text_length:
  "int (length (number_text num base sz precision ty)) =
     max sz (int (length (sign_text ty num) + length (prefix_text ty base))
       + max precision (int (length (digit_text ty (magnitude ty num) base))))"
  by (auto simp: number_text_def Let_def max_def)

lemma digit_text_decimal:
  assumes "\<not> UPPERCASE ty"
  shows "digit_text ty num 10 = decimal (unat num)"
proof (cases "num = 0")
  case True
  have "decimal 0 = ''0''" by (subst decimal.simps) (simp add: char_of_def bit_0)
  then show ?thesis using True by (simp add: digit_text_def)
next
  case False
  then show ?thesis
    using assms decimal_digits [of "unat num"] by (simp add: digit_text_def dig_of_def unat_eq_0)
qed

lemma digit_text_value:
  assumes "2 \<le> base" and "base \<le> 36" and "num \<noteq> 0"
  shows "\<exists>ds. digit_text ty num base = rev (map ((!) (dig_of ty)) ds) \<and> digits_value (nat base) ds = unat num
    \<and> (\<forall>d\<in>set ds. d < nat base) \<and> length ds \<le> 64"
  using assms digit_list_value [of "nat base" "unat num"] digit_list_less [of _ "nat base" "unat num"]
    digit_loop_length [of "nat base" "[]" num]
  by (intro exI [of _ "digit_list (nat base) (unat num)"]) (auto simp: digit_text_def digit_loop_list)

section \<open>Literal text and directives\<close>

lemma ee_vsprintf_literal:
  "CHR ''%'' \<notin> set s \<Longrightarrow> ee_vsprintf (s @ t) args = map_option ((@) s) (ee_vsprintf t args)"
proof (induction s)
  case (Cons c s)
  then show ?case by (cases "ee_vsprintf t args") auto
qed (cases "ee_vsprintf t args"; simp)

lemma scast_not_least: "(scast (v :: s32) :: u64) \<noteq> 2 ^ 63"
proof
  assume e: "(scast v :: u64) = 2 ^ 63"
  have b: "- (2 ^ 31) \<le> sint v" "sint v < 2 ^ 31" using sint_greater_eq [of v] sint_less [of v] by simp_all
  have "sint (scast v :: s64) = sint v"
    unfolding scast_eq sint_sbintrunc' by (rule signed_take_bit_int_eq_self) (use b in simp_all)
  moreover have "sint (2 ^ 63 :: s64) = - (2 ^ 63)" by simp
  ultimately show False using e b by simp
qed

lemma vsprintf_d: "ee_vsprintf ''%d'' [VNum w] = Some (number_text (scast (ucast w :: s32)) 10 (-1) (-1) (no_flags\<lparr>SIGN := True\<rparr>))"
  by (simp add: directive_def no_flags_def parse_width_def parse_precision_def starts_digit_def starts_def
      is_digit_char_def convert_num_def number_eq scast_not_least [simplified])

lemma vsprintf_u: "ee_vsprintf ''%u'' [VNum w] = Some (number_text (ucast (ucast w :: u32)) 10 (-1) (-1) no_flags)"
  by (simp add: directive_def no_flags_def parse_width_def parse_precision_def starts_digit_def starts_def
      is_digit_char_def convert_num_def number_eq_unsigned)

lemma vsprintf_04x: "ee_vsprintf ''%04x'' [VNum w] = Some (number_text (ucast (ucast w :: u32)) 16 4 (-1) (no_flags\<lparr>ZEROPAD := True\<rparr>))"
  by (simp add: directive_def no_flags_def parse_width_def parse_precision_def starts_digit_def starts_def
      is_digit_char_def convert_num_def number_eq_unsigned)

section \<open>Addresses\<close>

lemma justify_eq:
  "justify ty tmp sz =
     (if LEFT ty then tmp @ replicate (nat (sz - int (length tmp))) CHR '' ''
      else replicate (nat (sz - int (length tmp))) CHR '' '' @ tmp)"
  by (simp add: justify_def pad_to_def Let_def)

lemma digit_text_small: "n < 10 \<Longrightarrow> decimal n = [digits ! n]"
  by (subst decimal.simps) (simp add: digit_char)

lemma decimal_split:
  fixes n :: nat
  shows "n div 10 div 10 = n div 100" "n div 10 mod 10 = n mod 100 div 10" "n mod 100 mod 10 = n mod 10"
proof -
  have m: "n mod (10 * 10) = 10 * (n div 10 mod 10) + n mod 10" by (rule mod_mult2_eq)
  show "n div 10 div 10 = n div 100" by (simp flip: div_mult2_eq)
  show "n div 10 mod 10 = n mod 100 div 10" using m by simp
  show "n mod 100 mod 10 = n mod 10" using m by simp
qed

lemma unat_ucast_32_64: "unat (ucast (v :: u32) :: u64) = unat v"
  using unat_bound [of v] by (simp add: unsigned_ucast_eq take_bit_nat_eq_self)

lemma sint_scast_32_64: "sint (scast (v :: s32) :: s64) = sint v"
proof -
  have b: "- (2 ^ 31) \<le> sint v" "sint v < 2 ^ 31" using sint_greater_eq [of v] sint_less [of v] by simp_all
  show ?thesis
    unfolding scast_eq sint_sbintrunc' by (rule signed_take_bit_int_eq_self) (use b in simp_all)
qed

lemma unat_word_of_int_64: "0 \<le> i \<Longrightarrow> i < 2 ^ 64 \<Longrightarrow> unat (word_of_int i :: u64) = nat i"
  by (simp add: unat_eq_nat_uint uint_word_of_int)

lemma unat_magnitude_32_64:
  "unat (magnitude (no_flags\<lparr>SIGN := True\<rparr>) (scast (v :: s32))) = nat \<bar>sint v\<bar>"
proof -
  have b: "- (2 ^ 31) \<le> sint v" "sint v < 2 ^ 31" using sint_greater_eq [of v] sint_less [of v] by simp_all
  have m: "magnitude (no_flags\<lparr>SIGN := True\<rparr>) (scast v) = word_of_int \<bar>sint v\<bar>"
    unfolding magnitude_def sint_scast_32_64 unfolding scast_eq by (simp add: no_flags_def)
  show ?thesis unfolding m using b by (intro unat_word_of_int_64) simp_all
qed

lemma iaddr_part_decimal: "iaddr_part a = decimal (unat a)"
proof -
  have a: "unat a < 256" using unat_bound [of a] by simp
  consider "unat a < 10" | "10 \<le> unat a" "unat a < 100" | "100 \<le> unat a" by linarith
  then show ?thesis
  proof cases
    case 1
    then show ?thesis by (simp add: iaddr_part_def Let_def digit_text_small)
  next
    case 2
    then have "unat a div 10 < 10" by simp
    then show ?thesis using 2
      by (subst decimal.simps) (simp add: iaddr_part_def Let_def digit_text_small digit_char)
  next
    case 3
    have h: "unat a div 10 div 10 = unat a div 100" "unat a div 10 mod 10 = unat a mod 100 div 10" "unat a mod 100 mod 10 = unat a mod 10"
      by (rule decimal_split)+
    have "unat a div 100 < 10" using a by simp
    moreover have "10 \<le> unat a div 10" using 3 by simp
    ultimately show ?thesis using 3
      by (subst decimal.simps, subst decimal.simps) (simp add: iaddr_part_def Let_def digit_text_small digit_char h)
  qed
qed

section \<open>Hexadecimal\<close>

text \<open>The \<open>k\<close> low digits of a number, the most significant first.\<close>

definition fixed_digits :: "nat \<Rightarrow> nat \<Rightarrow> nat \<Rightarrow> nat list" where
  "fixed_digits base k n = rev (map (\<lambda>i. n div base ^ i mod base) [0..<k])"

lemma fixed_digits_Suc: "fixed_digits base (Suc k) n = fixed_digits base k (n div base) @ [n mod base]"
proof -
  have "map (\<lambda>i. n div base ^ i mod base) [0..<Suc k] = n mod base # map (\<lambda>i. n div base div base ^ i mod base) [0..<k]"
    by (simp only: upt_conv_Cons map_Suc_upt [symmetric] zero_less_Suc list.map list.map_comp)
      (simp add: comp_def div_mult2_eq)
  then show ?thesis by (simp only: fixed_digits_def rev.simps)
qed

lemma digit_list_padded:
  assumes "2 \<le> base" and "n < base ^ k"
  shows "replicate (k - length (digit_list base n)) 0 @ rev (digit_list base n) = fixed_digits base k n"
  using assms(2)
proof (induction k arbitrary: n)
  case 0
  then show ?case by (simp add: digit_list.simps fixed_digits_def)
next
  case (Suc k)
  have "n div base < base ^ k"
    using Suc.prems by (simp add: less_mult_imp_div_less mult.commute)
  note IH = Suc.IH [OF this]
  show ?case
  proof (cases "n = 0")
    case True
    then have "fixed_digits base k 0 = replicate k 0"
      using IH by (simp add: digit_list.simps)
    then show ?thesis using True by (simp add: fixed_digits_Suc digit_list.simps replicate_append_same)
  next
    case False
    then have "digit_list base n = n mod base # digit_list base (n div base)"
      using assms(1) by (subst digit_list.simps) simp
    then show ?thesis using IH by (simp add: fixed_digits_Suc)
  qed
qed

lemma number_text_hex:
  assumes "unat w < 16 ^ k" and "0 < k"
  shows "number_text w 16 (int k) (-1) (no_flags\<lparr>ZEROPAD := True\<rparr>) = map ((!) digits) (fixed_digits 16 k (unat w))"
proof -
  let ?ty = "no_flags\<lparr>ZEROPAD := True\<rparr>" and ?n = "unat w"
  have plain: "prefix_text ?ty 16 = ''''" "sign_text ?ty w = ''''" "magnitude ?ty w = w" "\<not> LEFT ?ty" "ZEROPAD ?ty" "dig_of ?ty = digits"
    by (simp_all add: prefix_text_def sign_text_def magnitude_def no_flags_def dig_of_def)
  define ds where "ds = digit_text ?ty w 16"
  have layout: "number_text w 16 (int k) (-1) ?ty = replicate (k - length ds) CHR ''0'' @ ds"
    unfolding number_text_def Let_def plain ds_def [symmetric] using plain(4,5) by (simp flip: of_nat_diff)
  have zero: "CHR ''0'' = digits ! 0" by (simp add: digits_def)
  have padded: "replicate (k - length (digit_list 16 ?n)) 0 @ rev (digit_list 16 ?n) = fixed_digits 16 k ?n"
    by (rule digit_list_padded) (use assms in simp_all)
  show ?thesis
  proof (cases "w = 0")
    case True
    then have "ds = [digits ! 0]" by (simp add: ds_def digit_text_def zero)
    moreover have "fixed_digits 16 k ?n = replicate k 0"
      using padded True by (simp add: digit_list.simps)
    ultimately show ?thesis
      using assms(2) unfolding layout zero by (cases k) (simp_all add: replicate_append_same)
  next
    case False
    then have "ds = map ((!) digits) (rev (digit_list 16 ?n))"
      by (simp add: ds_def digit_text_def plain rev_map)
    then show ?thesis
      unfolding layout zero padded [symmetric] by simp
  qed
qed

section \<open>Properties\<close>

text \<open>
  C27: for every base the code accepts, \<open>number\<close> writes the sign, the prefix, the zeros that the
  precision asks for and the digits of the magnitude, filled up to the field width on the left, on the
  right, or with zeros between the prefix and the digits.
\<close>

theorem number_layout:
  assumes "2 \<le> base" and "base \<le> 36" and "SIGN ty \<Longrightarrow> num \<noteq> 2 ^ 63"
  shows "number num base sz precision ty = Some (number_text num base sz precision ty)
    \<and> int (length (number_text num base sz precision ty)) =
       max sz (int (length (sign_text ty num) + length (prefix_text ty base))
         + max precision (int (length (digit_text ty (magnitude ty num) base))))"
  using number_eq [OF assms] number_text_length by simp

theorem number_layout_witness:
  "number (- 42) 10 8 3 (no_flags\<lparr>SIGN := True, ZEROPAD := True\<rparr>) = Some ''-0000042''"
proof -
  have "number_text (- 42) 10 8 3 (no_flags\<lparr>SIGN := True, ZEROPAD := True\<rparr>) = ''-0000042''"
    by code_simp
  then show ?thesis
    using number_layout [of 10 "no_flags\<lparr>SIGN := True, ZEROPAD := True\<rparr>" "- 42" 8 3] by simp
qed

text \<open>
  The digits that \<open>number\<close> collects for a nonzero number in its local array are at most 64, so
  they fit its 66 characters, and they stand for the number.
\<close>

theorem number_digits_fit:
  assumes "2 \<le> base" and "base \<le> 36" and "num \<noteq> 0"
  shows "\<exists>ds. digit_loop (dig_of ty) num (nat base) = map ((!) (dig_of ty)) ds \<and> length ds \<le> 64
    \<and> digits_value (nat base) ds = unat num \<and> (\<forall>d\<in>set ds. d < nat base)"
  using digit_text_value [OF assms, of ty] digit_loop_list [of "dig_of ty" num "nat base"]
    digit_list_value [of "nat base" "unat num"] digit_list_less [of _ "nat base" "unat num"]
    digit_loop_length [of "nat base" "[]" num] assms
  by (intro exI [of _ "digit_list (nat base) (unat num)"]) (auto simp: digit_loop_list)

theorem number_digits_fit_witness:
  "length (digit_loop digits (- 1) 2) \<le> 64"
  using number_digits_fit [of 2 "- 1" no_flags] by (auto simp: dig_of_def no_flags_def)

lemma number_text_decimal:
  "number_text (scast (v :: s32)) 10 (-1) (-1) (no_flags\<lparr>SIGN := True\<rparr>) =
     (if sint v < 0 then CHR ''-'' # decimal (nat (- sint v)) else decimal (nat (sint v)))"
  "number_text (ucast (u :: u32)) 10 (-1) (-1) no_flags = decimal (unat u)"
proof -
  have nu: "\<not> UPPERCASE (no_flags\<lparr>SIGN := True\<rparr>)" "\<not> UPPERCASE no_flags" by (simp_all add: no_flags_def)
  have plain: "prefix_text (no_flags\<lparr>SIGN := True\<rparr>) 10 = ''''" "prefix_text no_flags 10 = ''''" "sign_text no_flags v = ''''"
    "magnitude no_flags v = v" for v
    by (simp_all add: prefix_text_def sign_text_def magnitude_def no_flags_def)
  have sign: "sign_text (no_flags\<lparr>SIGN := True\<rparr>) (scast v) = (if sint v < 0 then ''-'' else '''')"
    by (simp add: sign_text_def sint_scast_32_64) (simp add: no_flags_def)
  show "number_text (scast v) 10 (-1) (-1) (no_flags\<lparr>SIGN := True\<rparr>) =
     (if sint v < 0 then CHR ''-'' # decimal (nat (- sint v)) else decimal (nat (sint v)))"
    unfolding number_text_def Let_def digit_text_decimal [OF nu(1)] unat_magnitude_32_64 sign plain
    by (simp add: no_flags_def)
  show "number_text (ucast u) 10 (-1) (-1) no_flags = decimal (unat u)"
    unfolding number_text_def Let_def plain digit_text_decimal [OF nu(2)] unat_ucast_32_64
    by (simp add: no_flags_def)
qed

text \<open>
  C28: \<open>%d\<close> prints the low 32 bits of its argument as a signed decimal, \<open>%u\<close> as an unsigned one.
\<close>

theorem printf_decimal:
  "ee_vsprintf ''%d'' [VNum w] =
     Some (if sint (ucast w :: s32) < 0 then CHR ''-'' # decimal (nat (- sint (ucast w :: s32)))
           else decimal (nat (sint (ucast w :: s32))))
   \<and> ee_vsprintf ''%u'' [VNum w] = Some (decimal (unat (ucast w :: u32)))"
  unfolding vsprintf_d vsprintf_u number_text_decimal by simp

text \<open>
  Reading back with \<open>skip_atoi\<close> what \<open>%u\<close> prints gives the number, up to the 48 largest values of
  an \<open>int\<close>, where the sum with the last character code overflows.
\<close>

theorem printf_atoi_roundtrip:
  assumes "unat (ucast w :: u32) + 48 < 2 ^ 31" and "\<not> starts_digit rest"
  shows "\<exists>s. ee_vsprintf ''%u'' [VNum w] = Some s \<and> skip_atoi 0 (s @ rest) = Some (int (unat (ucast w :: u32)), rest)"
proof -
  let ?n = "unat (ucast w :: u32)"
  have "int ?n + 48 < 2 ^ 31"
  proof -
    have "int (?n + 48) < int (2 ^ 31)" by (rule iffD2 [OF of_nat_less_iff assms(1)])
    then show ?thesis by simp
  qed
  then show ?thesis
    using skip_atoi_decimal assms(2) unfolding vsprintf_u number_text_decimal by blast
qed

theorem printf_atoi_roundtrip_witness:
  "\<exists>s. ee_vsprintf ''%u'' [VNum 1234] = Some s \<and> skip_atoi 0 (s @ '';'') = Some (1234, '';'')"
  using printf_atoi_roundtrip [of 1234 "'';''"] by (simp add: starts_digit_def is_digit_char_def)

text \<open>
  \<open>%04x\<close>, the format of every checksum of the report, prints a 16 bit value as its four
  hexadecimal digits.
\<close>

theorem printf_hex4:
  fixes w :: u64
  assumes "unat w < 65536"
  shows "ee_vsprintf ''%04x'' [VNum w] = Some (map ((!) digits) (fixed_digits 16 4 (unat w)))"
proof -
  have "unat (ucast (ucast w :: u32) :: u64) = unat w"
    unfolding unat_ucast_32_64 using assms by (simp add: unsigned_ucast_eq unsigned_take_bit_eq take_bit_nat_eq_self)
  then have "ucast (ucast w :: u32) = w" by (simp only: word_unat_eq_iff)
  then show ?thesis
    unfolding vsprintf_04x using number_text_hex [of w 4] assms by simp
qed

theorem printf_hex4_witness: "ee_vsprintf ''%04x'' [VNum 0x8a2] = Some ''08a2''"
proof -
  have v: "unat (0x8a2 :: u64) = 0x8a2" by simp
  have m: "map ((!) digits) (fixed_digits 16 4 0x8a2) = ''08a2''" by (simp add: fixed_digits_def digits_def upt_rec)
  have "ee_vsprintf ''%04x'' [VNum 0x8a2] = Some (map ((!) digits) (fixed_digits 16 4 (unat (0x8a2 :: u64))))"
    by (rule printf_hex4) simp
  then show ?thesis unfolding v m .
qed

text \<open>
  An IP address is printed as four decimal numbers separated by dots, filled up to the field width.
\<close>

theorem iaddr_dotted_decimal:
  "iaddr (a # b # c # d # rest) sz ty =
     Some (justify ty (decimal (unat a) @ ''.'' @ decimal (unat b) @ ''.'' @ decimal (unat c) @ ''.'' @ decimal (unat d)) sz)"
  unfolding iaddr_def iaddr_part_decimal [symmetric]
  by (simp add: numeral_eq_Suc aget_def)

lemma strnlen_min: "strnlen s cnt = min (length s) (unat cnt)"
proof (induction s arbitrary: cnt)
  case (Cons c s)
  show ?case
  proof (cases "cnt = 0")
    case False
    then have "unat cnt = Suc (unat (cnt - 1))" using unat_minus_one [OF False] unat_gt_0 [of cnt] by simp
    then show ?thesis using False Cons.IH by simp
  qed simp
qed simp

text \<open>
  \<open>%s\<close> prints the string, cut to the precision if there is one, in a field of the given width; a
  null pointer prints as \<open><NULL>\<close>.
\<close>

theorem convert_s_prints:
  assumes "- 1 \<le> precision" and "precision < 2 ^ 31" and "length (case s of None \<Rightarrow> ''<NULL>'' | Some s \<Rightarrow> s) < 2 ^ 64"
  shows "convert_s width precision fl (VStr s # args) =
    Some (justify fl ((if precision < 0 then id else take (nat precision)) (case s of None \<Rightarrow> ''<NULL>'' | Some s \<Rightarrow> s)) width, args)"
proof (cases "precision < 0")
  case True
  then have p: "precision = - 1" using assms(1) by simp
  have "unat (word_of_int precision :: u64) = 2 ^ 64 - 1" unfolding p by (simp add: unat_eq_nat_uint uint_word_ariths)
  then show ?thesis using assms(3) True by (simp add: convert_s_def Let_def strnlen_min)
next
  case False
  then have "unat (word_of_int precision :: u64) = nat precision"
    using assms(2) by (intro unat_word_of_int_64) simp_all
  moreover have "take (min (length t) n) t = take n t" for t :: string and n
    by (simp add: min_def)
  ultimately show ?thesis using False by (simp add: convert_s_def Let_def strnlen_min)
qed

theorem convert_s_prints_witness:
  "convert_s 6 3 no_flags [VStr (Some ''abcdef'')] = Some (''   abc'', [])"
proof -
  have "justify no_flags ''abc'' 6 = ''   abc''" by code_simp
  then show ?thesis using convert_s_prints [of 3 "Some ''abcdef''" 6 no_flags "[]"] by simp
qed

lemma ee_printf_literal:
  assumes "CHR ''%'' \<notin> set s" and "char_of (0 :: nat) \<notin> set s"
  shows "ee_printf s args = (if length s < 1024 then Some (s, length s) else None)"
proof -
  have out: "ee_vsprintf s args = Some s"
    using ee_vsprintf_literal [OF assms(1), of "[]" args] by simp
  have "takeWhile (\<lambda>c. c \<noteq> char_of (0 :: nat)) s = s"
    using assms(2) by (auto simp: takeWhile_eq_all_conv)
  then show ?thesis unfolding ee_printf_def out by (simp only: Option.bind.bind_lunit Let_def) simp
qed

text \<open>The prefix of \<open>%#X\<close> is written in lower case.\<close>

lemma upper_hex_prefix: "ee_vsprintf ''%#X'' [VNum 0xab] = Some ''0xAB''"
proof -
  have "number_text 0xab 16 (-1) (-1) (no_flags\<lparr>HEX_PREP := True, UPPERCASE := True\<rparr>) = ''0xAB''"
    by code_simp
  then show ?thesis
    by (simp add: directive_def no_flags_def parse_width_def parse_precision_def starts_digit_def starts_def
      is_digit_char_def convert_num_def number_eq_unsigned)
qed

end
