(* ===== verification/CoreMain.thy ===== *)
theory CoreMain
  imports ListSim Printf
begin

text \<open>
  The benchmark program: coremark/core_main.c, the seeds and the type check of core_util.c, and the
  timing of multiplix/core_portme.c, as configured by core_portme.h (one context, a static data block
  of 2000 bytes, seeds in volatile variables, no floating point).

  The clock, its frequency, the compiler's description strings, the content of the data block and of
  the uninitialised \<open>results\<close> are parameters. The UART is a list of the texts sent to it by each call of
  \<open>ee_printf\<close>. A division by zero and what the parts cannot do (an access outside an object, a loop
  that never ends) are \<open>None\<close>.
\<close>

section \<open>Timing\<close>

text \<open>\<open>clk n\<close> is what the \<open>n\<close>-th call of \<open>barebones_clock\<close> returns.\<close>

type_synonym clock = "nat \<Rightarrow> u32"

record timer =
  start_time_val :: u32
  stop_time_val :: u32
  clock_reads :: nat

definition start_time :: "clock \<Rightarrow> timer \<Rightarrow> timer" where
  "start_time clk t = t\<lparr>start_time_val := clk (clock_reads t), clock_reads := Suc (clock_reads t)\<rparr>"

definition stop_time :: "clock \<Rightarrow> timer \<Rightarrow> timer" where
  "stop_time clk t = t\<lparr>stop_time_val := clk (clock_reads t), clock_reads := Suc (clock_reads t)\<rparr>"

definition get_time :: "timer \<Rightarrow> u32" where
  "get_time t = stop_time_val t - start_time_val t"

definition time_in_secs :: "u32 \<Rightarrow> u32 \<Rightarrow> u32 option" where
  "time_in_secs freq ticks = (if freq = 0 then None else Some (ticks div freq))"

section \<open>Seeds\<close>

record volatiles =
  seed1_volatile :: s32
  seed2_volatile :: s32
  seed3_volatile :: s32
  seed4_volatile :: s32
  seed5_volatile :: s32

definition validation_run :: "s32 \<Rightarrow> volatiles" where
  "validation_run iterations = \<lparr>seed1_volatile = 0x3415, seed2_volatile = 0x3415, seed3_volatile = 0x66,
     seed4_volatile = iterations, seed5_volatile = 0\<rparr>"

definition performance_run :: "s32 \<Rightarrow> volatiles" where
  "performance_run iterations = \<lparr>seed1_volatile = 0x0, seed2_volatile = 0x0, seed3_volatile = 0x66,
     seed4_volatile = iterations, seed5_volatile = 0\<rparr>"

definition profile_run :: "s32 \<Rightarrow> volatiles" where
  "profile_run iterations = \<lparr>seed1_volatile = 0x8, seed2_volatile = 0x8, seed3_volatile = 0x8,
     seed4_volatile = iterations, seed5_volatile = 0\<rparr>"

definition get_seed_32 :: "volatiles \<Rightarrow> nat \<Rightarrow> s32" where
  "get_seed_32 v i =
     (if i = 1 then seed1_volatile v
      else if i = 2 then seed2_volatile v
      else if i = 3 then seed3_volatile v
      else if i = 4 then seed4_volatile v
      else if i = 5 then seed5_volatile v
      else 0)"

definition get_seed :: "volatiles \<Rightarrow> nat \<Rightarrow> s16" where
  "get_seed v i = ucast (get_seed_32 v i)"

text \<open>The defaults for a performance and for a validation run.\<close>

definition seed_defaults :: "s16 \<times> s16 \<times> s16 \<Rightarrow> s16 \<times> s16 \<times> s16" where
  "seed_defaults seeds =
     (let seeds = (if seeds = (0, 0, 0) then (0, 0, 0x66) else seeds)
      in if seeds = (1, 0, 0) then (0x3415, 0x3415, 0x66) else seeds)"

section \<open>Output\<close>

definition nl :: string where
  "nl = [CHR 0x0A]"

definition say :: "string \<Rightarrow> varg list \<Rightarrow> string list \<Rightarrow> string list option" where
  "say fmt args out = map_option (\<lambda>(s, n). out @ [s]) (ee_printf fmt args)"

section \<open>Type checks\<close>

record type_sizes =
  size_u8 :: nat
  size_u16 :: nat
  size_s16 :: nat
  size_s32 :: nat
  size_u32 :: nat
  size_ptr_int :: nat
  size_ptr :: nat

text \<open>The sizes of the types of core_portme.h on the 64 bit targets.\<close>

definition lp64_sizes :: type_sizes where
  "lp64_sizes = \<lparr>size_u8 = 1, size_u16 = 2, size_s16 = 2, size_s32 = 4, size_u32 = 4, size_ptr_int = 8, size_ptr = 8\<rparr>"

definition type_error :: "bool \<Rightarrow> string \<Rightarrow> u8 \<times> string list \<Rightarrow> (u8 \<times> string list) option" where
  "type_error wrong msg st =
     (case st of (retval, out) \<Rightarrow>
        if wrong then map_option (\<lambda>out. (retval + 1, out)) (say (msg @ nl) [] out) else Some st)"

definition check_data_types :: "type_sizes \<Rightarrow> string list \<Rightarrow> (u8 \<times> string list) option" where
  "check_data_types sz out = do {
     st \<leftarrow> type_error (size_u8 sz \<noteq> 1) ''ERROR: ee_u8 is not an 8b datatype!'' (0, out);
     st \<leftarrow> type_error (size_u16 sz \<noteq> 2) ''ERROR: ee_u16 is not a 16b datatype!'' st;
     st \<leftarrow> type_error (size_s16 sz \<noteq> 2) ''ERROR: ee_s16 is not a 16b datatype!'' st;
     st \<leftarrow> type_error (size_s32 sz \<noteq> 4) ''ERROR: ee_s32 is not a 32b datatype!'' st;
     st \<leftarrow> type_error (size_u32 sz \<noteq> 4) ''ERROR: ee_u32 is not a 32b datatype!'' st;
     (retval, out) \<leftarrow> type_error (size_ptr_int sz \<noteq> size_ptr sz)
       ''ERROR: ee_ptr_int is not a datatype that holds an int pointer!'' st;
     if retval > 0
     then map_option (\<lambda>out. (retval, out)) (say (''ERROR: Please modify the datatypes in core_portme.h!'' @ nl) [] out)
     else Some (retval, out)
   }"

text \<open>\<open>portable_init\<close> and \<open>portable_fini\<close>: the output and the new \<open>portable_id\<close>.\<close>

definition portable_init :: "type_sizes \<Rightarrow> string list \<Rightarrow> (string list \<times> u8) option" where
  "portable_init sz out = do {
     out \<leftarrow> (if size_ptr_int sz \<noteq> size_ptr sz
       then say (''ERROR! Please define ee_ptr_int to a type that holds a pointer!'' @ nl) [] out else Some out);
     out \<leftarrow> (if size_u32 sz \<noteq> 4
       then say (''ERROR! Please define ee_u32 to a 32b unsigned type!'' @ nl) [] out else Some out);
     Some (out, 1)
   }"

definition portable_fini :: "u8 \<Rightarrow> u8" where
  "portable_fini portable_id = 0"

section \<open>Iterating\<close>

definition iterate_round :: "nat \<Rightarrow> core_results \<times> list_mem \<Rightarrow> (core_results \<times> list_mem) option" where
  "iterate_round i st = do {
     let (res, m) = st;
     (crc, res, m) \<leftarrow> core_bench_list res 1 m;
     let res = res\<lparr>res_crc := crcu16 crc (res_crc res)\<rparr>;
     (crc, res, m) \<leftarrow> core_bench_list res (-1) m;
     let res = res\<lparr>res_crc := crcu16 crc (res_crc res)\<rparr>;
     Some (if i = 0 then res\<lparr>res_crclist := res_crc res\<rparr> else res, m)
   }"

definition iterate :: "core_results \<Rightarrow> list_mem \<Rightarrow> (core_results \<times> list_mem) option" where
  "iterate res m =
     for_loop (unat (res_iterations res)) iterate_round
       (res\<lparr>res_crc := 0, res_crclist := 0, res_crcmatrix := 0, res_crcstate := 0\<rparr>, m)"

text \<open>\<open>while (secs_passed < 1)\<close>: each round runs ten times as many iterations as the one before.\<close>

partial_function (option) calibrate ::
  "clock \<Rightarrow> u32 \<Rightarrow> u32 \<Rightarrow> core_results \<Rightarrow> list_mem \<Rightarrow> timer \<Rightarrow> (u32 \<times> core_results \<times> list_mem \<times> timer) option" where
  "calibrate clk freq secs_passed res m t =
     (if secs_passed < 1 then do {
        let res = res\<lparr>res_iterations := res_iterations res * 10\<rparr>;
        let t = start_time clk t;
        (res, m) \<leftarrow> iterate res m;
        let t = stop_time clk t;
        secs_passed \<leftarrow> time_in_secs freq (get_time t);
        calibrate clk freq secs_passed res m t
      }
      else Some (secs_passed, res, m, t))"

declare calibrate.simps [code]

definition set_iterations ::
  "clock \<Rightarrow> u32 \<Rightarrow> core_results \<Rightarrow> list_mem \<Rightarrow> timer \<Rightarrow> (core_results \<times> list_mem \<times> timer) option" where
  "set_iterations clk freq res m t =
     (if res_iterations res = 0 then do {
        (secs_passed, res, m, t) \<leftarrow> calibrate clk freq 0 (res\<lparr>res_iterations := 1\<rparr>) m t;
        let divisor = (if secs_passed = 0 then 1 else secs_passed);
        Some (res\<lparr>res_iterations := res_iterations res * (1 + 10 div divisor)\<rparr>, m, t)
      }
      else Some (res, m, t))"

section \<open>The memory blocks\<close>

definition selected :: "u32 \<Rightarrow> nat \<Rightarrow> bool" where
  "selected execs i \<longleftrightarrow> push_bit i 1 AND execs \<noteq> 0"

definition num_algorithms :: "u32 \<Rightarrow> nat" where
  "num_algorithms execs = length (filter (selected execs) [0..<3])"

text \<open>The addresses of \<open>memblock[1]\<close> to \<open>memblock[3]\<close>.\<close>

fun assign_blocks :: "u64 \<Rightarrow> u32 \<Rightarrow> u32 \<Rightarrow> nat list \<Rightarrow> u32 \<Rightarrow> u64 option list" where
  "assign_blocks base sz execs [] j = []"
| "assign_blocks base sz execs (i # is) j =
     (if selected execs i
      then Some (base + ucast (sz * j)) # assign_blocks base sz execs is (j + 1)
      else None # assign_blocks base sz execs is j)"

text \<open>What the data block holds where the list, the matrices and the state machine input will be.\<close>

record memory =
  mem_list :: list_mem
  mem_matrix :: "u32 \<Rightarrow> matdat list \<times> matdat list \<times> matres list"
  mem_state :: "u8 list"

definition init_blocks ::
  "core_results \<Rightarrow> u64 option list \<Rightarrow> memory \<Rightarrow> (core_results \<times> list_mem) option" where
  "init_blocks res blocks mem = do {
     (res, m) \<leftarrow>
       (if res_execs res AND 1 \<noteq> 0 then do {
          (lst, m) \<leftarrow> core_list_init (res_size res) (mem_list mem) (res_seed1 res);
          Some (res\<lparr>res_list := lst\<rparr>, m)
        } else Some (res, mem_list mem));
     res \<leftarrow>
       (if res_execs res AND 2 \<noteq> 0 then do {
          memblk \<leftarrow> blocks ! 1;
          (_, mat, _) \<leftarrow> core_init_matrix (res_size res) memblk
             (scast (res_seed1 res) OR push_bit 16 (scast (res_seed2 res))) (mem_matrix mem);
          Some (res\<lparr>res_mat := mat\<rparr>)
        } else Some res);
     res \<leftarrow>
       (if res_execs res AND 4 \<noteq> 0 then do {
          block \<leftarrow> core_init_state (res_size res) (res_seed1 res) (mem_state mem);
          Some (res\<lparr>res_memblock3 := block\<rparr>)
        } else Some res);
     Some (res, m)
   }"

text \<open>From the seeds to the initialised blocks; \<open>res\<close> is the uninitialised structure.\<close>

definition TOTAL_DATA_SIZE :: u32 where
  "TOTAL_DATA_SIZE = 2000"

definition prepare :: "volatiles \<Rightarrow> u64 \<Rightarrow> memory \<Rightarrow> core_results \<Rightarrow> (core_results \<times> list_mem) option" where
  "prepare v static_memblk mem res =
     (let seeds = seed_defaults (get_seed v 1, get_seed v 2, get_seed v 3);
          execs = get_seed_32 v 5;
          execs = (if execs = 0 then 7 else execs);
          n = num_algorithms execs
      in if n = 0 then None
         else
           let sz = TOTAL_DATA_SIZE div of_nat n in
           case seeds of (seed1, seed2, seed3) \<Rightarrow>
             init_blocks
               (res\<lparr>res_seed1 := seed1, res_seed2 := seed2, res_seed3 := seed3,
                  res_iterations := get_seed_32 v 4, res_execs := execs, res_size := sz, res_err := 0\<rparr>)
               (assign_blocks static_memblk sz execs [0..<3] 0) mem)"

section \<open>The report\<close>

definition list_known_crc :: "u16 list" where
  "list_known_crc = [0xd4b0, 0x3340, 0x6a79, 0xe714, 0xe3c1]"

definition matrix_known_crc :: "u16 list" where
  "matrix_known_crc = [0xbe52, 0x1199, 0x5608, 0x1fd7, 0x0747]"

definition state_known_crc :: "u16 list" where
  "state_known_crc = [0x5e47, 0x39bf, 0xe5a4, 0x8e3a, 0x8d84]"

definition seedcrc :: "core_results \<Rightarrow> u16" where
  "seedcrc res = crc16 (ucast (res_size res)) (crc16 (res_seed3 res) (crc16 (res_seed2 res) (crc16 (res_seed1 res) 0)))"

text \<open>The \<open>switch\<close>: the index of the known checksums, and the message.\<close>

definition known_run :: "u16 \<Rightarrow> (nat \<times> string) option" where
  "known_run crc =
     (if crc = 0x8a02 then Some (0, ''6k performance run parameters for coremark.'')
      else if crc = 0x7b05 then Some (1, ''6k validation run parameters for coremark.'')
      else if crc = 0x4eaf then Some (2, ''Profile generation run parameters for coremark.'')
      else if crc = 0xe9f5 then Some (3, ''2K performance run parameters for coremark.'')
      else if crc = 0x18f2 then Some (4, ''2K validation run parameters for coremark.'')
      else None)"

definition crc_error :: "bool \<Rightarrow> string \<Rightarrow> u16 \<Rightarrow> u16 \<Rightarrow> s16 \<times> string list \<Rightarrow> (s16 \<times> string list) option" where
  "crc_error on fmt crc known st =
     (case st of (err, out) \<Rightarrow>
        if on \<and> crc \<noteq> known
        then map_option (\<lambda>out. (err + 1, out)) (say (fmt @ nl) [VNum 0, VNum (ucast crc), VNum (ucast known)] out)
        else Some st)"

definition check_crcs :: "core_results \<Rightarrow> nat \<Rightarrow> string list \<Rightarrow> (s16 \<times> string list) option" where
  "check_crcs res known_id out = do {
     st \<leftarrow> crc_error (res_execs res AND 1 \<noteq> 0) ''[%u]ERROR! list crc 0x%04x - should be 0x%04x''
       (res_crclist res) (list_known_crc ! known_id) (0, out);
     st \<leftarrow> crc_error (res_execs res AND 2 \<noteq> 0) ''[%u]ERROR! matrix crc 0x%04x - should be 0x%04x''
       (res_crcmatrix res) (matrix_known_crc ! known_id) st;
     crc_error (res_execs res AND 4 \<noteq> 0) ''[%u]ERROR! state crc 0x%04x - should be 0x%04x''
       (res_crcstate res) (state_known_crc ! known_id) st
   }"

text \<open>\<open>total_errors\<close> and \<open>results[0].err\<close> before the types are checked.\<close>

definition validate :: "core_results \<Rightarrow> string list \<Rightarrow> (s16 \<times> core_results \<times> string list) option" where
  "validate res out =
     (case known_run (seedcrc res) of
        None \<Rightarrow> Some (-1, res, out)
      | Some (known_id, msg) \<Rightarrow> do {
          out \<leftarrow> say (msg @ nl) [] out;
          (err, out) \<leftarrow> check_crcs res known_id out;
          Some (err, res\<lparr>res_err := err\<rparr>, out)
        })"

definition say_if :: "bool \<Rightarrow> string \<Rightarrow> varg list \<Rightarrow> string list \<Rightarrow> string list option" where
  "say_if b fmt args out = (if b then say (fmt @ nl) args out else Some out)"

definition num_contexts :: u32 where
  "num_contexts = 1"

text \<open>The report on sizes and times; it returns \<open>total_errors\<close>.\<close>

definition report_times ::
  "u32 \<Rightarrow> string \<Rightarrow> string \<Rightarrow> u32 \<Rightarrow> core_results \<Rightarrow> s16 \<Rightarrow> string list \<Rightarrow> (s16 \<times> string list) option" where
  "report_times freq compiler_version compiler_flags total_time res total_errors out = do {
     out \<leftarrow> say (''CoreMark Size    : %lu'' @ nl) [VNum (ucast (res_size res))] out;
     out \<leftarrow> say (''Total ticks      : %lu'' @ nl) [VNum (ucast total_time)] out;
     secs \<leftarrow> time_in_secs freq total_time;
     out \<leftarrow> say (''Total time (secs): %d'' @ nl) [VNum (ucast secs)] out;
     out \<leftarrow> say_if (secs > 0) ''Iterations/Sec   : %d'' [VNum (ucast (num_contexts * res_iterations res div secs))] out;
     out \<leftarrow> say_if (secs < 10) ''ERROR! Must execute for at least 10 secs for a valid result!'' [] out;
     let total_errors = (if secs < 10 then total_errors + 1 else total_errors);
     out \<leftarrow> say (''Iterations       : %lu'' @ nl) [VNum (ucast num_contexts * ucast (res_iterations res))] out;
     out \<leftarrow> say (''Compiler version : %s'' @ nl) [VStr (Some compiler_version)] out;
     out \<leftarrow> say (''Compiler flags   : %s'' @ nl) [VStr (Some compiler_flags)] out;
     out \<leftarrow> say (''Memory location  : %s'' @ nl) [VStr (Some ''STACK'')] out;
     Some (total_errors, out)
   }"

definition report_verdict :: "s16 \<Rightarrow> string list \<Rightarrow> string list option" where
  "report_verdict total_errors out = do {
     out \<leftarrow> say_if (total_errors = 0)
       ''Correct operation validated. See README.md for run and reporting rules.'' [] out;
     out \<leftarrow> say_if (sint total_errors > 0) ''Errors detected'' [] out;
     say_if (sint total_errors < 0)
       ''Cannot validate operation for these seed values, please compare with results on a known platform.'' [] out
   }"

definition report_crcs :: "core_results \<Rightarrow> s16 \<Rightarrow> string list \<Rightarrow> string list option" where
  "report_crcs res total_errors out = do {
     out \<leftarrow> say (''seedcrc          : 0x%04x'' @ nl) [VNum (ucast (seedcrc res))] out;
     out \<leftarrow> say_if (res_execs res AND 1 \<noteq> 0) ''[%d]crclist       : 0x%04x'' [VNum 0, VNum (ucast (res_crclist res))] out;
     out \<leftarrow> say_if (res_execs res AND 2 \<noteq> 0) ''[%d]crcmatrix     : 0x%04x'' [VNum 0, VNum (ucast (res_crcmatrix res))] out;
     out \<leftarrow> say_if (res_execs res AND 4 \<noteq> 0) ''[%d]crcstate      : 0x%04x'' [VNum 0, VNum (ucast (res_crcstate res))] out;
     out \<leftarrow> say (''[%d]crcfinal      : 0x%04x'' @ nl) [VNum 0, VNum (ucast (res_crc res))] out;
     report_verdict total_errors out
   }"

record build =
  sizes :: type_sizes
  timer_freq :: u32
  compiler_version :: string
  compiler_flags :: string

definition list_head_size :: "type_sizes \<Rightarrow> nat" where
  "list_head_size sz = 2 * size_ptr sz"

text \<open>\<open>coremark_main\<close> up to its final call of \<open>stop\<close>, which never returns; \<open>stop\<close> for a list head that
  is too big is \<open>None\<close>.\<close>

record outcome =
  errors :: s16
  results :: core_results
  list_block :: list_mem
  portable :: u8
  uart :: "string list"

definition coremark_main ::
  "build \<Rightarrow> clock \<Rightarrow> volatiles \<Rightarrow> u64 \<Rightarrow> memory \<Rightarrow> core_results \<Rightarrow> timer \<Rightarrow> outcome option" where
  "coremark_main b clk v static_memblk mem res t = do {
     (out, portable_id) \<leftarrow> portable_init (sizes b) [];
     if list_head_size (sizes b) > 128 then None
     else do {
       (res, m) \<leftarrow> prepare v static_memblk mem res;
       (res, m, t) \<leftarrow> set_iterations clk (timer_freq b) res m t;
       let t = start_time clk t;
       (res, m) \<leftarrow> iterate res m;
       let t = stop_time clk t;
       (total_errors, res, out) \<leftarrow> validate res out;
       (type_errors, out) \<leftarrow> check_data_types (sizes b) out;
       let total_errors = total_errors + ucast type_errors;
       (total_errors, out) \<leftarrow>
         report_times (timer_freq b) (compiler_version b) (compiler_flags b) (get_time t) res total_errors out;
       out \<leftarrow> report_crcs res total_errors out;
       Some \<lparr>errors = total_errors, results = res, list_block = m, portable = portable_fini portable_id, uart = out\<rparr>
     }
   }"

end
