(* ===== verification/MainRun.thy ===== *)
theory MainRun
  imports CoreMain
begin

text \<open>
  The run of the benchmark program: what \<open>iterate\<close> returns and keeps, that its checksums do not depend
  on the number of iterations, when the calibration loop ends, and what the report says.
\<close>

section \<open>Iterating over an initialised list\<close>

text \<open>The list and the inputs are as the initialisation leaves them.\<close>

definition ready :: "core_results \<Rightarrow> list_mem \<Rightarrow> bool" where
  "ready res m \<longleftrightarrow> results_ok res
     \<and> (\<exists>xs. wf_list m (res_list res) xs \<and> pristine m xs \<and> 3 \<le> length xs \<and> length xs \<le> 2 ^ 30)"

definition zeroed :: "core_results \<Rightarrow> core_results" where
  "zeroed res = res\<lparr>res_crc := 0, res_crclist := 0, res_crcmatrix := 0, res_crcstate := 0\<rparr>"

lemma ready_keeps:
  assumes "ready res m" and "res_keeps res res'"
  shows "ready res' m"
proof -
  have "res_list res' = res_list res" using assms(2) by (simp add: res_keeps_def)
  then show ?thesis using assms res_keeps_ok by (auto simp: ready_def)
qed

lemma ready_update:
  "ready (res\<lparr>res_crc := a\<rparr>) m = ready res m" "ready (res\<lparr>res_crclist := b\<rparr>) m = ready res m"
  "ready (res\<lparr>res_iterations := c\<rparr>) m = ready res m" "ready (zeroed res) m = ready res m"
  by (simp_all add: ready_def results_ok_def zeroed_def)

lemma bench_list_ready:
  assumes "ready res m"
  shows "\<exists>r res'. core_bench_list res k m = Some (r, res', m) \<and> res_keeps res res'"
  using bench_list_pristine assms unfolding ready_def by blast

lemma iterate_round_ready:
  assumes "ready res m"
  shows "\<exists>res'. iterate_round i (res, m) = Some (res', m) \<and> res_keeps res (res'\<lparr>res_crclist := res_crclist res\<rparr>)
    \<and> res_crclist res' = (if i = 0 then res_crc res' else res_crclist res)"
proof -
  obtain c1 r1 where 1: "core_bench_list res 1 m = Some (c1, r1, m)" "res_keeps res r1"
    using bench_list_ready [OF assms] by blast
  define r2 where "r2 = r1\<lparr>res_crc := crcu16 c1 (res_crc r1)\<rparr>"
  have 2: "res_keeps res r2" using 1(2) by (simp add: r2_def res_keeps_def)
  obtain c3 r3 where 3: "core_bench_list r2 (-1) m = Some (c3, r3, m)" "res_keeps r2 r3"
    using bench_list_ready [OF ready_keeps [OF assms 2]] by blast
  define r4 where "r4 = r3\<lparr>res_crc := crcu16 c3 (res_crc r3)\<rparr>"
  have 4: "res_keeps res r4" using res_keeps_trans [OF 2 3(2)] by (simp add: r4_def res_keeps_def)
  have "iterate_round i (res, m) = Some (if i = 0 then r4\<lparr>res_crclist := res_crc r4\<rparr> else r4, m)"
    using 1(1) 3(1) by (simp add: iterate_round_def r2_def r4_def)
  moreover have "res_crclist r4 = res_crclist res" using 4 by (simp add: res_keeps_def)
  ultimately show ?thesis using 4 by (auto simp: res_keeps_def)
qed

lemma for_loop_first:
  assumes "0 < n" and "body 0 s = Some s1" and "I 1 s1"
    and "\<And>i s. 1 \<le> i \<Longrightarrow> i < n \<Longrightarrow> I i s \<Longrightarrow> \<exists>s'. body i s = Some s' \<and> I (Suc i) s'"
  shows "\<exists>s'. for_loop n body s = Some s' \<and> I n s'"
proof -
  have "\<exists>s'. foldM body [1..<n] s1 = Some s' \<and> I n s'"
    using assms by (intro foldM_rule) auto
  then show ?thesis using assms(1,2) by (simp add: for_loop_def upt_conv_Cons)
qed

text \<open>After the first round only what \<open>res_keeps\<close> allows changes.\<close>

lemma iterate_first:
  assumes "ready res m" and "res_iterations res \<noteq> 0"
  shows "\<exists>r1 res'. iterate_round 0 (zeroed res, m) = Some (r1, m) \<and> iterate res m = Some (res', m)
    \<and> res_keeps r1 res' \<and> res_keeps (zeroed res) (r1\<lparr>res_crclist := 0\<rparr>)"
proof -
  have ready: "ready (zeroed res) m" using assms(1) by (simp add: ready_update)
  obtain r1 where r1: "iterate_round 0 (zeroed res, m) = Some (r1, m)"
    "res_keeps (zeroed res) (r1\<lparr>res_crclist := res_crclist (zeroed res)\<rparr>)"
    using iterate_round_ready [OF ready, of 0] by auto
  have "ready (r1\<lparr>res_crclist := res_crclist (zeroed res)\<rparr>) m" by (rule ready_keeps [OF ready r1(2)])
  then have ready1: "ready r1 m" by (simp add: ready_update)
  have "\<exists>s'. for_loop (unat (res_iterations res)) iterate_round (zeroed res, m) = Some s'
      \<and> snd s' = m \<and> res_keeps r1 (fst s')"
  proof (rule for_loop_first [where I = "\<lambda>i s'. snd s' = m \<and> res_keeps r1 (fst s')"])
    show "0 < unat (res_iterations res)" using assms(2) by (simp add: unat_gt_0)
    show "iterate_round 0 (zeroed res, m) = Some (r1, m)" by (fact r1(1))
    show "snd (r1, m) = m \<and> res_keeps r1 (fst (r1, m))" by (simp add: res_keeps_refl)
    fix i :: nat and s :: "core_results \<times> list_mem"
    assume i: "1 \<le> i" and s: "snd s = m \<and> res_keeps r1 (fst s)"
    then obtain a where a: "s = (a, m)" "res_keeps r1 a" by (cases s) simp
    obtain b where "iterate_round i (a, m) = Some (b, m)" "res_keeps a (b\<lparr>res_crclist := res_crclist a\<rparr>)"
      "res_crclist b = res_crclist a"
      using iterate_round_ready [OF ready_keeps [OF ready1 a(2)], of i] i by auto
    moreover from this have "b\<lparr>res_crclist := res_crclist a\<rparr> = b" by (metis core_results.surjective core_results.update_convs(11))
    ultimately show "\<exists>s'. iterate_round i s = Some s' \<and> snd s' = m \<and> res_keeps r1 (fst s')"
      using a res_keeps_trans by fastforce
  qed
  moreover have "iterate res m = for_loop (unat (res_iterations res)) iterate_round (zeroed res, m)"
    by (simp add: iterate_def zeroed_def)
  moreover have "res_crclist (zeroed res) = 0" by (simp add: zeroed_def)
  ultimately show ?thesis using r1 by (auto simp: prod_eq_iff)
qed

lemma iterate_round_same:
  assumes "same_run r r'" and "iterate_round i (r, m) = Some (t, m1)"
  shows "\<exists>t'. iterate_round i (r', m) = Some (t', m1) \<and> same_run t t' \<and> (i = 0 \<longrightarrow> res_crclist t' = res_crclist t)"
proof -
  obtain c1 r1 m2 c2 r2 where run: "core_bench_list r 1 m = Some (c1, r1, m2)"
    "core_bench_list (r1\<lparr>res_crc := crcu16 c1 (res_crc r1)\<rparr>) (-1) m2 = Some (c2, r2, m1)"
    "t = (if i = 0 then r2\<lparr>res_crc := crcu16 c2 (res_crc r2), res_crclist := crcu16 c2 (res_crc r2)\<rparr>
          else r2\<lparr>res_crc := crcu16 c2 (res_crc r2)\<rparr>)"
    using assms(2) by (auto simp: iterate_round_def Let_def bind_eq_Some_iff)
  obtain r1' where 1: "core_bench_list r' 1 m = Some (c1, r1', m2)" "same_run r1 r1'"
    using core_bench_list_same [OF assms(1) run(1)] by blast
  have "same_run (r1\<lparr>res_crc := crcu16 c1 (res_crc r1)\<rparr>) (r1'\<lparr>res_crc := crcu16 c1 (res_crc r1')\<rparr>)"
    using 1(2) by (simp add: same_run_def)
  then obtain r2' where 2: "core_bench_list (r1'\<lparr>res_crc := crcu16 c1 (res_crc r1')\<rparr>) (-1) m2 = Some (c2, r2', m1)"
    "same_run r2 r2'"
    using core_bench_list_same run(2) by blast
  show ?thesis
    using 1(1) 2 run(3) by (simp add: iterate_round_def same_run_def)
qed

lemma iterate_once:
  assumes "iterate_round 0 (zeroed res, m) = Some (r1, m1)" and "res_iterations res = 1"
  shows "iterate res m = Some (r1, m1)"
  using assms by (simp add: iterate_def for_loop_def zeroed_def)

text \<open>Structures that hold the same inputs.\<close>

definition same_inputs :: "core_results \<Rightarrow> core_results \<Rightarrow> bool" where
  "same_inputs r r' \<longleftrightarrow> same_run (zeroed r) (zeroed r')"

lemma same_inputs_refl: "results_ok r \<Longrightarrow> same_inputs r (r\<lparr>res_iterations := n\<rparr>)"
  by (auto simp: same_inputs_def same_run_def zeroed_def results_ok_def)

lemma same_inputs_trans: "same_inputs r r' \<Longrightarrow> same_inputs r' r'' \<Longrightarrow> same_inputs r r''"
  by (simp add: same_inputs_def same_run_def)

lemma same_inputs_keeps:
  assumes "results_ok r" and "res_keeps (zeroed r) (r'\<lparr>res_crclist := c\<rparr>)"
  shows "same_inputs r r'"
proof -
  have "results_ok (zeroed r)" using assms(1) by (auto simp: results_ok_def zeroed_def)
  from res_keeps_ok [OF assms(2) this] have "mat_ok (res_mat r')" by (simp add: results_ok_def)
  then show ?thesis
    using assms by (simp add: same_inputs_def same_run_def zeroed_def res_keeps_def results_ok_def)
qed

lemma same_inputs_ready:
  assumes "same_inputs r r'" and "ready r m"
  shows "ready r' m"
  using assms by (simp add: ready_def same_inputs_def same_run_def zeroed_def results_ok_def) metis

text \<open>Any number of iterations against one iteration from the same inputs.\<close>

lemma iterate_checksums:
  assumes "ready res m" and "same_inputs res res'" and "res_iterations res' \<noteq> 0"
  shows "\<exists>a b. iterate (res\<lparr>res_iterations := 1\<rparr>) m = Some (a, m) \<and> iterate res' m = Some (b, m)
    \<and> res_crclist b = res_crclist a
    \<and> (res_crcmatrix a \<noteq> 0 \<longrightarrow> res_crcmatrix b = res_crcmatrix a)
    \<and> (res_crcstate a \<noteq> 0 \<longrightarrow> res_crcstate b = res_crcstate a)
    \<and> same_inputs res b \<and> res_iterations b = res_iterations res'
    \<and> res_execs b = res_execs res' \<and> ready b m"
proof -
  define one where "one = res\<lparr>res_iterations := 1\<rparr>"
  have ok: "results_ok res" using assms(1) by (simp add: ready_def)
  have same: "same_inputs one res'"
    using assms(2) by (simp add: same_inputs_def one_def same_run_def zeroed_def)
  have ready: "ready one m" "ready res' m"
    using same_inputs_ready assms(1,2) by (simp_all add: one_def ready_update)
  obtain a where a: "iterate_round 0 (zeroed one, m) = Some (a, m)"
    using iterate_first [OF ready(1)] by (auto simp: one_def)
  obtain r1 b where b: "iterate_round 0 (zeroed res', m) = Some (r1, m)" "iterate res' m = Some (b, m)"
    "res_keeps r1 b" "res_keeps (zeroed res') (r1\<lparr>res_crclist := 0\<rparr>)"
    using iterate_first [OF ready(2) assms(3)] by blast
  have r1: "res_crclist r1 = res_crclist a" "res_crcmatrix r1 = res_crcmatrix a" "res_crcstate r1 = res_crcstate a"
    using iterate_round_same [OF _ a, of "zeroed res'"] same b(1) by (auto simp: same_inputs_def same_run_def)
  have "res_keeps (zeroed res') (b\<lparr>res_crclist := 0\<rparr>)"
    using b(3,4) by (auto simp: res_keeps_def)
  then have b': "same_inputs res' b" "res_iterations b = res_iterations res'" "res_execs b = res_execs res'"
    using same_inputs_keeps [of res' 0 b] ready(2) by (simp_all add: ready_def res_keeps_def zeroed_def)
  have "same_inputs res b" using same_inputs_trans [OF assms(2) b'(1)] .
  then show ?thesis
    using iterate_once [OF a] b b' r1 same_inputs_ready [OF _ assms(1)]
    by (auto simp: one_def res_keeps_def)
qed

lemma iterate_ready:
  assumes "ready res m"
  shows "\<exists>res'. iterate res m = Some (res', m) \<and> same_inputs res res'
    \<and> res_iterations res' = res_iterations res \<and> res_execs res' = res_execs res"
proof (cases "res_iterations res = 0")
  case True
  then have "iterate res m = Some (zeroed res, m)" by (simp add: iterate_def for_loop_def zeroed_def)
  moreover have "same_inputs res (zeroed res)"
    using assms by (auto simp: ready_def results_ok_def same_inputs_def same_run_def zeroed_def)
  ultimately show ?thesis by (simp add: zeroed_def)
next
  case False
  have "same_inputs res res"
    using assms by (auto simp: ready_def results_ok_def same_inputs_def same_run_def zeroed_def)
  then show ?thesis using iterate_checksums [OF assms _ False] iterate_first [OF assms False] same_inputs_keeps
    by blast
qed

section \<open>The calibration loop\<close>

text \<open>The ticks that round \<open>j\<close> of the loop measures, counting clock readings from \<open>r\<close>.\<close>

definition ticks :: "clock \<Rightarrow> nat \<Rightarrow> nat \<Rightarrow> u32" where
  "ticks clk r j = clk (r + 2 * j + 1) - clk (r + 2 * j)"

lemma ticks_Suc: "ticks clk (r + 2) j = ticks clk r (Suc j)"
  by (simp add: ticks_def)

lemma measured: "get_time (stop_time clk (start_time clk t)) = ticks clk (clock_reads t) 0"
  "clock_reads (stop_time clk (start_time clk t)) = clock_reads t + 2"
  by (simp_all add: get_time_def stop_time_def start_time_def ticks_def)

lemma less_one_second: "freq \<noteq> 0 \<Longrightarrow> t div freq < 1 \<longleftrightarrow> t < freq" for t freq :: u32
proof -
  assume f: "freq \<noteq> 0"
  have "t div freq < 1 \<longleftrightarrow> unat t div unat freq = 0" by (simp add: word_less_nat_alt unat_div)
  also have "\<dots> \<longleftrightarrow> t < freq"
    using f unat_gt_0 [of freq] by (auto simp: div_eq_0_iff word_less_nat_alt)
  finally show ?thesis .
qed

lemma calibrate_returns:
  assumes "ready res m" and "freq \<noteq> 0" and "\<forall>j<k. ticks clk (clock_reads t) j < freq"
    and "freq \<le> ticks clk (clock_reads t) k" and "secs < 1"
  shows "\<exists>res' t'. calibrate clk freq secs res m t = Some (ticks clk (clock_reads t) k div freq, res', m, t')
    \<and> same_inputs res res' \<and> res_iterations res' = res_iterations res * 10 ^ Suc k \<and> res_execs res' = res_execs res
    \<and> clock_reads t' = clock_reads t + 2 * Suc k"
  using assms
proof (induction k arbitrary: res t secs)
  case (0 res t secs)
  let ?r = "res\<lparr>res_iterations := res_iterations res * 10\<rparr>"
  obtain res' where i: "iterate ?r m = Some (res', m)" "same_inputs ?r res'"
    "res_iterations res' = res_iterations ?r" "res_execs res' = res_execs ?r"
    using iterate_ready [of ?r m] 0(1) by (auto simp: ready_update)
  have "same_inputs res ?r" using 0(1) by (intro same_inputs_refl) (simp add: ready_def)
  then have same: "same_inputs res res'" using i(2) by (rule same_inputs_trans)
  let ?t = "stop_time clk (start_time clk t)"
  have ends: "\<not> ticks clk (clock_reads t) 0 div freq < 1"
    unfolding less_one_second [OF 0(2)] using 0(4) by (rule leD)
  have "calibrate clk freq secs res m t = Some (ticks clk (clock_reads t) 0 div freq, res', m, ?t)"
    using 0(2,5) i(1) ends
    by (subst calibrate.simps) (simp add: Let_def time_in_secs_def measured calibrate.simps [of clk freq "ticks clk (clock_reads t) 0 div freq"])
  then show ?case using same i(3,4) by (simp add: measured mult.commute)
next
  case (Suc k res t secs)
  let ?r = "res\<lparr>res_iterations := res_iterations res * 10\<rparr>"
  obtain res1 where i: "iterate ?r m = Some (res1, m)" "same_inputs ?r res1"
    "res_iterations res1 = res_iterations ?r" "res_execs res1 = res_execs ?r"
    using iterate_ready [of ?r m] Suc.prems(1) by (auto simp: ready_update)
  have "same_inputs res ?r" using Suc.prems(1) by (intro same_inputs_refl) (simp add: ready_def)
  then have same: "same_inputs res res1" using i(2) by (rule same_inputs_trans)
  let ?t = "stop_time clk (start_time clk t)"
  let ?s = "ticks clk (clock_reads t) 0 div freq"
  have more: "?s < 1" unfolding less_one_second [OF Suc.prems(2)] using Suc.prems(3) by blast
  have step: "calibrate clk freq secs res m t = calibrate clk freq ?s res1 m ?t"
    using Suc.prems(2,5) i(1) by (subst calibrate.simps) (simp add: Let_def time_in_secs_def measured)
  have "ready res1 m" using same_inputs_ready [OF same Suc.prems(1)] .
  moreover have "\<forall>j<k. ticks clk (clock_reads ?t) j < freq" "freq \<le> ticks clk (clock_reads ?t) k"
    using Suc.prems(3,4) unfolding measured ticks_Suc by auto
  ultimately obtain res' t' where "calibrate clk freq ?s res1 m ?t = Some (ticks clk (clock_reads ?t) k div freq, res', m, t')"
    "same_inputs res1 res'" "res_iterations res' = res_iterations res1 * 10 ^ Suc k" "res_execs res' = res_execs res1"
    "clock_reads t' = clock_reads ?t + 2 * Suc k"
    using Suc.IH [of res1 ?t ?s] Suc.prems(2) more by blast
  then show ?case
    using step same_inputs_trans [OF same] i(3,4) unfolding measured ticks_Suc
    by (auto simp: algebra_simps)
qed

lemma calibrate_ends:
  assumes "calibrate clk freq secs res m t = Some out" and "secs < 1"
  shows "\<exists>k. freq \<le> ticks clk (clock_reads t) k"
proof -
  have "secs < 1 \<longrightarrow> (\<exists>k. freq \<le> ticks clk (clock_reads t) k)"
    using assms(1)
  proof (induction rule: calibrate.raw_induct [rotated, consumes 1, case_names step])
    case (step calibrate clk freq secs res m t out)
    show ?case
    proof
      assume "secs < 1"
      then obtain res1 m1 where run: "iterate (res\<lparr>res_iterations := res_iterations res * 10\<rparr>) m = Some (res1, m1)"
        and f: "freq \<noteq> 0"
        and more: "calibrate clk freq (ticks clk (clock_reads t) 0 div freq) res1 m1 (stop_time clk (start_time clk t)) = Some out"
        using step(2) by (auto simp: Let_def bind_eq_Some_iff time_in_secs_def measured split: if_splits)
      show "\<exists>k. freq \<le> ticks clk (clock_reads t) k"
      proof (cases "ticks clk (clock_reads t) 0 div freq < 1")
        case True
        then obtain k where "freq \<le> ticks clk (clock_reads t) (Suc k)"
          using step(1) [OF more] unfolding measured ticks_Suc by blast
        then show ?thesis ..
      next
        case False
        then have "freq \<le> ticks clk (clock_reads t) 0" unfolding less_one_second [OF f] by (rule leI)
        then show ?thesis ..
      qed
    qed
  qed
  then show ?thesis using assms(2) by blast
qed

end
