(* ===== verification/MainReport.thy ===== *)
theory MainReport
  imports MainRun
begin

text \<open>
  The report of the benchmark program: every text fits the buffer of \<open>ee_printf\<close>, and the last one is
  the verdict on the number of errors.
\<close>

section \<open>Texts that fit the buffer\<close>

definition fits :: "string \<Rightarrow> varg list \<Rightarrow> nat \<Rightarrow> bool" where
  "fits fmt args n \<longleftrightarrow> (case ee_vsprintf fmt args of None \<Rightarrow> False | Some s \<Rightarrow> length s \<le> n)"

lemma fits_Nil [simp]: "fits [] args n"
  by (simp add: fits_def)

lemma fits_literal [simp]: "c \<noteq> CHR ''%'' \<Longrightarrow> fits (c # s) args n \<longleftrightarrow> 0 < n \<and> fits s args (n - 1)"
  by (cases "ee_vsprintf s args") (auto simp: fits_def)

lemma fits_directive:
  assumes "directive s args = Some (out, s', args')" and "length out \<le> k"
  shows "k \<le> n \<Longrightarrow> fits s' args' (n - k) \<Longrightarrow> fits (CHR ''%'' # s) args n"
  using assms by (cases "ee_vsprintf s' args'") (auto simp: fits_def)

lemma number_text_short: "length (number_text num 10 (-1) (-1) ty) \<le> 67"
proof -
  have "length (digit_text ty w 10) \<le> 64" for w
    using digit_loop_length [of 10 "[]" w] by (simp add: digit_text_def digit_loop_list)
  from this [of "magnitude ty num"]
  have "int (length (number_text num 10 (-1) (-1) ty)) \<le> 67"
    unfolding number_text_length by (simp add: sign_text_def prefix_text_def)
  then show ?thesis by simp
qed

lemmas directive_unfold = directive_def no_flags_def parse_width_def parse_precision_def starts_digit_def starts_def
  is_digit_char_def convert_num_def convert_s_def

lemma fits_d [simp]: "67 \<le> n \<Longrightarrow> fits s args (n - 67) \<Longrightarrow> fits (CHR ''%'' # CHR ''d'' # s) (VNum w # args) n"
  by (rule fits_directive [OF _ number_text_short])
    (simp_all add: directive_unfold number_eq scast_not_least [simplified])

lemma fits_u [simp]: "67 \<le> n \<Longrightarrow> fits s args (n - 67) \<Longrightarrow> fits (CHR ''%'' # CHR ''u'' # s) (VNum w # args) n"
  by (rule fits_directive [OF _ number_text_short])
    (simp_all add: directive_unfold number_eq_unsigned)

lemma fits_lu [simp]: "67 \<le> n \<Longrightarrow> fits s args (n - 67) \<Longrightarrow> fits (CHR ''%'' # CHR ''l'' # CHR ''u'' # s) (VNum w # args) n"
  by (rule fits_directive [OF _ number_text_short])
    (simp_all add: directive_unfold number_eq_unsigned)

lemma number_text_hex_short: "length (number_text num 16 4 (-1) (no_flags\<lparr>ZEROPAD := True\<rparr>)) \<le> 67"
proof -
  have "length (digit_text ty w 16) \<le> 64" for ty w
    using digit_loop_length [of 16 "[]" w] by (simp add: digit_text_def digit_loop_list)
  from this [of "no_flags\<lparr>ZEROPAD := True\<rparr>" "magnitude (no_flags\<lparr>ZEROPAD := True\<rparr>) num"]
  have "int (length (number_text num 16 4 (-1) (no_flags\<lparr>ZEROPAD := True\<rparr>))) \<le> 67"
    unfolding number_text_length by (simp add: sign_text_def prefix_text_def no_flags_def)
  then show ?thesis by simp
qed

lemma fits_04x [simp]:
  "67 \<le> n \<Longrightarrow> fits s args (n - 67) \<Longrightarrow> fits (CHR ''%'' # CHR ''0'' # CHR ''4'' # CHR ''x'' # s) (VNum w # args) n"
  by (rule fits_directive [OF _ number_text_hex_short])
    (simp_all add: directive_unfold number_eq_unsigned)

lemma fits_s [simp]:
  assumes "length t \<le> n" and "fits s args (n - length t)"
  shows "fits (CHR ''%'' # CHR ''s'' # s) (VStr (Some t) # args) n"
proof (rule fits_directive [OF _ _ assms])
  have "length (take (strnlen t (word_of_int (-1))) t) \<le> length t" by simp
  then have "justify no_flags (take (strnlen t (word_of_int (-1))) t) (-1) = take (strnlen t (word_of_int (-1))) t"
    by (simp add: justify_eq)
  then show "directive (CHR ''s'' # s) (VStr (Some t) # args) = Some (take (strnlen t (word_of_int (-1))) t, s, args)"
    by (simp add: directive_unfold)
qed simp

lemma say_ok: "fits fmt args 1023 \<Longrightarrow> \<exists>s. say fmt args out = Some (out @ [s])"
  by (cases "ee_vsprintf fmt args") (auto simp: fits_def say_def ee_printf_def Let_def)

lemma say_text:
  assumes "CHR ''%'' \<notin> set s" and "char_of (0 :: nat) \<notin> set s" and "length s < 1024"
  shows "say s args out = Some (out @ [s])"
  using ee_printf_literal [OF assms(1,2)] assms(3) by (simp add: say_def)


section \<open>Errors and verdict\<close>

definition verdict :: "s16 \<Rightarrow> string" where
  "verdict total_errors =
     (if total_errors = 0 then ''Correct operation validated. See README.md for run and reporting rules.''
      else if sint total_errors > 0 then ''Errors detected''
      else ''Cannot validate operation for these seed values, please compare with results on a known platform.'') @ nl"

lemma char_0: "char_of (0 :: nat) = CHR 0x00"
  by (simp add: char_of_def)

lemma say_verdict:
  "say (''Correct operation validated. See README.md for run and reporting rules.'' @ nl) [] out =
     Some (out @ [''Correct operation validated. See README.md for run and reporting rules.'' @ nl])"
  "say (''Errors detected'' @ nl) [] out = Some (out @ [''Errors detected'' @ nl])"
  "say (''Cannot validate operation for these seed values, please compare with results on a known platform.'' @ nl) [] out =
     Some (out @ [''Cannot validate operation for these seed values, please compare with results on a known platform.'' @ nl])"
  by (rule say_text; simp add: nl_def char_0)+

text \<open>A step that appends to the output \<open>out\<close> and goes on; \<open>Q\<close> is what it returns.\<close>

definition writes :: "'a option \<Rightarrow> string list \<Rightarrow> (string list \<Rightarrow> 'a) \<Rightarrow> bool" where
  "writes r out Q \<longleftrightarrow> (\<exists>ss. r = Some (Q (out @ ss)))"

lemma writes_bind:
  assumes "writes r out id" and "\<And>out'. writes (g out') out' Q"
  shows "writes (Option.bind r g) out Q"
proof -
  obtain ss where "r = Some (out @ ss)" using assms(1) by (auto simp: writes_def)
  moreover obtain ts where "g (out @ ss) = Some (Q ((out @ ss) @ ts))"
    using assms(2) unfolding writes_def by blast
  ultimately show ?thesis by (auto simp: writes_def)
qed

lemma writes_say: "fits fmt args 1023 \<Longrightarrow> writes (say fmt args out) out id"
  using say_ok [of fmt args out] by (auto simp: writes_def)

lemma writes_say_if: "fits (fmt @ nl) args 1023 \<Longrightarrow> writes (say_if b fmt args out) out id"
  using say_ok [of "fmt @ nl" args out] by (cases b) (auto simp: writes_def say_if_def)

lemma writes_Some: "writes (Some (Q out)) out Q"
  by (auto simp: writes_def intro: exI [of _ "[]"])

lemma report_verdict_eq: "report_verdict total_errors out = Some (out @ [verdict total_errors])"
proof -
  consider "total_errors = 0" "\<not> sint total_errors > 0" "\<not> sint total_errors < 0"
    | "total_errors \<noteq> 0" "sint total_errors > 0" "\<not> sint total_errors < 0"
    | "total_errors \<noteq> 0" "\<not> sint total_errors > 0" "sint total_errors < 0"
    using signed_word_eqI [of total_errors 0] by fastforce
  then show ?thesis
    unfolding report_verdict_def say_if_def verdict_def
    by cases (simp_all only: if_True if_False say_verdict Option.bind.bind_lunit simp_thms)
qed

lemma report_crcs_verdict: "writes (report_crcs res total_errors out) out (\<lambda>out. out @ [verdict total_errors])"
  unfolding report_crcs_def report_verdict_eq
  by (intro writes_bind writes_say writes_say_if writes_Some) (simp_all add: nl_def)

definition too_short :: "u32 \<Rightarrow> u32 \<Rightarrow> bool" where
  "too_short freq total_time \<longleftrightarrow> total_time div freq < 10"

lemma report_times_errors:
  assumes "freq \<noteq> 0" and "length ver < 1000" and "length flgs < 1000"
  shows "writes (report_times freq ver flgs total_time res total_errors out) out
    (Pair (if too_short freq total_time then total_errors + 1 else total_errors))"
proof -
  have secs: "time_in_secs freq total_time = Some (total_time div freq)"
    using assms(1) by (simp add: time_in_secs_def)
  show ?thesis
    unfolding report_times_def secs Option.bind.bind_lunit Let_def too_short_def
    by (intro writes_bind writes_say writes_say_if writes_Some) (use assms(2,3) in \<open>simp_all add: nl_def\<close>)
qed

text \<open>The checksums of the selected algorithms that differ from the known ones.\<close>

definition mismatches :: "core_results \<Rightarrow> nat \<Rightarrow> nat" where
  "mismatches res known_id = length (filter id
     [res_execs res AND 1 \<noteq> 0 \<and> res_crclist res \<noteq> list_known_crc ! known_id,
      res_execs res AND 2 \<noteq> 0 \<and> res_crcmatrix res \<noteq> matrix_known_crc ! known_id,
      res_execs res AND 4 \<noteq> 0 \<and> res_crcstate res \<noteq> state_known_crc ! known_id])"

definition crc_errors :: "core_results \<Rightarrow> s16" where
  "crc_errors res = (case known_run (seedcrc res) of None \<Rightarrow> -1 | Some (known_id, _) \<Rightarrow> of_nat (mismatches res known_id))"

lemma crc_error_eq:
  assumes "fits (fmt @ nl) [VNum 0, VNum (ucast crc), VNum (ucast known)] 1023"
  shows "\<exists>ss. crc_error on fmt crc known (err, out) = Some (err + (if on \<and> crc \<noteq> known then 1 else 0), out @ ss)"
  using say_ok [OF assms, of out] by (auto simp: crc_error_def)

lemma check_crcs_eq: "\<exists>ss. check_crcs res known_id out = Some (of_nat (mismatches res known_id), out @ ss)"
proof -
  let ?m1 = "res_execs res AND 1 \<noteq> 0 \<and> res_crclist res \<noteq> list_known_crc ! known_id"
  let ?m2 = "res_execs res AND 2 \<noteq> 0 \<and> res_crcmatrix res \<noteq> matrix_known_crc ! known_id"
  let ?m3 = "res_execs res AND 4 \<noteq> 0 \<and> res_crcstate res \<noteq> state_known_crc ! known_id"
  define e1 where "e1 = (0 :: s16) + (if ?m1 then 1 else 0)"
  define e2 where "e2 = e1 + (if ?m2 then 1 else 0)"
  obtain s1 where 1: "crc_error (res_execs res AND 1 \<noteq> 0) ''[%u]ERROR! list crc 0x%04x - should be 0x%04x''
       (res_crclist res) (list_known_crc ! known_id) (0, out) = Some (e1, out @ s1)"
    unfolding e1_def using crc_error_eq [of "''[%u]ERROR! list crc 0x%04x - should be 0x%04x''"] by (fastforce simp: nl_def)
  obtain s2 where 2: "crc_error (res_execs res AND 2 \<noteq> 0) ''[%u]ERROR! matrix crc 0x%04x - should be 0x%04x''
       (res_crcmatrix res) (matrix_known_crc ! known_id) (e1, out @ s1) = Some (e2, (out @ s1) @ s2)"
    unfolding e2_def using crc_error_eq [of "''[%u]ERROR! matrix crc 0x%04x - should be 0x%04x''"] by (fastforce simp: nl_def)
  obtain s3 where 3: "crc_error (res_execs res AND 4 \<noteq> 0) ''[%u]ERROR! state crc 0x%04x - should be 0x%04x''
       (res_crcstate res) (state_known_crc ! known_id) (e2, (out @ s1) @ s2) =
       Some (e2 + (if ?m3 then 1 else 0), ((out @ s1) @ s2) @ s3)"
    using crc_error_eq [of "''[%u]ERROR! state crc 0x%04x - should be 0x%04x''"] by (fastforce simp: nl_def)
  have "e2 + (if ?m3 then 1 else 0) = of_nat (mismatches res known_id)"
    unfolding e2_def e1_def mismatches_def by (cases ?m1; cases ?m2; cases ?m3) simp_all
  then show ?thesis
    unfolding check_crcs_def 1 2 3 Option.bind.bind_lunit by (intro exI [of _ "s1 @ s2 @ s3"]) simp
qed

lemma known_run_text: "known_run c = Some (i, msg) \<Longrightarrow> fits (msg @ nl) [] 1023 \<and> i < 5"
  by (auto simp: known_run_def nl_def split: if_splits)

lemma validate_eq:
  "\<exists>ss err. validate res out = Some (crc_errors res, res\<lparr>res_err := err\<rparr>, out @ ss)"
proof (cases "known_run (seedcrc res)")
  case None
  then show ?thesis
    by (intro exI [of _ "[]"] exI [of _ "res_err res"]) (simp add: validate_def crc_errors_def)
next
  case (Some x)
  obtain i msg where x: "x = (i, msg)" by fastforce
  obtain s1 where 1: "say (msg @ nl) [] out = Some (out @ [s1])"
    using known_run_text Some x say_ok by blast
  obtain s2 where 2: "check_crcs res i (out @ [s1]) = Some (of_nat (mismatches res i), (out @ [s1]) @ s2)"
    using check_crcs_eq by blast
  show ?thesis
    unfolding validate_def crc_errors_def Some x option.case prod.case 1 2 Option.bind.bind_lunit
    by (intro exI [of _ "s1 # s2"] exI [of _ "of_nat (mismatches res i)"]) simp
qed

lemma lp64_checks: "portable_init lp64_sizes out = Some (out, 1)" "check_data_types lp64_sizes out = Some (0, out)"
  "\<not> list_head_size lp64_sizes > 128"
  by (simp_all add: portable_init_def check_data_types_def type_error_def lp64_sizes_def list_head_size_def)

end
