(* ===== verification/MainInit.thy ===== *)
theory MainInit
  imports MainReport
begin

text \<open>
  The initialisation of the benchmark program, the memory blocks it hands out, and the whole program
  from the seeds to the verdict.
\<close>

section \<open>The memory blocks\<close>

lemma upto_3: "[0..<3] = [0, 1, 2 :: nat]"
  by code_simp

lemma num_algorithms_cases:
  "num_algorithms execs = (if selected execs 0 then 1 else 0) + (if selected execs 1 then 1 else 0) + (if selected execs 2 then 1 else 0)"
  by (simp add: num_algorithms_def upto_3)

lemma selected_7 [simp]: "selected 7 0" "selected 7 1" "selected 7 (Suc 0)" "selected 7 2"
  by (simp_all add: selected_def)

lemma assign_blocks_3:
  "assign_blocks base sz execs [0..<3] 0 =
    (let a = (if selected execs 0 then 1 else 0); b = (if selected execs 1 then 1 else 0)
     in [if selected execs 0 then Some base else None,
         if selected execs 1 then Some (base + ucast (sz * a)) else None,
         if selected execs 2 then Some (base + ucast (sz * (a + b))) else None])"
  by (simp add: upto_3 Let_def)

lemma add_offset:
  fixes base :: u64 and n :: u32
  assumes "unat base + 2000 < 2 ^ 64" and "unat n \<le> 2000"
  shows "unat (base + ucast n) = unat base + unat n"
proof -
  have "unat (ucast n :: u64) = unat n" by (rule unat_ucast_32_64)
  then show ?thesis using assms by (simp add: unat_plus_if_size word_size)
qed

lemma blocks_apart:
  assumes n: "0 < num_algorithms execs" and base: "unat base + 2000 < 2 ^ 64"
    and sz: "sz = TOTAL_DATA_SIZE div of_nat (num_algorithms execs)"
    and i: "i < 3" "assign_blocks base sz execs [0..<3] 0 ! i = Some a"
  shows "unat base \<le> unat a \<and> unat a + unat sz \<le> unat base + 2000
    \<and> (\<forall>j b. j < i \<longrightarrow> assign_blocks base sz execs [0..<3] 0 ! j = Some b \<longrightarrow> unat b + unat sz \<le> unat a)"
proof -
  have off: "unat (base + 1000) = unat base + 1000" "unat (base + 666) = unat base + 666" "unat (base + 1332) = unat base + 1332"
    using add_offset [OF base, of 1000] add_offset [OF base, of 666] add_offset [OF base, of 1332] by simp_all
  have j2: "j < 2 \<longleftrightarrow> j = 0 \<or> j = 1" for j :: nat by auto
  have "i = 0 \<or> i = 1 \<or> i = 2" using i(1) by linarith
  then show ?thesis
    using i(2) n unfolding sz num_algorithms_cases TOTAL_DATA_SIZE_def assign_blocks_3 Let_def
    by (cases "selected execs 0"; cases "selected execs 1"; cases "selected execs 2")
      (auto simp: off j2)
qed

text \<open>
  The matrices start at the next multiple of four, so a block that is not aligned loses up to three
  bytes. For the block sizes of the program, what is left is still enough.
\<close>

lemma matrices_in_block:
  assumes sz: "sz = 2000 \<or> sz = 1000 \<or> sz = 666"
    and mem: "\<forall>N. length (fst (mem N)) = unat N * unat N \<and> length (fst (snd (mem N))) = unat N * unat N"
    and addr: "0 < unat memblk" "unat memblk + 2008 < 2 ^ 64"
  shows "\<exists>N p L. core_init_matrix sz memblk seed mem = Some (N, p, L)
    \<and> unat memblk \<le> unat (addrA L) \<and> unat (addrC L) + 4 * (unat N * unat N) \<le> unat memblk + unat sz"
proof -
  have b: "0 < unat sz" "unat sz \<le> 4294791200" "unat memblk + unat sz + 8 < 2 ^ 64"
    using sz addr(2) by auto
  obtain N p where i: "core_init_matrix sz memblk seed mem = Some (N, p, matrix_layout memblk N)"
    "8 * (unat N * unat N) < unat sz" "unat sz \<le> 8 * ((unat N + 1) * (unat N + 1))"
    "length (matA p) = unat N * unat N" "length (matB p) = unat N * unat N"
    "let L = matrix_layout memblk N; a = 4 * ((unat memblk + 3) div 4) in
         unat (addrA L) = a \<and> unat (addrB L) = a + 2 * length (matA p)
         \<and> unat (addrC L) = unat (addrB L) + 2 * length (matB p)
         \<and> unat (addrC L) + 4 * (unat N * unat N) < a + unat sz"
    using core_init_matrix_eq [OF b(1,2) mem addr(1) b(3), of seed] by blast
  have dim: "n = d" if "8 * (n * n) < m" "m \<le> 8 * ((n + 1) * (n + 1))" "8 * (d * d) < m" "m \<le> 8 * ((d + 1) * (d + 1))"
    for n d m :: nat
  proof (rule ccontr)
    assume "n \<noteq> d"
    then consider "n + 1 \<le> d" | "d + 1 \<le> n" by linarith
    then show False
    proof cases
      case 1
      then have "(n + 1) * (n + 1) \<le> d * d" by (intro mult_le_mono)
      then show ?thesis using that by linarith
    next
      case 2
      then have "(d + 1) * (d + 1) \<le> n * n" by (intro mult_le_mono)
      then show ?thesis using that by linarith
    qed
  qed
  have "8 * (unat N * unat N) + 3 \<le> unat sz"
    using sz
  proof (elim disjE)
    assume s: "sz = 2000"
    have "unat N = 15" by (rule dim [OF i(2,3)]) (simp_all add: s)
    then show ?thesis by (simp add: s)
  next
    assume s: "sz = 1000"
    have "unat N = 11" by (rule dim [OF i(2,3)]) (simp_all add: s)
    then show ?thesis by (simp add: s)
  next
    assume s: "sz = 666"
    have "unat N = 9" by (rule dim [OF i(2,3)]) (simp_all add: s)
    then show ?thesis by (simp add: s)
  qed
  moreover have "unat memblk \<le> 4 * ((unat memblk + 3) div 4)" "4 * ((unat memblk + 3) div 4) \<le> unat memblk + 3"
    by linarith+
  ultimately show ?thesis
    using i(1,4-6) by (intro exI [of _ N] exI [of _ p] exI [of _ "matrix_layout memblk N"]) (simp add: Let_def)
qed

section \<open>Initialisation\<close>

text \<open>The seeds that give a block of 666 bytes distinct indexes and no pattern byte that turns into a comma.\<close>

definition good_seed :: "s16 \<Rightarrow> bool" where
  "good_seed seed \<longleftrightarrow> safe_seed seed \<and> distinct (map (\<lambda>x. idx (init_item 31 seed x)) [0..<30])"

definition memory_ok :: "memory \<Rightarrow> bool" where
  "memory_ok mem \<longleftrightarrow> length (heads (mem_list mem)) = 31 \<and> length (datas (mem_list mem)) = 31
     \<and> (\<forall>N. length (fst (mem_matrix mem N)) = unat N * unat N
          \<and> length (fst (snd (mem_matrix mem N))) = unat N * unat N
          \<and> length (snd (snd (mem_matrix mem N))) = unat N * unat N)
     \<and> length (mem_state mem) = 666"

lemma safe_seeds: "safe_seed 0" "safe_seed 0x3415" "safe_seed 8"
  by code_simp+

lemma good_seeds: "good_seed 0" "good_seed 0x3415" "good_seed 8"
  by (simp_all add: good_seed_def safe_seeds upt_rec init_item_def item_index_def)

lemma init_blocks_ready:
  assumes "res_size res = 666" and "res_execs res = 7" and "res_seed1 res = seed" and "res_seed2 res = seed"
    and "good_seed seed" and "memory_ok mem" and "blocks ! 1 = Some blk"
    and blk: "0 < unat blk" "unat blk + 2008 < 2 ^ 64"
  shows "\<exists>lst mat block m. init_blocks res blocks mem = Some (res\<lparr>res_list := lst, res_mat := mat, res_memblock3 := block\<rparr>, m)
    \<and> ready (res\<lparr>res_list := lst, res_mat := mat, res_memblock3 := block\<rparr>) m"
proof -
  have ls: "list_size 666 = 31" by (simp add: list_size_def)
  have mem: "length (heads (mem_list mem)) = 31" "length (datas (mem_list mem)) = 31" "length (mem_state mem) = 666"
    "\<forall>N. length (fst (mem_matrix mem N)) = unat N * unat N \<and> length (fst (snd (mem_matrix mem N))) = unat N * unat N"
    "\<forall>N. length (snd (snd (mem_matrix mem N))) = unat N * unat N"
    using assms(6) by (simp_all add: memory_ok_def)
  have seed: "safe_seed seed" "distinct (map (\<lambda>x. idx (init_item (list_size 666) seed x)) [0..<31 - 1])"
    using assms(5) by (simp_all add: good_seed_def ls)
  obtain lst m xs where 1: "core_list_init 666 (mem_list mem) seed = Some (lst, m)" "wf_list m lst xs" "pristine m xs"
    "length xs = 31 - 1"
    using core_list_init_pristine [OF _ _ _ mem(1,2) seed(2)] ls by auto
  obtain N mat L where 2: "core_init_matrix 666 blk (scast seed OR push_bit 16 (scast seed)) (mem_matrix mem) = Some (N, mat, L)"
    "8 * (unat N * unat N) < 666" "matN mat = N" "matC mat = snd (snd (mem_matrix mem N))"
    "length (matA mat) = unat N * unat N" "length (matB mat) = unat N * unat N"
    using core_init_matrix_eq [of 666 "mem_matrix mem" blk "scast seed OR push_bit 16 (scast seed)"] mem(4) blk by auto
  obtain block z where 3: "core_init_state 666 seed (mem_state mem) = Some block" "length block = 666"
    "Suc z < 666" "block ! z = 0" "block ! Suc z = 0"
    "\<forall>i<666. block ! i = 0x2c \<or> block ! i = 0 \<or> block ! i \<in> set (concat patterns)"
    using core_init_state_bytes [of 666 "mem_state mem" seed] mem(3) by auto
  have "b = 0x2c \<or> b XOR ucast seed \<noteq> 0x2c \<or> (ucast seed :: u8) = 0" if "b \<in> set block" for b
    using safe_seed_bytes [OF seed(1), of b] 3(2,6) that by (auto simp: in_set_conv_nth)
  then have state: "state_block_ok 666 seed block"
    using 3(2-5) by (auto simp: state_block_ok_def)
  have mat: "mat_ok mat" using 2 mem(5) by (simp add: mat_ok_def Let_def)
  have "init_blocks res blocks mem = Some (res\<lparr>res_list := lst, res_mat := mat, res_memblock3 := block\<rparr>, m)"
    using assms(1-4,7) 1(1) 2(1) 3(1) by (simp add: init_blocks_def)
  moreover have "ready (res\<lparr>res_list := lst, res_mat := mat, res_memblock3 := block\<rparr>) m"
    using 1(2-4) state mat assms(1-4) by (auto simp: ready_def results_ok_def)
  ultimately show ?thesis by blast
qed

lemma prepare_ready:
  assumes seeds: "seed_defaults (get_seed v 1, get_seed v 2, get_seed v 3) = (seed, seed, seed3)" "get_seed_32 v 5 = 0"
    and "good_seed seed" and "memory_ok mem" and base: "unat static_memblk + 4000 < 2 ^ 64"
  shows "\<exists>res0 m. prepare v static_memblk mem res = Some (res0, m) \<and> ready res0 m
    \<and> res_seed1 res0 = seed \<and> res_seed2 res0 = seed \<and> res_seed3 res0 = seed3 \<and> res_size res0 = 666
    \<and> res_execs res0 = 7 \<and> res_iterations res0 = get_seed_32 v 4 \<and> res_err res0 = 0"
proof -
  have n: "num_algorithms 7 = 3" by (simp add: num_algorithms_cases selected_def)
  have sz: "TOTAL_DATA_SIZE div of_nat 3 = 666" by (simp add: TOTAL_DATA_SIZE_def)
  define r where "r = res\<lparr>res_seed1 := seed, res_seed2 := seed, res_seed3 := seed3,
                  res_iterations := get_seed_32 v 4, res_execs := 7, res_size := 666, res_err := 0\<rparr>"
  have blk: "assign_blocks static_memblk 666 7 [0..<3] 0 ! 1 = Some (static_memblk + 666)"
    by (simp add: assign_blocks_3 Let_def)
  have "unat (static_memblk + ucast (666 :: u32)) = unat static_memblk + unat (666 :: u32)"
    by (rule add_offset) (use base in simp_all)
  then have addr: "0 < unat (static_memblk + 666)" "unat (static_memblk + 666) + 2008 < 2 ^ 64" using base by simp_all
  obtain lst mat block m where i: "init_blocks r (assign_blocks static_memblk 666 7 [0..<3] 0) mem =
      Some (r\<lparr>res_list := lst, res_mat := mat, res_memblock3 := block\<rparr>, m)"
    "ready (r\<lparr>res_list := lst, res_mat := mat, res_memblock3 := block\<rparr>) m"
    using init_blocks_ready [of r seed mem, OF _ _ _ _ assms(3,4) blk addr] by (auto simp: r_def)
  have "prepare v static_memblk mem res = init_blocks r (assign_blocks static_memblk 666 7 [0..<3] 0) mem"
    using n sz unfolding prepare_def seeds Let_def by (simp add: r_def)
  then show ?thesis using i by (simp add: r_def)
qed

end
