(* ===== verification/Coremark.thy ===== *)
theory Coremark
  imports MainInit
begin

text \<open>
  The benchmark program as a whole, coremark/core_main.c: from the seeds through the initialised
  blocks, the calibration and the iterations to the verdict of the report.
\<close>

section \<open>From the seeds to the verdict\<close>

text \<open>What one iteration from the initialised blocks leaves in the results.\<close>

definition reference :: "core_results \<Rightarrow> list_mem \<Rightarrow> core_results" where
  "reference res m = (case iterate (res\<lparr>res_iterations := 1\<rparr>) m of None \<Rightarrow> res | Some (r, _) \<Rightarrow> r)"

definition agrees :: "core_results \<Rightarrow> core_results \<Rightarrow> bool" where
  "agrees one r \<longleftrightarrow> res_crclist r = res_crclist one
     \<and> (res_crcmatrix one \<noteq> 0 \<longrightarrow> res_crcmatrix r = res_crcmatrix one)
     \<and> (res_crcstate one \<noteq> 0 \<longrightarrow> res_crcstate r = res_crcstate one)"

definition build_ok :: "build \<Rightarrow> bool" where
  "build_ok b \<longleftrightarrow> sizes b = lp64_sizes \<and> timer_freq b \<noteq> 0
     \<and> length (compiler_version b) < 1000 \<and> length (compiler_flags b) < 1000"

lemma coremark_main_runs:
  assumes b: "build_ok b" and p: "prepare v base mem res = Some (res0, m)" and ready: "ready res0 m"
    and s: "set_iterations clk (timer_freq b) res0 m t = Some (res1, m, t1)" "same_inputs res0 res1"
      "res_execs res1 = res_execs res0" "res_iterations res1 \<noteq> 0"
  shows "\<exists>out. coremark_main b clk v base mem res t = Some out
    \<and> list_block out = m \<and> agrees (reference res0 m) (results out)
    \<and> res_iterations (results out) = res_iterations res1 \<and> seedcrc (results out) = seedcrc res0
    \<and> errors out = crc_errors (results out) + (if too_short (timer_freq b) (ticks clk (clock_reads t1) 0) then 1 else 0)
    \<and> last (uart out) = verdict (errors out)"
proof -
  obtain a r where i: "iterate (res0\<lparr>res_iterations := 1\<rparr>) m = Some (a, m)" "iterate res1 m = Some (r, m)"
    "res_crclist r = res_crclist a"
    "res_crcmatrix a \<noteq> 0 \<longrightarrow> res_crcmatrix r = res_crcmatrix a"
    "res_crcstate a \<noteq> 0 \<longrightarrow> res_crcstate r = res_crcstate a"
    "same_inputs res0 r" "res_iterations r = res_iterations res1"
    using iterate_checksums [OF ready s(2,4)] by blast
  have a: "agrees (reference res0 m) r" using i(1,3-5) by (simp add: agrees_def reference_def)
  obtain ss err where v: "validate r [] = Some (crc_errors r, r\<lparr>res_err := err\<rparr>, [] @ ss)"
    using validate_eq by blast
  let ?r = "r\<lparr>res_err := err\<rparr>"
  have "mismatches ?r = mismatches r" by (rule ext) (simp add: mismatches_def)
  then have r: "crc_errors ?r = crc_errors r" "seedcrc ?r = seedcrc r"
    by (simp_all add: crc_errors_def seedcrc_def split: option.split)
  have seed: "seedcrc r = seedcrc res0"
    using i(6) by (simp add: seedcrc_def same_inputs_def same_run_def zeroed_def)
  let ?total = "ticks clk (clock_reads t1) 0"
  define te where "te = (if too_short (timer_freq b) ?total then crc_errors r + 1 else crc_errors r)"
  have b': "sizes b = lp64_sizes" "timer_freq b \<noteq> 0" "length (compiler_version b) < 1000" "length (compiler_flags b) < 1000"
    using b by (simp_all add: build_ok_def)
  obtain ts where times: "report_times (timer_freq b) (compiler_version b) (compiler_flags b) ?total ?r (crc_errors r) ss = Some (te, ss @ ts)"
    using report_times_errors [OF b'(2-4), of ?total ?r "crc_errors r" ss] unfolding writes_def te_def by auto
  obtain us where crcs: "report_crcs ?r te (ss @ ts) = Some ((ss @ ts) @ us @ [verdict te])"
    using report_crcs_verdict [of ?r te "ss @ ts"] unfolding writes_def by auto
  have no_type_errors: "crc_errors r + ucast (0 :: u8) = crc_errors r" by simp
  have run: "coremark_main b clk v base mem res t =
      Some \<lparr>errors = te, results = ?r, list_block = m, portable = portable_fini 1, uart = (ss @ ts) @ us @ [verdict te]\<rparr>"
    unfolding coremark_main_def b'(1) lp64_checks(1) Option.bind.bind_lunit prod.case if_not_P [OF lp64_checks(3)] p s(1) i(2) v
      append_Nil lp64_checks(2) Let_def no_type_errors measured(1) times crcs ..
  have te: "te = crc_errors ?r + (if too_short (timer_freq b) ?total then 1 else 0)" unfolding te_def r by simp
  have "agrees (reference res0 m) ?r" using a by (simp add: agrees_def)
  then show ?thesis
    using run seed i(7) te by (simp add: r(2))
qed


text \<open>
  The inputs of a regular run: the first two seeds are equal and good, all algorithms are selected, and
  the data block is there.
\<close>

definition regular :: "build \<Rightarrow> volatiles \<Rightarrow> u64 \<Rightarrow> memory \<Rightarrow> bool" where
  "regular b v base mem \<longleftrightarrow> build_ok b \<and> memory_ok mem \<and> unat base + 4000 < 2 ^ 64
     \<and> (case seed_defaults (get_seed v 1, get_seed v 2, get_seed v 3) of (s1, s2, _) \<Rightarrow> s1 = s2 \<and> good_seed s1)
     \<and> get_seed_32 v 5 = 0"

text \<open>The \<open>seedcrc\<close> of a regular run.\<close>

definition run_seedcrc :: "volatiles \<Rightarrow> u16" where
  "run_seedcrc v = (case seed_defaults (get_seed v 1, get_seed v 2, get_seed v 3) of (s1, s2, s3) \<Rightarrow>
     crc16 666 (crc16 s3 (crc16 s2 (crc16 s1 0))))"

lemma regular_prepare:
  assumes "regular b v base mem"
  shows "\<exists>res0 m. prepare v base mem res = Some (res0, m) \<and> ready res0 m \<and> res_iterations res0 = get_seed_32 v 4
    \<and> seedcrc res0 = run_seedcrc v"
proof -
  obtain s s3 where "seed_defaults (get_seed v 1, get_seed v 2, get_seed v 3) = (s, s, s3)" "good_seed s"
    using assms by (auto simp: regular_def split: prod.splits)
  then show ?thesis
    using prepare_ready [of v s s3 mem base res] assms by (auto simp: regular_def seedcrc_def run_seedcrc_def)
qed

lemma same_inputs_refl': "ready r m \<Longrightarrow> same_inputs r r"
  using same_inputs_refl [of r "res_iterations r"] by (simp add: ready_def)

text \<open>
  C4: the whole program with a given number of iterations, for seeds as the three standard runs have
  them. It gets to its report; the list block is as the initialisation left it; the checksums of the
  report are those of a single iteration, whatever the number of iterations and the clock (a checksum
  of an embedded benchmark that is zero after one iteration may still be set later); the number of
  errors and the last line follow from them and from the time.
\<close>

theorem coremark_main_fixed:
  assumes "regular b v base mem" and "get_seed_32 v 4 \<noteq> 0"
  shows "\<exists>res0 m out. prepare v base mem res = Some (res0, m) \<and> coremark_main b clk v base mem res t = Some out
    \<and> list_block out = m \<and> agrees (reference res0 m) (results out)
    \<and> res_iterations (results out) = get_seed_32 v 4 \<and> seedcrc (results out) = seedcrc res0
    \<and> errors out = crc_errors (results out) + (if too_short (timer_freq b) (ticks clk (clock_reads t) 0) then 1 else 0)
    \<and> last (uart out) = verdict (errors out)"
proof -
  obtain res0 m where p: "prepare v base mem res = Some (res0, m)" "ready res0 m" "res_iterations res0 = get_seed_32 v 4"
    using regular_prepare [OF assms(1)] by blast
  have "set_iterations clk (timer_freq b) res0 m t = Some (res0, m, t)"
    using p(3) assms(2) by (simp add: set_iterations_def)
  then show ?thesis
    using coremark_main_runs [OF _ p(1,2) _ same_inputs_refl' [OF p(2)] refl] p assms
    by (fastforce simp: regular_def)
qed

text \<open>A small machine for the witnesses.\<close>

definition a_build :: build where
  "a_build = \<lparr>sizes = lp64_sizes, timer_freq = 100, compiler_version = ''GCC'', compiler_flags = ''-O2''\<rparr>"

definition a_memory :: memory where
  "a_memory = \<lparr>mem_list = \<lparr>heads = replicate 31 \<lparr>nxt = None, info = 0\<rparr>, datas = replicate 31 \<lparr>data16 = 0, idx = 0\<rparr>\<rparr>,
     mem_matrix = (\<lambda>N. let z = replicate (unat N * unat N) 0 in (z, z, replicate (unat N * unat N) 0)),
     mem_state = replicate 666 0\<rparr>"

definition a_timer :: timer where
  "a_timer = \<lparr>start_time_val = 0, stop_time_val = 0, clock_reads = 0\<rparr>"

lemma regular_example:
  "regular a_build (performance_run n) 0x1000 a_memory" "regular a_build (validation_run n) 0x1000 a_memory"
  "regular a_build ((validation_run n)\<lparr>seed3_volatile := 0x67\<rparr>) 0x1000 a_memory"
  by (simp_all add: regular_def build_ok_def a_build_def memory_ok_def a_memory_def performance_run_def validation_run_def
      seed_defaults_def get_seed_def get_seed_32_def good_seeds Let_def)

theorem coremark_main_fixed_witness:
  "\<exists>res0 m out. prepare (performance_run 3000) 0x1000 a_memory small_results = Some (res0, m)
    \<and> coremark_main a_build of_nat (performance_run 3000) 0x1000 a_memory small_results a_timer = Some out
    \<and> list_block out = m \<and> agrees (reference res0 m) (results out) \<and> res_iterations (results out) = 3000"
proof -
  have "get_seed_32 (performance_run 3000) 4 = 3000" by (simp add: get_seed_32_def performance_run_def)
  then show ?thesis
    using coremark_main_fixed [OF regular_example(1), of 3000 small_results of_nat a_timer] by auto
qed

text \<open>
  C20: without a given number of iterations, the program gets to its report when some round of the
  calibration takes a second. With \<open>k\<close> the first such round, it runs \<open>10 ^ (k + 1)\<close> iterations times
  one plus ten divided by the seconds of that round, and the report is the one of a fixed number of
  iterations.
\<close>

theorem coremark_main_calibrated:
  assumes "regular b v base mem" and "get_seed_32 v 4 = 0"
    and "\<forall>j<k. ticks clk (clock_reads t) j < timer_freq b" and "timer_freq b \<le> ticks clk (clock_reads t) k"
    and "n = 10 ^ Suc k * (1 + 10 div (ticks clk (clock_reads t) k div timer_freq b))" and "n \<noteq> 0"
  shows "\<exists>res0 m out. prepare v base mem res = Some (res0, m) \<and> coremark_main b clk v base mem res t = Some out
    \<and> list_block out = m \<and> agrees (reference res0 m) (results out)
    \<and> res_iterations (results out) = n \<and> seedcrc (results out) = seedcrc res0
    \<and> errors out = crc_errors (results out)
        + (if too_short (timer_freq b) (ticks clk (clock_reads t + 2 * Suc k) 0) then 1 else 0)
    \<and> last (uart out) = verdict (errors out)"
proof -
  obtain res0 m where p: "prepare v base mem res = Some (res0, m)" "ready res0 m" "res_iterations res0 = get_seed_32 v 4"
    using regular_prepare [OF assms(1)] by blast
  have f: "timer_freq b \<noteq> 0" using assms(1) by (simp add: regular_def build_ok_def)
  let ?one = "res0\<lparr>res_iterations := 1\<rparr>" and ?secs = "ticks clk (clock_reads t) k div timer_freq b"
  have ready: "ready ?one m" using p(2) by (simp add: ready_update)
  have less: "(0 :: u32) < 1" by simp
  obtain res1 t1 where c: "calibrate clk (timer_freq b) 0 ?one m t = Some (?secs, res1, m, t1)"
    "same_inputs ?one res1" "res_iterations res1 = 10 ^ Suc k" "res_execs res1 = res_execs res0"
    "clock_reads t1 = clock_reads t + 2 * Suc k"
    using calibrate_returns [OF ready f assms(3,4) less] by auto
  have "\<not> ?secs < 1" unfolding less_one_second [OF f] using assms(4) by (rule leD)
  then have secs: "?secs \<noteq> 0" by auto
  let ?res2 = "res1\<lparr>res_iterations := n\<rparr>"
  have set: "set_iterations clk (timer_freq b) res0 m t = Some (?res2, m, t1)"
    using p(3) assms(2,5) c(1,3) secs by (simp add: set_iterations_def Let_def)
  have "same_inputs res0 ?one" using p(2) by (intro same_inputs_refl) (simp add: ready_def)
  then have "same_inputs res0 res1" using c(2) by (rule same_inputs_trans)
  moreover have "same_inputs res1 ?res2"
    using same_inputs_ready [OF \<open>same_inputs res0 res1\<close> p(2)] by (intro same_inputs_refl) (simp add: ready_def)
  ultimately have same: "same_inputs res0 ?res2" by (rule same_inputs_trans)
  have "build_ok b" using assms(1) by (simp add: regular_def)
  from coremark_main_runs [OF this p(1,2) set same] c(4,5) assms(6) p(1) show ?thesis by auto
qed


theorem coremark_main_calibrated_witness:
  "\<exists>out. coremark_main a_build (\<lambda>n. of_nat (1000 * n)) (validation_run 0) 0x1000 a_memory small_results a_timer = Some out
    \<and> res_iterations (results out) = 20"
proof -
  have "ticks (\<lambda>n. of_nat (1000 * n)) 0 0 = 1000" by (simp add: ticks_def)
  then show ?thesis
    using coremark_main_calibrated [OF regular_example(2), of 0 0 "\<lambda>n. of_nat (1000 * n)" a_timer 20 small_results]
    by (auto simp: get_seed_32_def validation_run_def a_timer_def a_build_def)
qed

lemma of_nat_s16_eq_0: "k < 2 ^ 15 \<Longrightarrow> (of_nat k :: s16) = 0 \<longleftrightarrow> k = 0"
  by (auto simp: word_of_nat_eq_0_iff dest: dvd_imp_le)

lemma verdict_correct: "verdict e = ''Correct operation validated. See README.md for run and reporting rules.'' @ nl \<longleftrightarrow> e = 0"
  by (auto simp: verdict_def)

lemma mismatches_plus:
  "(of_nat (mismatches res i) + (if short then 1 else 0) :: s16) = 0 \<longleftrightarrow> mismatches res i = 0 \<and> \<not> short"
proof -
  have m: "mismatches res i \<le> 3" by (simp add: mismatches_def)
  show ?thesis
  proof (cases short)
    case True
    have "(of_nat (mismatches res i) + 1 :: s16) = of_nat (mismatches res i + 1)" by (simp only: of_nat_add of_nat_1)
    moreover have "(of_nat (mismatches res i + 1) :: s16) \<noteq> 0"
      using m by (subst of_nat_s16_eq_0) simp_all
    ultimately show ?thesis using True by (simp only: if_True simp_thms)
  next
    case False
    have "(of_nat (mismatches res i) :: s16) = 0 \<longleftrightarrow> mismatches res i = 0" using m by (intro of_nat_s16_eq_0) simp
    then show ?thesis using False by (simp only: if_False simp_thms add_0_right)
  qed
qed

text \<open>
  C18: the last line of the report claims correct operation exactly when the parameters are known, no
  checksum of a selected algorithm differs and the run took ten seconds; or when the parameters are
  unknown and the run took less than ten seconds, where the error of the short run makes up for the
  \<open>-1\<close> that stands for unknown parameters.
\<close>

theorem coremark_main_claims_correct:
  assumes "regular b v base mem" and "get_seed_32 v 4 \<noteq> 0"
  shows "\<exists>out. coremark_main b clk v base mem res t = Some out
    \<and> (last (uart out) = ''Correct operation validated. See README.md for run and reporting rules.'' @ nl \<longleftrightarrow>
        (case known_run (run_seedcrc v) of
           Some (known_id, _) \<Rightarrow> mismatches (results out) known_id = 0
             \<and> \<not> too_short (timer_freq b) (ticks clk (clock_reads t) 0)
         | None \<Rightarrow> too_short (timer_freq b) (ticks clk (clock_reads t) 0)))"
proof -
  let ?short = "too_short (timer_freq b) (ticks clk (clock_reads t) 0)"
  obtain res0 m where p: "prepare v base mem res = Some (res0, m)" "ready res0 m" "res_iterations res0 = get_seed_32 v 4"
    "seedcrc res0 = run_seedcrc v"
    using regular_prepare [OF assms(1)] by blast
  have "set_iterations clk (timer_freq b) res0 m t = Some (res0, m, t)"
    using p(3) assms(2) by (simp add: set_iterations_def)
  then obtain out where out: "coremark_main b clk v base mem res t = Some out"
    "errors out = crc_errors (results out) + (if ?short then 1 else 0)"
    "last (uart out) = verdict (errors out)" "seedcrc (results out) = run_seedcrc v"
    using coremark_main_runs [OF _ p(1,2) _ same_inputs_refl' [OF p(2)] refl] p(3,4) assms by (fastforce simp: regular_def)
  have "errors out = 0 \<longleftrightarrow> (case known_run (run_seedcrc v) of
      Some (known_id, _) \<Rightarrow> mismatches (results out) known_id = 0 \<and> \<not> ?short | None \<Rightarrow> ?short)"
  proof (cases "known_run (run_seedcrc v)")
    case None
    then show ?thesis unfolding out(2) crc_errors_def out(4) by simp
  next
    case (Some x)
    obtain i msg where x: "x = (i, msg)" by fastforce
    show ?thesis unfolding out(2) crc_errors_def out(4) Some x option.case prod.case by (rule mismatches_plus)
  qed
  then show ?thesis using out(1) unfolding out(3) [symmetric] verdict_correct [symmetric] by blast
qed

theorem coremark_main_claims_correct_witness:
  "\<exists>out. coremark_main a_build of_nat ((validation_run 1)\<lparr>seed3_volatile := 0x67\<rparr>) 0x1000 a_memory small_results a_timer = Some out
    \<and> last (uart out) = ''Correct operation validated. See README.md for run and reporting rules.'' @ nl"
proof -
  let ?v = "(validation_run 1)\<lparr>seed3_volatile := 0x67\<rparr>"
  have n: "get_seed_32 ?v 4 \<noteq> 0" by (simp add: get_seed_32_def validation_run_def)
  have "run_seedcrc ?v = crc16 666 (crc16 0x67 (crc16 0x3415 (crc16 0x3415 0)))"
    by (simp add: run_seedcrc_def get_seed_def get_seed_32_def validation_run_def seed_defaults_def)
  also have "\<dots> = 0xe4f3" by code_simp
  finally have "run_seedcrc ?v = 0xe4f3" .
  then have k: "known_run (run_seedcrc ?v) = None" by (simp add: known_run_def)
  have "ticks of_nat 0 0 = 1" by (simp add: ticks_def)
  then have s: "too_short (timer_freq a_build) (ticks of_nat (clock_reads a_timer) 0)"
    by (simp add: too_short_def a_build_def a_timer_def)
  from coremark_main_claims_correct [OF regular_example(3) n, of of_nat small_results a_timer]
  show ?thesis unfolding k option.case using s by blast
qed

section \<open>Properties of the parts\<close>

text \<open>
  C19: from a state in which the initialisation has left the list, the matrix and the state block (\<open>ready\<close>), any positive number of iterations leaves the list as it was and gives the checksums of a single one: the
  list checksum is that of the first iteration, and the checksums of the embedded benchmarks stay once
  they are not zero.
\<close>

theorem iterate_checksums_stable:
  assumes "ready res m" and "res_iterations res \<noteq> 0"
  shows "\<exists>r. iterate res m = Some (r, m) \<and> agrees (reference res m) r \<and> res_iterations r = res_iterations res"
proof -
  obtain a b where "iterate (res\<lparr>res_iterations := 1\<rparr>) m = Some (a, m)" "iterate res m = Some (b, m)"
    "res_crclist b = res_crclist a" "res_crcmatrix a \<noteq> 0 \<longrightarrow> res_crcmatrix b = res_crcmatrix a"
    "res_crcstate a \<noteq> 0 \<longrightarrow> res_crcstate b = res_crcstate a" "res_iterations b = res_iterations res"
    using iterate_checksums [OF assms(1) same_inputs_refl' [OF assms(1)] assms(2)] by blast
  then show ?thesis by (simp add: agrees_def reference_def)
qed

definition small_list :: list_mem where
  "small_list = \<lparr>heads = [\<lparr>nxt = Some 2, info = 0\<rparr>, \<lparr>nxt = None, info = 1\<rparr>, \<lparr>nxt = Some 1, info = 2\<rparr>],
     datas = [\<lparr>data16 = 0, idx = 0\<rparr>, \<lparr>data16 = 0, idx = 9\<rparr>, \<lparr>data16 = 0x0101, idx = 4\<rparr>]\<rparr>"

lemma small_ready: "ready small_results small_list"
proof -
  have "regen 0 = 0" "regen 0x0101 = 0x0101" by (simp_all add: regen_def)
  then have "pristine small_list [0, 2, 1]" by (auto simp: pristine_def small_list_def item_of_def)
  moreover have "wf_list small_list (res_list small_results) [0, 2, 1]"
    by (auto simp: wf_list_def small_list_def small_results_def)
  ultimately show ?thesis
    using small_results_ok unfolding ready_def by (intro conjI exI [of _ "[0, 2, 1]"]) simp_all
qed

theorem iterate_checksums_stable_witness:
  "\<exists>r. iterate (small_results\<lparr>res_iterations := 7\<rparr>) small_list = Some (r, small_list)
    \<and> res_crclist r = res_crclist (reference (small_results\<lparr>res_iterations := 7\<rparr>) small_list)"
  using iterate_checksums_stable [of "small_results\<lparr>res_iterations := 7\<rparr>" small_list] small_ready
  by (auto simp: ready_update agrees_def)

text \<open>C21: the calibration loop ends exactly when some of its rounds takes a second or more.\<close>

theorem calibrate_ends_iff:
  assumes "ready res m" and "freq \<noteq> 0"
  shows "(\<exists>out. calibrate clk freq 0 res m t = Some out) \<longleftrightarrow> (\<exists>k. freq \<le> ticks clk (clock_reads t) k)"
proof
  assume "\<exists>k. freq \<le> ticks clk (clock_reads t) k"
  then obtain k where k: "freq \<le> ticks clk (clock_reads t) k" "\<forall>j<k. \<not> freq \<le> ticks clk (clock_reads t) j"
    using exists_least_iff [of "\<lambda>k. freq \<le> ticks clk (clock_reads t) k"] by blast
  then have "\<forall>j<k. ticks clk (clock_reads t) j < freq" by (simp add: not_le)
  from calibrate_returns [OF assms this k(1), of 0] show "\<exists>out. calibrate clk freq 0 res m t = Some out" by auto
qed (use calibrate_ends [of clk freq 0 res m t] in auto)

theorem calibrate_ends_iff_witness:
  "\<exists>out. calibrate (\<lambda>n. of_nat (n * n)) 9 0 small_results small_list \<lparr>start_time_val = 0, stop_time_val = 0, clock_reads = 0\<rparr> = Some out"
proof -
  have "9 \<le> ticks (\<lambda>n. of_nat (n * n)) 0 2" by (simp add: ticks_def)
  then show ?thesis
    using calibrate_ends_iff [OF small_ready, of 9 "\<lambda>n. of_nat (n * n)" "\<lparr>start_time_val = 0, stop_time_val = 0, clock_reads = 0\<rparr>"]
    by auto
qed

text \<open>The keys of the \<open>switch\<close> are the checksums of the parameters that its comments name.\<close>

theorem known_run_parameters:
  "known_run (seedcrc (r\<lparr>res_seed1 := 0, res_seed2 := 0, res_seed3 := 0x66, res_size := 2000\<rparr>))
     = Some (0, ''6k performance run parameters for coremark.'')
   \<and> known_run (seedcrc (r\<lparr>res_seed1 := 0x3415, res_seed2 := 0x3415, res_seed3 := 0x66, res_size := 2000\<rparr>))
     = Some (1, ''6k validation run parameters for coremark.'')
   \<and> known_run (seedcrc (r\<lparr>res_seed1 := 8, res_seed2 := 8, res_seed3 := 8, res_size := 400\<rparr>))
     = Some (2, ''Profile generation run parameters for coremark.'')
   \<and> known_run (seedcrc (r\<lparr>res_seed1 := 0, res_seed2 := 0, res_seed3 := 0x66, res_size := 666\<rparr>))
     = Some (3, ''2K performance run parameters for coremark.'')
   \<and> known_run (seedcrc (r\<lparr>res_seed1 := 0x3415, res_seed2 := 0x3415, res_seed3 := 0x66, res_size := 666\<rparr>))
     = Some (4, ''2K validation run parameters for coremark.'')"
proof -
  have c: "crc16 (ucast (2000 :: u32)) (crc16 0x66 (crc16 0 (crc16 0 0))) = 0x8a02"
    "crc16 (ucast (2000 :: u32)) (crc16 0x66 (crc16 0x3415 (crc16 0x3415 0))) = 0x7b05"
    "crc16 (ucast (400 :: u32)) (crc16 8 (crc16 8 (crc16 8 0))) = 0x4eaf"
    "crc16 (ucast (666 :: u32)) (crc16 0x66 (crc16 0 (crc16 0 0))) = 0xe9f5"
    "crc16 (ucast (666 :: u32)) (crc16 0x66 (crc16 0x3415 (crc16 0x3415 0))) = 0x18f2"
    by code_simp+
  have s: "seedcrc (r\<lparr>res_seed1 := 0, res_seed2 := 0, res_seed3 := 0x66, res_size := 2000\<rparr>) = 0x8a02"
    "seedcrc (r\<lparr>res_seed1 := 0x3415, res_seed2 := 0x3415, res_seed3 := 0x66, res_size := 2000\<rparr>) = 0x7b05"
    "seedcrc (r\<lparr>res_seed1 := 8, res_seed2 := 8, res_seed3 := 8, res_size := 400\<rparr>) = 0x4eaf"
    "seedcrc (r\<lparr>res_seed1 := 0, res_seed2 := 0, res_seed3 := 0x66, res_size := 666\<rparr>) = 0xe9f5"
    "seedcrc (r\<lparr>res_seed1 := 0x3415, res_seed2 := 0x3415, res_seed3 := 0x66, res_size := 666\<rparr>) = 0x18f2"
    by (simp_all add: seedcrc_def c [simplified])
  show ?thesis unfolding s known_run_def by simp
qed

text \<open>
  The blocks of the selected algorithms lie in the static block of 2000 bytes, one after the other.
\<close>

theorem memory_blocks_apart:
  assumes "0 < num_algorithms execs" and "unat base + 2000 < 2 ^ 64"
    and "sz = TOTAL_DATA_SIZE div of_nat (num_algorithms execs)"
    and "i < 3" and "assign_blocks base sz execs [0..<3] 0 ! i = Some a"
  shows "unat base \<le> unat a \<and> unat a + unat sz \<le> unat base + 2000
    \<and> (\<forall>j b. j < i \<longrightarrow> assign_blocks base sz execs [0..<3] 0 ! j = Some b \<longrightarrow> unat b + unat sz \<le> unat a)"
  using blocks_apart [OF assms(1-5)] .

theorem memory_blocks_apart_witness:
  "unat (0x1000 :: u64) + 666 \<le> unat (0x129a :: u64) \<and> unat (0x129a :: u64) + 666 \<le> 0x1000 + 2000"
proof -
  have "num_algorithms 7 = 3" by (simp add: num_algorithms_cases)
  moreover have "TOTAL_DATA_SIZE div 3 = 666" by (simp add: TOTAL_DATA_SIZE_def)
  moreover have "assign_blocks 0x1000 666 7 [0..<3] 0 ! 1 = Some 0x129a" "assign_blocks 0x1000 666 7 [0..<3] 0 ! 0 = Some 0x1000"
    by (simp_all add: assign_blocks_3 Let_def)
  ultimately show ?thesis using memory_blocks_apart [of 7 "0x1000" 666 1 "0x129a"] by auto
qed

text \<open>
  For the block sizes of the program the three matrices end inside their block, although they
  start at the next multiple of four.
\<close>

theorem matrices_stay_in_block:
  assumes "sz = 2000 \<or> sz = 1000 \<or> sz = 666"
    and "\<forall>N. length (fst (mem N)) = unat N * unat N \<and> length (fst (snd (mem N))) = unat N * unat N"
    and "0 < unat memblk" and "unat memblk + 2008 < 2 ^ 64"
  shows "\<exists>N p L. core_init_matrix sz memblk seed mem = Some (N, p, L)
    \<and> unat memblk \<le> unat (addrA L) \<and> unat (addrC L) + 4 * (unat N * unat N) \<le> unat memblk + unat sz"
  using matrices_in_block [OF assms] .

theorem matrices_stay_in_block_witness:
  "\<exists>N p L. core_init_matrix 666 0x129a 1 (\<lambda>N. (replicate (unat N * unat N) 0, replicate (unat N * unat N) 0, [])) = Some (N, p, L)
    \<and> unat (addrC L) + 4 * (unat N * unat N) \<le> 0x129a + 666"
  using matrices_stay_in_block [of 666 "\<lambda>N. (replicate (unat N * unat N) 0, replicate (unat N * unat N) 0, [])" "0x129a" 1]
  by auto

lemma find_round_null: "f_list st = None \<Longrightarrow> find_round d i st = None"
  by (cases "core_list_find None \<lparr>data16 = i AND 0xff, idx = f_idx st\<rparr> \<lparr>heads = f_heads st, datas = d\<rparr>")
    (auto simp: find_round_def core_list_reverse_def reverse_loop.simps core_list_find_def find_loop.simps split: if_splits)

lemma for_loop_fails: "0 < n \<Longrightarrow> body 0 s = None \<Longrightarrow> for_loop n body s = None"
  by (simp add: for_loop_def upt_conv_Cons)

lemma core_bench_list_null:
  assumes "res_list res = None"
  shows "core_bench_list res 1 m = None"
proof -
  let ?st = "\<lparr>f_list = None, f_idx = 1, f_retval = 0, f_found = 0, f_missed = 0, f_heads = heads m\<rparr>"
  let ?body = "\<lambda>i st. find_round (datas m) (of_nat i) st"
  show ?thesis
  proof (cases "nat (sint (res_seed3 res)) = 0")
    case True
    then have "for_loop (nat (sint (res_seed3 res))) ?body ?st = Some ?st" by (simp add: for_loop_def)
    then show ?thesis
      using True unfolding core_bench_list_def Let_def assms by (simp add: mergesort_None)
  next
    case False
    then have "for_loop (nat (sint (res_seed3 res))) ?body ?st = None"
      by (intro for_loop_fails find_round_null) simp_all
    then show ?thesis unfolding core_bench_list_def Let_def assms by (simp only: Option.bind.bind_lzero)
  qed
qed

lemma init_blocks_list:
  assumes "init_blocks res blocks mem = Some (res', m)" and "res_execs res AND 1 = 0"
  shows "res_list res' = res_list res"
proof -
  have "\<not> res_execs res AND 1 \<noteq> 0" using assms(2) by simp
  then show ?thesis
    using assms(1) unfolding init_blocks_def by (auto elim!: bind_eq_SomeE split: if_splits)
qed

lemma iterate_null:
  assumes "res_list res = None" and "res_iterations res \<noteq> 0"
  shows "iterate res m = None"
proof -
  have "core_bench_list (zeroed res) 1 m = None"
    using assms(1) by (intro core_bench_list_null) (simp add: zeroed_def)
  then have "iterate_round 0 (zeroed res, m) = None" by (simp add: iterate_round_def)
  then have "for_loop (unat (res_iterations res)) iterate_round (zeroed res, m) = None"
    using assms(2) by (intro for_loop_fails) (simp_all add: unat_gt_0)
  then show ?thesis by (simp add: iterate_def zeroed_def)
qed

lemma set_iterations_null:
  assumes "res_list res = None" and "res_iterations res = 0"
  shows "set_iterations clk freq res m t = None"
proof -
  have "iterate (res\<lparr>res_iterations := 10\<rparr>) m = None" using assms(1) by (intro iterate_null) simp_all
  then have "calibrate clk freq 0 (res\<lparr>res_iterations := 1\<rparr>) m t = None"
    by (subst calibrate.simps) (simp add: Let_def)
  then show ?thesis using assms(2) by (simp add: set_iterations_def)
qed

lemma prepare_list:
  assumes "prepare v base mem res = Some (res0, m)" and "get_seed_32 v 5 \<noteq> 0" and "get_seed_32 v 5 AND 1 = 0"
  shows "res_list res0 = res_list res"
proof -
  obtain s1 s2 s3 where s: "seed_defaults (get_seed v 1, get_seed v 2, get_seed v 3) = (s1, s2, s3)"
    by (cases "seed_defaults (get_seed v 1, get_seed v 2, get_seed v 3)") auto
  show ?thesis
    using assms(1) init_blocks_list [OF _ ] assms(3)
    unfolding prepare_def Let_def s prod.case if_not_P [OF assms(2)] by (auto split: if_splits dest!: init_blocks_list)
qed

lemma coremark_main_null:
  assumes "get_seed_32 v 5 \<noteq> 0" and "get_seed_32 v 5 AND 1 = 0" and "res_list res = None"
  shows "coremark_main b clk v base mem res t = None"
proof (cases "prepare v base mem res")
  case None
  show ?thesis unfolding coremark_main_def None by (cases "portable_init (sizes b) []") auto
next
  case (Some x)
  obtain res0 m where p: "prepare v base mem res = Some (res0, m)" using Some by (cases x) auto
  have null: "res_list res0 = None" using prepare_list [OF p assms(1,2)] assms(3) by simp
  show ?thesis
  proof (cases "res_iterations res0 = 0")
    case True
    have "set_iterations clk (timer_freq b) res0 m t = None" using set_iterations_null [OF null True] .
    then show ?thesis unfolding coremark_main_def p by (cases "portable_init (sizes b) []") auto
  next
    case False
    have "set_iterations clk (timer_freq b) res0 m t = Some (res0, m, t)" using False by (simp add: set_iterations_def)
    moreover have "iterate res0 m = None" using iterate_null [OF null False] .
    ultimately show ?thesis unfolding coremark_main_def p by (cases "portable_init (sizes b) []") (auto simp: Let_def)
  qed
qed

text \<open>
  C40: when a nonzero fifth seed leaves the list benchmark out, the list pointer of the results is never set: the timed iterations, which run the list
  benchmark all the same, get whatever the uninitialised results on the stack of main hold. If that happens to be a null pointer the
  run fails, and with none of the three algorithms it fails whatever they hold, since the block size is a division by zero.
\<close>

theorem coremark_main_without_list:
  assumes "get_seed_32 v 5 \<noteq> 0" and "get_seed_32 v 5 AND 1 = 0"
  shows "(\<forall>res0 m. prepare v base mem res = Some (res0, m) \<longrightarrow> res_list res0 = res_list res)
    \<and> (res_list res = None \<or> num_algorithms (get_seed_32 v 5) = 0 \<longrightarrow> coremark_main b clk v base mem res t = None)"
proof (intro conjI impI allI)
  fix res0 m
  assume "prepare v base mem res = Some (res0, m)"
  then show "res_list res0 = res_list res" using prepare_list assms by blast
next
  assume null: "res_list res = None \<or> num_algorithms (get_seed_32 v 5) = 0"
  have none: "coremark_main b clk v base mem res t = None" if "prepare v base mem res = None"
    unfolding coremark_main_def that by (cases "portable_init (sizes b) []") auto
  show "coremark_main b clk v base mem res t = None"
  proof (cases "num_algorithms (get_seed_32 v 5) = 0")
    case True
    then have "prepare v base mem res = None" using assms(1) by (simp add: prepare_def split_beta Let_def)
    then show ?thesis by (rule none)
  next
    case False
    then show ?thesis using null none coremark_main_null [OF assms] by (cases "prepare v base mem res") auto
  qed
qed

theorem coremark_main_without_list_witness:
  "coremark_main a_build of_nat ((performance_run 1)\<lparr>seed5_volatile := 4\<rparr>) 0x1000 a_memory (small_results\<lparr>res_list := None\<rparr>) a_timer = None
   \<and> coremark_main a_build of_nat ((performance_run 1)\<lparr>seed5_volatile := 8\<rparr>) 0x1000 a_memory (small_results\<lparr>res_list := Some 3\<rparr>) a_timer = None"
proof -
  have "num_algorithms 8 = 0" by (simp add: num_algorithms_cases selected_def)
  then show ?thesis
    using coremark_main_without_list [of "(performance_run 1)\<lparr>seed5_volatile := 4\<rparr>" "0x1000" a_memory "small_results\<lparr>res_list := None\<rparr>" a_build of_nat a_timer]
      coremark_main_without_list [of "(performance_run 1)\<lparr>seed5_volatile := 8\<rparr>" "0x1000" a_memory "small_results\<lparr>res_list := Some 3\<rparr>" a_build of_nat a_timer]
    by (simp add: get_seed_32_def performance_run_def)
qed

end
