(* ===== verification/SeedArg.thy ===== *)
theory SeedArg
  imports Printf
begin

text \<open>
  The seeds as arguments of the program, \<open>parseval\<close> and \<open>get_seed_args\<close> of core_util.c, which a build with
  \<open>SEED_METHOD == SEED_ARG\<close> uses. An argument is its characters without the final null; an overflow of a
  signed \<open>ee_s32\<close> is \<open>None\<close>.
\<close>

section \<open>The code\<close>

definition s32_val :: "int \<Rightarrow> int option" where
  "s32_val v = (if - (2 ^ 31) \<le> v \<and> v < 2 ^ 31 then Some v else None)"

definition hex_letter :: "char \<Rightarrow> bool" where
  "hex_letter c \<longleftrightarrow> (97 :: int) \<le> of_char c \<and> of_char c \<le> (102 :: int)"

fun hex_loop :: "int \<Rightarrow> string \<Rightarrow> (int \<times> string) option" where
  "hex_loop retval [] = Some (retval, [])"
| "hex_loop retval (c # s) =
     (if is_digit_char c \<or> hex_letter c
      then let digit = of_char c - 48; digit = (if digit > 9 then 10 + of_char c - 97 else digit) in
        Option.bind (s32_val (retval * 16)) (\<lambda>retval.
        Option.bind (s32_val (retval + digit)) (\<lambda>retval. hex_loop retval s))
      else Some (retval, c # s))"

fun dec_loop :: "int \<Rightarrow> string \<Rightarrow> (int \<times> string) option" where
  "dec_loop retval [] = Some (retval, [])"
| "dec_loop retval (c # s) =
     (if is_digit_char c
      then let digit = of_char c - 48 in
        Option.bind (s32_val (retval * 10)) (\<lambda>retval.
        Option.bind (s32_val (retval + digit)) (\<lambda>retval. dec_loop retval s))
      else Some (retval, c # s))"

definition parse_number :: "string \<Rightarrow> (int \<times> string) option" where
  "parse_number valstring =
     (let hexmode = (take 2 valstring = ''0x'')
      in if hexmode then hex_loop 0 (drop 2 valstring) else dec_loop 0 valstring)"

fun qualify :: "int \<Rightarrow> int \<times> string \<Rightarrow> int option" where
  "qualify neg (retval, valstring) =
     Option.bind (if starts CHR ''K'' valstring then s32_val (retval * 1024) else Some retval) (\<lambda>retval.
     Option.bind (if starts CHR ''M'' valstring then s32_val (retval * (1024 * 1024)) else Some retval) (\<lambda>retval.
     s32_val (retval * neg)))"

definition parseval :: "string \<Rightarrow> int option" where
  "parseval valstring =
     (let (neg, valstring) = (if starts CHR ''-'' valstring then (-1, tl valstring) else (1, valstring))
      in Option.bind (parse_number valstring) (qualify neg))"

definition get_seed_args :: "int \<Rightarrow> int \<Rightarrow> string list \<Rightarrow> int option" where
  "get_seed_args i argc argv = (if argc > i then parseval (argv ! nat i) else Some 0)"

section \<open>Reading digits\<close>

lemma s32_val_nat: "0 \<le> v \<Longrightarrow> s32_val v = (if v < 2 ^ 31 then Some v else None)"
  by (simp add: s32_val_def)

lemma dec_loop_digit:
  assumes "0 \<le> r" and "d < 10"
  shows "dec_loop r (char_of (48 + d) # t) = (if r * 10 + int d < 2 ^ 31 then dec_loop (r * 10 + int d) t else None)"
  using assms by (simp add: of_digit_char s32_val_nat)

lemma dec_loop_decimal:
  "dec_loop 0 (decimal n @ t) = (if int n < 2 ^ 31 then dec_loop (int n) t else None)"
proof (induction n arbitrary: t rule: decimal.induct)
  case (1 n)
  show ?case
  proof (cases "n < 10")
    case True
    then show ?thesis by (subst decimal.simps) (simp add: dec_loop_digit del: dec_loop.simps)
  next
    case False
    have n: "int (n div 10) * 10 + int (n mod 10) = int n" by (simp add: zdiv_int zmod_int)
    have "int (n div 10) < 2 ^ 31" if "int n < 2 ^ 31" using that by (simp add: zdiv_int)
    then show ?thesis
      using 1 False dec_loop_digit [of "int (n div 10)" "n mod 10" t] n
      by (subst decimal.simps) (auto simp del: dec_loop.simps)
  qed
qed

text \<open>What follows the digits, and the factor it stands for.\<close>

definition factor :: "string \<Rightarrow> int" where
  "factor s = (if starts CHR ''K'' s then 1024 else if starts CHR ''M'' s then 1024 * 1024 else 1)"

lemma factor_pos: "1 \<le> factor s"
  by (simp add: factor_def)

lemma qualify_eq:
  assumes "0 \<le> v" and "v < 2 ^ 31" and "neg = 1 \<or> neg = -1"
  shows "qualify neg (v, s) = (if v * factor s < 2 ^ 31 then Some (v * factor s * neg) else None)"
  using assms by (cases s) (auto simp: factor_def starts_def s32_val_def)

lemma decimal_chars: "c \<in> set (decimal n) \<Longrightarrow> is_digit_char c"
proof (induction n rule: decimal.induct)
  case (1 n)
  then show ?case by (subst (asm) decimal.simps) (auto split: if_splits)
qed

lemma decimal_ne [simp]: "decimal n \<noteq> []"
  by (subst decimal.simps) simp

lemma decimal_not_hex:
  assumes "\<not> starts CHR ''x'' s"
  shows "take 2 (decimal n @ s) \<noteq> ''0x''"
proof
  assume t: "take 2 (decimal n @ s) = ''0x''"
  obtain c cs where d: "decimal n = c # cs" by (cases "decimal n") simp_all
  show False
  proof (cases cs)
    case Nil
    then show ?thesis using t d assms by (cases s) (simp_all add: starts_def)
  next
    case (Cons c' cs')
    then have "c' = CHR ''x''" using t d by simp
    then show False using decimal_chars [of c' n] d Cons by (simp add: is_digit_char_def)
  qed
qed

lemma decimal_not_minus: "\<not> starts CHR ''-'' (decimal n @ s)"
proof -
  obtain c cs where d: "decimal n = c # cs" by (cases "decimal n") simp_all
  then have "is_digit_char c" using decimal_chars [of c n] by simp
  then show ?thesis using d by (auto simp: starts_def is_digit_char_def)
qed

lemma parse_decimal:
  assumes "\<not> starts_digit s" and "\<not> starts CHR ''x'' s" and neg: "neg = 1 \<or> neg = -1"
  shows "Option.bind (parse_number (decimal n @ s)) (qualify neg) =
    (if int n * factor s < 2 ^ 31 then Some (int n * factor s * neg) else None)"
proof -
  have stop: "dec_loop r s = Some (r, s)" for r using assms(1) by (cases s) (simp_all add: starts_digit_def)
  have p: "parse_number (decimal n @ s) = (if int n < 2 ^ 31 then Some (int n, s) else None)"
    using decimal_not_hex [OF assms(2)] by (simp add: parse_number_def dec_loop_decimal stop del: take_append)
  show ?thesis
  proof (cases "int n < 2 ^ 31")
    case True
    then show ?thesis unfolding p if_P [OF True] using qualify_eq [OF _ True neg, of s] by simp
  next
    case False
    have "int n * 1 \<le> int n * factor s" by (rule mult_left_mono [OF factor_pos]) simp
    then have "\<not> int n * factor s < 2 ^ 31" using False by linarith
    then show ?thesis unfolding p if_not_P [OF False] by simp
  qed
qed

lemma parseval_decimal:
  assumes "\<not> starts_digit s" and "\<not> starts CHR ''x'' s"
  shows "parseval (decimal n @ s) = (if int n * factor s < 2 ^ 31 then Some (int n * factor s) else None)"
    and "parseval (CHR ''-'' # decimal n @ s) = (if int n * factor s < 2 ^ 31 then Some (- (int n * factor s)) else None)"
  using parse_decimal [OF assms, of 1 n] parse_decimal [OF assms, of "-1" n] decimal_not_minus [of n s]
  by (simp_all add: parseval_def) (simp_all add: starts_def)

section \<open>Hexadecimal\<close>

lemma hex_digit:
  assumes "d < 16"
  shows "is_digit_char (digits ! d) \<or> hex_letter (digits ! d)"
    and "(if of_char (digits ! d) - 48 > (9 :: int) then 10 + of_char (digits ! d) - 97 else of_char (digits ! d) - 48) = int d"
proof -
  have "d = 0 \<or> d = 1 \<or> d = 2 \<or> d = 3 \<or> d = 4 \<or> d = 5 \<or> d = 6 \<or> d = 7 \<or> d = 8 \<or> d = 9
      \<or> d = 10 \<or> d = 11 \<or> d = 12 \<or> d = 13 \<or> d = 14 \<or> d = 15" using assms by presburger
  then show "is_digit_char (digits ! d) \<or> hex_letter (digits ! d)"
    "(if of_char (digits ! d) - 48 > (9 :: int) then 10 + of_char (digits ! d) - 97 else of_char (digits ! d) - 48) = int d"
    by (auto simp: digits_def is_digit_char_def hex_letter_def)
qed

lemma hex_loop_digit:
  assumes "0 \<le> r" and "d < 16"
  shows "hex_loop r (digits ! d # t) = (if r * 16 + int d < 2 ^ 31 then hex_loop (r * 16 + int d) t else None)"
  using assms hex_digit [OF assms(2)] by (simp add: s32_val_nat Let_def)

lemma hex_loop_fixed:
  "n < 16 ^ k \<Longrightarrow> int n < 2 ^ 31 \<Longrightarrow> hex_loop 0 (map ((!) digits) (fixed_digits 16 k n) @ t) = hex_loop (int n) t"
proof (induction k arbitrary: n t)
  case 0
  then show ?case by (simp add: fixed_digits_def)
next
  case (Suc k)
  have "n div 16 < 16 ^ k" using Suc.prems(1) by (simp add: less_mult_imp_div_less mult.commute)
  moreover have "int (n div 16) < 2 ^ 31" using Suc.prems(2) by (simp add: zdiv_int)
  moreover have "int (n div 16) * 16 + int (n mod 16) = int n" by (simp add: zdiv_int zmod_int)
  ultimately show ?case
    using Suc.IH [of "n div 16" "digits ! (n mod 16) # t"] hex_loop_digit [of "int (n div 16)" "n mod 16" t] Suc.prems(2)
    by (simp add: fixed_digits_Suc del: hex_loop.simps)
qed

lemma parseval_hex:
  assumes "n < 2 ^ 16" and "\<not> starts_digit s" and "s \<noteq> [] \<Longrightarrow> \<not> hex_letter (hd s)"
  shows "parseval (''0x'' @ map ((!) digits) (fixed_digits 16 4 n) @ s) =
    (if int n * factor s < 2 ^ 31 then Some (int n * factor s) else None)"
proof -
  have stop: "hex_loop r s = Some (r, s)" for r using assms(2,3) by (cases s) (simp_all add: starts_digit_def)
  have "parse_number (''0x'' @ map ((!) digits) (fixed_digits 16 4 n) @ s) = Some (int n, s)"
    using hex_loop_fixed [of n 4 s] assms(1) by (simp add: parse_number_def stop)
  then show ?thesis
    using qualify_eq [of "int n" 1 s] assms(1) by (simp add: parseval_def starts_def)
qed

section \<open>Properties\<close>

text \<open>
  C31: \<open>parseval\<close> reads back what \<open>%d\<close> prints, scaled by a \<open>K\<close> or an \<open>M\<close> behind the digits, and ignores whatever
  else follows; it overflows exactly when the magnitude does not fit an \<open>ee_s32\<close>, so the least number
  cannot be read.
\<close>

theorem parseval_reads_decimal:
  assumes "\<not> starts_digit s" and "\<not> starts CHR ''x'' s"
  shows "\<exists>text. ee_vsprintf ''%d'' [VNum w] = Some text \<and> parseval (text @ s) =
    (let v = sint (ucast w :: s32) in if \<bar>v\<bar> * factor s < 2 ^ 31 then Some (v * factor s) else None)"
  using parseval_decimal [OF assms, of "nat \<bar>sint (ucast w :: s32)\<bar>"]
  unfolding vsprintf_d number_text_decimal(1) by (auto simp: Let_def)

theorem parseval_reads_decimal_witness:
  "\<exists>text. ee_vsprintf ''%d'' [VNum (- 12)] = Some text \<and> parseval (text @ ''K'') = Some (- 12288)"
  using parseval_reads_decimal [of "''K''" "- 12"] by (simp add: starts_digit_def starts_def is_digit_char_def factor_def)

text \<open>\<open>parseval\<close> reads back a 16 bit number printed with \<open>0x%04x\<close>, with the same factors.\<close>

theorem parseval_reads_hex:
  assumes "unat (ucast w :: u32) < 2 ^ 16" and "\<not> starts_digit s" and "s = [] \<or> \<not> hex_letter (hd s)"
  shows "\<exists>text. ee_vsprintf ''0x%04x'' [VNum w] = Some text \<and> parseval (text @ s) =
    (let v = int (unat (ucast w :: u32)) in if v * factor s < 2 ^ 31 then Some (v * factor s) else None)"
proof -
  let ?n = "unat (ucast w :: u32)"
  have "ee_vsprintf ''0x%04x'' [VNum w] = map_option ((@) ''0x'') (ee_vsprintf ''%04x'' [VNum w])"
    using ee_vsprintf_literal [of "''0x''" "''%04x''" "[VNum w]"] by simp
  moreover have "ee_vsprintf ''%04x'' [VNum w] = Some (map ((!) digits) (fixed_digits 16 4 ?n))"
    unfolding vsprintf_04x using number_text_hex [of "ucast (ucast w :: u32)" 4] assms(1)
    by (simp add: unat_ucast_32_64)
  ultimately show ?thesis
    using parseval_hex [of ?n s] assms by (auto simp: Let_def)
qed

theorem parseval_reads_hex_witness:
  "\<exists>text. ee_vsprintf ''0x%04x'' [VNum 0x66] = Some text \<and> parseval text = Some 0x66"
  using parseval_reads_hex [of "0x66" "[]"] by (simp add: starts_digit_def factor_def starts_def Let_def del: ee_vsprintf.simps)

end
