(* ===== verification/PrintfFormat.thy ===== *)
theory PrintfFormat
  imports Printf
begin

text \<open>
  What \<open>ee_printf\<close> prints for a format string as a whole. A format is put together from pieces, plain text and directives; the text of a directive
  (\<open>piece_text\<close>) is what the programmer writes, \<open>piece_args\<close> the arguments it takes, and \<open>printed\<close> what it has to print, without reading
  the format. The parser and the conversions of ee_printf.c are related to it.
\<close>

section \<open>Formats\<close>

text \<open>A field width or a precision: left out, in the format, or taken from the arguments.\<close>

datatype amount = Omitted | Given nat | From_arg u64

datatype operand = Number char u64 | Text_of "string option" | Char_of u64 | Pointer u64 | Percent

text \<open>A directive has its flag characters, its field width, its precision, the qualifier \<open>l\<close> and its operand.\<close>

datatype piece = Plain string | Directive string amount amount bool operand

fun amount_text :: "amount \<Rightarrow> string" where
  "amount_text Omitted = ''''"
| "amount_text (Given n) = decimal n"
| "amount_text (From_arg w) = ''*''"

fun amount_args :: "amount \<Rightarrow> varg list" where
  "amount_args (From_arg w) = [VNum w]"
| "amount_args _ = []"

definition precision_text :: "amount \<Rightarrow> string" where
  "precision_text a = (if a = Omitted then '''' else CHR ''.'' # amount_text a)"

fun operand_char :: "operand \<Rightarrow> char" where
  "operand_char (Number c w) = c"
| "operand_char (Text_of s) = CHR ''s''"
| "operand_char (Char_of w) = CHR ''c''"
| "operand_char (Pointer w) = CHR ''p''"
| "operand_char Percent = CHR ''%''"

fun operand_args :: "operand \<Rightarrow> varg list" where
  "operand_args (Number c w) = [VNum w]"
| "operand_args (Text_of s) = [VStr s]"
| "operand_args (Char_of w) = [VNum w]"
| "operand_args (Pointer w) = [VNum w]"
| "operand_args Percent = []"

definition directive_text :: "string \<Rightarrow> amount \<Rightarrow> amount \<Rightarrow> bool \<Rightarrow> operand \<Rightarrow> string" where
  "directive_text fs a b long v = fs @ amount_text a @ precision_text b @ (if long then ''l'' else '''') @ [operand_char v]"

fun piece_text :: "piece \<Rightarrow> string" where
  "piece_text (Plain s) = s"
| "piece_text (Directive fs a b long v) = CHR ''%'' # directive_text fs a b long v"

fun piece_args :: "piece \<Rightarrow> varg list" where
  "piece_args (Plain s) = []"
| "piece_args (Directive fs a b long v) = amount_args a @ amount_args b @ operand_args v"

section \<open>What they print\<close>

definition low_int :: "u64 \<Rightarrow> int" where
  "low_int w = sint (ucast w :: s32)"

fun width_of :: "amount \<Rightarrow> int" where
  "width_of Omitted = - 1"
| "width_of (Given n) = int n"
| "width_of (From_arg w) = \<bar>low_int w\<bar>"

fun precision_of :: "amount \<Rightarrow> int" where
  "precision_of Omitted = - 1"
| "precision_of (Given n) = int n"
| "precision_of (From_arg w) = max 0 (low_int w)"

text \<open>A negative width from the arguments means a field filled on the right.\<close>

fun leftwards :: "amount \<Rightarrow> bool" where
  "leftwards (From_arg w) = (low_int w < 0)"
| "leftwards _ = False"

definition flags_of :: "string \<Rightarrow> amount \<Rightarrow> flags" where
  "flags_of fs a = \<lparr>ZEROPAD = CHR ''0'' \<in> set fs, SIGN = False, PLUS = CHR ''+'' \<in> set fs, SPACE = CHR '' '' \<in> set fs,
     LEFT = (CHR ''-'' \<in> set fs \<or> leftwards a), HEX_PREP = CHR ''#'' \<in> set fs, UPPERCASE = False\<rparr>"

definition fill_field :: "flags \<Rightarrow> int \<Rightarrow> string \<Rightarrow> string" where
  "fill_field fl width s =
     (let gap = replicate (nat (width - int (length s))) CHR '' '' in if LEFT fl then s @ gap else gap @ s)"

definition base_of :: "char \<Rightarrow> int" where
  "base_of c = (if c = CHR ''o'' then 8 else if c \<in> {CHR ''x'', CHR ''X''} then 16 else 10)"

definition is_signed :: "char \<Rightarrow> bool" where
  "is_signed c \<longleftrightarrow> c \<in> {CHR ''d'', CHR ''i''}"

definition num_value :: "bool \<Rightarrow> char \<Rightarrow> u64 \<Rightarrow> u64" where
  "num_value long c w = (if long then w else if is_signed c then word_of_int (low_int w) else ucast (ucast w :: u32))"

fun printed_operand :: "flags \<Rightarrow> int \<Rightarrow> int \<Rightarrow> bool \<Rightarrow> operand \<Rightarrow> string" where
  "printed_operand fl width precision long (Number c w) =
     number_text (num_value long c w) (base_of c) width precision (fl\<lparr>SIGN := is_signed c, UPPERCASE := (c = CHR ''X'')\<rparr>)"
| "printed_operand fl width precision long (Text_of s) =
     (let s = (case s of None \<Rightarrow> ''<NULL>'' | Some s \<Rightarrow> s) in fill_field fl width (if precision < 0 then s else take (nat precision) s))"
| "printed_operand fl width precision long (Char_of w) = fill_field fl width [char_of (unat (ucast w :: u8))]"
| "printed_operand fl width precision long (Pointer w) =
     (if width = - 1 then number_text w 16 16 precision (fl\<lparr>ZEROPAD := True\<rparr>) else number_text w 16 width precision fl)"
| "printed_operand fl width precision long Percent = ''%''"

fun printed :: "piece \<Rightarrow> string" where
  "printed (Plain s) = s"
| "printed (Directive fs a b long v) = printed_operand (flags_of fs a) (width_of a) (precision_of b) long v"

text \<open>
  The pieces for which this is what is printed: a width of digits does not start with a zero, which is a flag, \<open>skip_atoi\<close> does not overflow,
  and no least number is negated.
\<close>

definition amount_fits :: "amount \<Rightarrow> bool" where
  "amount_fits a = (case a of Given n \<Rightarrow> n < 2147483600 | _ \<Rightarrow> True)"

fun piece_ok :: "piece \<Rightarrow> bool" where
  "piece_ok (Plain s) = (CHR ''%'' \<notin> set s)"
| "piece_ok (Directive fs a b long v) =
     (set fs \<subseteq> set ''-+ #0'' \<and> a \<noteq> Given 0 \<and> amount_fits a \<and> amount_fits b
      \<and> (case a of From_arg w \<Rightarrow> low_int w \<noteq> - (2 ^ 31) | _ \<Rightarrow> True)
      \<and> (case v of Number c w \<Rightarrow> c \<in> set ''diuoxX'' \<and> \<not> (long \<and> is_signed c \<and> w = 2 ^ 63)
         | Text_of (Some s) \<Rightarrow> length s < 2 ^ 64 | _ \<Rightarrow> True))"

section \<open>Parsing a directive\<close>

definition flag_char :: "char \<Rightarrow> bool" where
  "flag_char c \<longleftrightarrow> c \<in> set ''-+ #0''"

lemma parse_flags_append:
  assumes "set fs \<subseteq> set ''-+ #0''" and "s \<noteq> []" and "\<not> flag_char (hd s)"
  shows "parse_flags fl (fs @ s) = (fl\<lparr>ZEROPAD := ZEROPAD fl \<or> CHR ''0'' \<in> set fs, PLUS := PLUS fl \<or> CHR ''+'' \<in> set fs,
    SPACE := SPACE fl \<or> CHR '' '' \<in> set fs, LEFT := LEFT fl \<or> CHR ''-'' \<in> set fs, HEX_PREP := HEX_PREP fl \<or> CHR ''#'' \<in> set fs\<rparr>, s)"
  using assms
proof (induction fs arbitrary: fl)
  case Nil
  then show ?case by (cases s) (auto simp: flag_char_def)
next
  case (Cons c fs)
  have "c \<in> set ''-+ #0''" using Cons.prems(1) by simp
  then show ?case using Cons.IH Cons.prems by (auto simp del: append_assoc)
qed

lemma decimal_starts:
  "\<exists>(d :: nat) t. decimal n = char_of (48 + d) # t \<and> d < 10 \<and> (0 < n \<longrightarrow> 0 < d)"
proof (induction n rule: decimal.induct)
  case (1 n)
  show ?case
  proof (cases "n < 10")
    case True
    then show ?thesis by (intro exI [of _ n] exI [of _ "''''"]) (simp add: decimal.simps [of n])
  next
    case False
    then obtain d :: nat and t where "decimal (n div 10) = char_of (48 + d) # t" "d < 10" "0 < d" using 1 by auto
    then show ?thesis using False by (intro exI [of _ d] exI [of _ "t @ [char_of (48 + n mod 10)]"]) (simp add: decimal.simps [of n])
  qed
qed

lemma digit_not_flag: "0 < d \<Longrightarrow> d < 10 \<Longrightarrow> \<not> flag_char (char_of (48 + d))" for d :: nat
  using less_10_cases [of d] by (auto simp: flag_char_def char_of_def bit_0 bit_Suc)

lemma skip_decimal:
  assumes "n < 2147483600" and "\<not> starts_digit s"
  shows "starts_digit (decimal n @ s)" and "skip_atoi 0 (decimal n @ s) = Some (int n, s)"
proof -
  show "starts_digit (decimal n @ s)" using decimal_starts [of n] by (auto simp: starts_digit_def)
  show "skip_atoi 0 (decimal n @ s) = Some (int n, s)" by (rule skip_atoi_decimal) (use assms in simp_all)
qed

lemma parse_width_amount:
  assumes "amount_fits a" and "\<not> starts_digit s" and "\<not> starts CHR ''*'' s" and "\<And>w. a = From_arg w \<Longrightarrow> low_int w \<noteq> - (2 ^ 31)"
  shows "parse_width fl (amount_text a @ s) (amount_args a @ args) = Some (width_of a, fl\<lparr>LEFT := LEFT fl \<or> leftwards a\<rparr>, s, args)"
proof (cases a)
  case Omitted
  then show ?thesis using assms(2,3) by (simp add: parse_width_def)
next
  case (Given n)
  then show ?thesis using skip_decimal [OF _ assms(2), of n] assms(1) by (simp add: parse_width_def amount_fits_def)
next
  case (From_arg w)
  then show ?thesis using assms(4) [OF From_arg]
    by (simp add: parse_width_def starts_digit_def starts_def is_digit_char_def arg_int_def low_int_def)
qed

lemma parse_precision_amount:
  assumes "amount_fits b" and "\<not> starts_digit s" and "\<not> starts CHR ''.'' s"
  shows "parse_precision (precision_text b @ s) (amount_args b @ args) = Some (precision_of b, s, args)"
proof (cases b)
  case Omitted
  then show ?thesis using assms(3) by (simp add: parse_precision_def precision_text_def)
next
  case (Given n)
  have "starts CHR ''.'' (CHR ''.'' # t)" for t by (simp add: starts_def)
  then show ?thesis using Given skip_decimal [OF _ assms(2), of n] assms(1) by (simp add: parse_precision_def precision_text_def amount_fits_def)
next
  case (From_arg w)
  then show ?thesis
    by (simp add: parse_precision_def precision_text_def starts_digit_def starts_def is_digit_char_def arg_int_def low_int_def max_def)
qed

lemma scast_low_int: "scast (ucast w :: s32) = (word_of_int (low_int w) :: u64)"
  by (simp only: low_int_def scast_eq)

lemma convert_number:
  assumes "c \<in> set ''diuoxX''" and "\<not> SIGN fl" and "\<not> UPPERCASE fl"
  shows "convert long width precision fl (c # rest) (VNum w # args) =
    Option.bind (number (num_value long c w) (base_of c) width precision (fl\<lparr>SIGN := is_signed c, UPPERCASE := (c = CHR ''X'')\<rparr>)) (\<lambda>out. Some (out, args))"
proof -
  have same: "fl\<lparr>SIGN := False, UPPERCASE := False\<rparr> = fl" "fl\<lparr>SIGN := False, UPPERCASE := True\<rparr> = fl\<lparr>UPPERCASE := True\<rparr>"
      "fl\<lparr>SIGN := True, UPPERCASE := False\<rparr> = fl\<lparr>SIGN := True\<rparr>"
    using assms(2,3) by (cases fl; simp)+
  have "c = CHR ''d'' \<or> c = CHR ''i'' \<or> c = CHR ''u'' \<or> c = CHR ''o'' \<or> c = CHR ''x'' \<or> c = CHR ''X''" using assms(1) by simp
  then show ?thesis
    by (elim disjE)
      (simp_all add: convert_num_def num_value_def is_signed_def base_of_def same assms(2) scast_low_int)
qed

lemma char_of_low_byte: "char_of (unat (ucast w :: s32)) = (char_of (unat (ucast w :: u8)) :: char)" for w :: u64
proof -
  have "unat (ucast w :: s32) mod 256 = unat (ucast w :: u8) mod 256"
    by (simp add: unsigned_ucast_eq unsigned_take_bit_eq take_bit_eq_mod mod_mod_cancel)
  then show ?thesis by (metis char_of_mod_256)
qed

text \<open>\<open>strnlen\<close> takes the precision as an unsigned number, so that \<open>- 1\<close> does not cut.\<close>

lemma precision_of_bounds: "amount_fits b \<Longrightarrow> - 1 \<le> precision_of b \<and> precision_of b < 2 ^ 31"
  using sint_less [of "ucast w :: s32" for w] by (cases b) (auto simp: amount_fits_def low_int_def)

lemma convert_operand:
  assumes ok: "piece_ok (Directive fs a b long v)"
  shows "convert long (width_of a) (precision_of b) (flags_of fs a) (operand_char v # rest) (operand_args v @ args) =
    Some (printed (Directive fs a b long v), args)"
proof -
  define fl where "fl = flags_of fs a"
  have fl: "\<not> SIGN fl" "\<not> UPPERCASE fl" by (simp_all add: fl_def flags_of_def)
  show ?thesis
  proof (cases v)
    case (Number c w)
    have c: "c \<in> set ''diuoxX''" and least: "long \<Longrightarrow> is_signed c \<Longrightarrow> w \<noteq> 2 ^ 63" using ok Number by auto
    have "num_value long c w \<noteq> 2 ^ 63" if "is_signed c"
      using that least scast_not_least [of "ucast w"] unfolding num_value_def scast_low_int by auto
    moreover have "2 \<le> base_of c" "base_of c \<le> 36" by (simp_all add: base_of_def)
    ultimately have "number (num_value long c w) (base_of c) (width_of a) (precision_of b) (fl\<lparr>SIGN := is_signed c, UPPERCASE := (c = CHR ''X'')\<rparr>) =
        Some (printed (Directive fs a b long v))"
      by (subst number_eq) (simp_all add: Number fl_def)
    then show ?thesis using convert_number [OF c fl, of long "width_of a" "precision_of b" rest w args] by (simp add: Number fl_def)
  next
    case (Text_of t)
    have "length (case t of None \<Rightarrow> ''<NULL>'' | Some s \<Rightarrow> s) < 2 ^ 64" using ok Text_of by (auto split: option.splits)
    then show ?thesis using convert_s_prints [of "precision_of b" t "width_of a" fl args] precision_of_bounds [of b] ok
      by (simp add: Text_of fl_def fill_field_def justify_eq Let_def)
  next
    case (Char_of w)
    then show ?thesis by (simp add: convert_c_def arg_int_def fill_field_def Let_def char_of_low_byte)
  next
    case (Pointer w)
    have fit: "width_of a = - 1 \<longleftrightarrow> a = Omitted" by (cases a) auto
    show ?thesis using Pointer fl fit
      by (simp add: convert_p_def convert_num_def number_eq_unsigned fl_def [symmetric])
  next
    case Percent
    then show ?thesis by simp
  qed
qed

lemma operand_chars:
  "piece_ok (Directive fs a b long v) \<Longrightarrow> operand_char v \<in> set ''diuoxXscp%''"
  by (cases v) auto

lemma directive_prints:
  assumes ok: "piece_ok (Directive fs a b long v)"
  shows "directive (directive_text fs a b long v @ rest) (amount_args a @ amount_args b @ operand_args v @ args) =
    Some (printed (Directive fs a b long v), rest, args)"
proof -
  define c where "c = operand_char v"
  define s3 where "s3 = (if long then ''l'' else '''') @ c # rest"
  define s2 where "s2 = precision_text b @ s3"
  define s1 where "s1 = amount_text a @ s2"
  have c: "c \<in> set ''diuoxXscp%''" unfolding c_def by (rule operand_chars [OF ok])
  have s3: "\<not> starts_digit s3" "\<not> starts CHR ''.'' s3" "\<not> starts CHR ''*'' s3" "s3 \<noteq> []" "\<not> flag_char (hd s3)"
    using c by (auto simp: s3_def starts_digit_def starts_def is_digit_char_def flag_char_def)
  then have s2: "\<not> starts_digit s2" "\<not> starts CHR ''*'' s2" "s2 \<noteq> []" "\<not> flag_char (hd s2)"
    by (auto simp: s2_def precision_text_def starts_digit_def starts_def is_digit_char_def flag_char_def)
  have s1: "s1 \<noteq> []" "\<not> flag_char (hd s1)"
  proof -
    have "\<not> flag_char (hd (decimal n @ s2)) \<and> decimal n \<noteq> []" if "a = Given n" for n
      using decimal_starts [of n] digit_not_flag ok that by fastforce
    then show "s1 \<noteq> []" "\<not> flag_char (hd s1)" using s2(3,4) by (cases a; auto simp: s1_def flag_char_def)+
  qed
  have split: "directive_text fs a b long v @ rest = fs @ s1" by (simp add: directive_text_def s1_def s2_def s3_def c_def)
  have flags: "set fs \<subseteq> set ''-+ #0''" and fits: "amount_fits a" "amount_fits b" and least: "\<And>w. a = From_arg w \<Longrightarrow> low_int w \<noteq> - (2 ^ 31)"
    using ok by (auto split: amount.splits)
  define fl where "fl = no_flags\<lparr>ZEROPAD := ZEROPAD no_flags \<or> CHR ''0'' \<in> set fs, PLUS := PLUS no_flags \<or> CHR ''+'' \<in> set fs,
    SPACE := SPACE no_flags \<or> CHR '' '' \<in> set fs, LEFT := LEFT no_flags \<or> CHR ''-'' \<in> set fs, HEX_PREP := HEX_PREP no_flags \<or> CHR ''#'' \<in> set fs\<rparr>"
  have 1: "parse_flags no_flags (fs @ s1) = (fl, s1)" unfolding fl_def by (rule parse_flags_append [OF flags s1])
  have fl: "fl\<lparr>LEFT := LEFT fl \<or> leftwards a\<rparr> = flags_of fs a" by (simp add: fl_def flags_of_def no_flags_def)
  have 2: "parse_width fl s1 (amount_args a @ amount_args b @ operand_args v @ args) = Some (width_of a, flags_of fs a, s2, amount_args b @ operand_args v @ args)"
    using parse_width_amount [OF fits(1) s2(1,2) least, of fl] unfolding s1_def fl .
  have 3: "parse_precision s2 (amount_args b @ operand_args v @ args) = Some (precision_of b, s3, operand_args v @ args)"
    unfolding s2_def by (rule parse_precision_amount [OF fits(2) s3(1,2)])
  have 4: "starts CHR ''l'' s3 = long" and 5: "(if long \<or> starts CHR ''L'' s3 then tl s3 else s3) = c # rest"
    using c by (auto simp: s3_def starts_def)
  have 6: "convert long (width_of a) (precision_of b) (flags_of fs a) (c # rest) (operand_args v @ args) = Some (printed (Directive fs a b long v), args)"
    unfolding c_def by (rule convert_operand [OF ok])
  show ?thesis
    unfolding split directive_def Let_def 1 prod.case 2 3 Option.bind.bind_lunit 4 5 6 list.sel ..
qed

lemma ee_vsprintf_pieces:
  assumes "list_all piece_ok ps"
  shows "ee_vsprintf (concat (map piece_text ps)) (concat (map piece_args ps) @ args) = Some (concat (map printed ps))"
  using assms
proof (induction ps)
  case (Cons p ps)
  show ?case
  proof (cases p)
    case (Plain s)
    then show ?thesis using Cons ee_vsprintf_literal [of s "concat (map piece_text ps)"] by simp
  next
    case (Directive fs a b long v)
    then have ok: "piece_ok (Directive fs a b long v)" using Cons.prems by simp
    show ?thesis
      using Cons directive_prints [OF ok, of "concat (map piece_text ps)" "concat (map piece_args ps) @ args"]
      by (simp add: Directive del: printed.simps piece_ok.simps)
  qed
qed simp

section \<open>Property\<close>

text \<open>
  C37: a format put together from any plain texts and directives, with flags, widths and precisions in the format or from the
  arguments, the qualifier \<open>l\<close> and the conversions d, i, u, o, x, X, s, c, p and %, prints its pieces one after the other, each as the independent
  description \<open>printed\<close> says, if they fit the buffer of 1024 characters and none is a zero character.
  A width or precision has to be below 2147483600, where \<open>skip_atoi\<close> cannot overflow; least numbers, which the code negates, are excluded, and so are
  addresses (%a).
\<close>

theorem ee_printf_formats:
  assumes "list_all piece_ok ps" and "length (concat (map printed ps)) < 1024" and "char_of (0 :: nat) \<notin> set (concat (map printed ps))"
  shows "ee_printf (concat (map piece_text ps)) (concat (map piece_args ps) @ args) =
    Some (concat (map printed ps), length (concat (map printed ps)))"
proof -
  have "takeWhile (\<lambda>c. c \<noteq> char_of (0 :: nat)) (concat (map printed ps)) = concat (map printed ps)"
    using assms(3) by (simp only: takeWhile_eq_all_conv) blast
  moreover have "\<not> length (concat (map printed ps)) + 1 > 1024" using assms(2) by simp
  ultimately show ?thesis unfolding ee_printf_def ee_vsprintf_pieces [OF assms(1)] Option.bind.bind_lunit Let_def by (simp only: if_False)
qed

theorem ee_printf_formats_witness:
  "ee_printf ''[%d]crc: 0x%04x|%-*s|%6.3s'' [VNum 2, VNum 0xab, VNum 5, VStr (Some ''ok''), VStr (Some ''abcdef'')] =
    Some (''[2]crc: 0x00ab|ok   |   abc'', 27)"
proof -
  define ps where "ps = [Plain ''['', Directive '''' Omitted Omitted False (Number CHR ''d'' 2), Plain '']crc: 0x'',
    Directive ''0'' (Given 4) Omitted False (Number CHR ''x'' 0xab), Plain ''|'',
    Directive ''-'' (From_arg 5) Omitted False (Text_of (Some ''ok'')), Plain ''|'', Directive '''' (Given 6) (Given 3) False (Text_of (Some ''abcdef''))]"
  have d: "decimal 4 = ''4''" "decimal 6 = ''6''" "decimal 3 = ''3''" by (simp_all add: decimal.simps [of 4] decimal.simps [of 6] decimal.simps [of 3] char_of_def bit_0 bit_Suc)
  have out: "concat (map printed ps) = ''[2]crc: 0x00ab|ok   |   abc''" unfolding ps_def by code_simp
  have ok: "list_all piece_ok ps" by (simp add: ps_def amount_fits_def low_int_def)
  have "concat (map piece_text ps) = ''[%d]crc: 0x%04x|%-*s|%6.3s''"
    "concat (map piece_args ps) = [VNum 2, VNum 0xab, VNum 5, VStr (Some ''ok''), VStr (Some ''abcdef'')]"
    by (simp_all add: ps_def directive_text_def precision_text_def d)
  then show ?thesis using ee_printf_formats [OF ok, of "[]"] unfolding out by (simp add: char_of_def)
qed

end
