(* ===== verification/Double.thy ===== *)
theory Double
  imports Prelude Complex_Main "HOL-Library.Monad_Syntax"
begin

text \<open>
  Finite \<open>double\<close>s of C as far as coremark/multiplix/cvt.c uses them: non-negative magnitudes
  \<open>m * 2 ^ e\<close>, with sums, products and quotients rounded to 53 bits, ties to even. Nothing in that file
  overflows or underflows, because it multiplies fractions and divides integers, so the exponent has no
  bounds here. Infinities and NaNs are left out.
\<close>

section \<open>Rounding\<close>

type_synonym mag = "nat \<times> int"

fun bit_count :: "nat \<Rightarrow> nat" where
  "bit_count n = (if n = 0 then 0 else Suc (bit_count (n div 2)))"

declare bit_count.simps [simp del]

lemma bit_count_0 [simp]: "bit_count 0 = 0"
  by (subst bit_count.simps) simp

text \<open>\<open>m / 2 ^ s\<close> to the nearest integer, ties to even.\<close>

definition round_shift :: "nat \<Rightarrow> nat \<Rightarrow> nat" where
  "round_shift m s =
     (let q = m div 2 ^ s; r = m mod 2 ^ s
      in if 2 ^ s < 2 * r \<or> (2 * r = 2 ^ s \<and> odd q) then q + 1 else q)"

definition rnd :: "nat \<Rightarrow> int \<Rightarrow> mag" where
  "rnd m e = (let s = bit_count m - 53 in (round_shift m s, e + int s))"

section \<open>Arithmetic\<close>

fun fmul :: "mag \<Rightarrow> mag \<Rightarrow> mag" where
  "fmul (m, e) (n, f) = rnd (m * n) (e + f)"

fun fadd :: "mag \<Rightarrow> mag \<Rightarrow> mag" where
  "fadd (m, e) (n, f) = (let g = min e f in rnd (m * 2 ^ nat (e - g) + n * 2 ^ nat (f - g)) g)"

text \<open>The quotient has far more than 53 bits, and a last one that says whether it is exact.\<close>

fun fdiv :: "mag \<Rightarrow> mag \<Rightarrow> mag" where
  "fdiv (m, e) (n, f) =
     (let k = 64 + bit_count n; q = m * 2 ^ k div n; sticky = (if m * 2 ^ k mod n = 0 then 0 else 1)
      in rnd (2 * q + sticky) (e - f - int k - 1))"

text \<open>The library function \<open>modf\<close>, the fraction and the integral part, and the conversion to an integer.\<close>

fun modf :: "mag \<Rightarrow> mag \<times> mag" where
  "modf (m, e) = (if 0 \<le> e then ((0, 0), (m, e)) else ((m mod 2 ^ nat (- e), e), (m div 2 ^ nat (- e), 0)))"

fun trunc :: "mag \<Rightarrow> nat" where
  "trunc (m, e) = (if 0 \<le> e then m * 2 ^ nat e else m div 2 ^ nat (- e))"

definition is_zero :: "mag \<Rightarrow> bool" where
  "is_zero x \<longleftrightarrow> fst x = 0"

text \<open>The constants \<open>10\<close> and \<open>.03\<close>.\<close>

abbreviation ten :: mag where "ten \<equiv> (10, 0)"

abbreviation c03 :: mag where "c03 \<equiv> (0x1eb851eb851eb8, - 58)"

record double =
  negative :: bool
  mag :: mag

section \<open>Values\<close>

lemma real_mono:
  "a < b * 2 ^ s + c \<Longrightarrow> real a < real b * 2 ^ s + real c" "b * 2 ^ s \<le> a \<Longrightarrow> real b * 2 ^ s \<le> real a"
  "a \<le> b * 2 ^ s \<Longrightarrow> real a \<le> real b * 2 ^ s"
proof -
  have eq: "real (b * 2 ^ s) = real b * 2 ^ s" by simp
  show "b * 2 ^ s \<le> a \<Longrightarrow> real b * 2 ^ s \<le> real a" unfolding eq [symmetric] by (rule of_nat_mono)
  show "a \<le> b * 2 ^ s \<Longrightarrow> real a \<le> real b * 2 ^ s" unfolding eq [symmetric] by (rule of_nat_mono)
  show "a < b * 2 ^ s + c \<Longrightarrow> real a < real b * 2 ^ s + real c"
    unfolding eq [symmetric] of_nat_add [symmetric] by (rule of_nat_less_iff [THEN iffD2])
qed

definition val :: "mag \<Rightarrow> real" where
  "val x = real (fst x) * 2 powi snd x"

lemma val_nonneg [simp]: "0 \<le> val x"
  by (simp add: val_def)

lemma val_neg: "val (m, - int k) = real m / 2 ^ k"
  by (simp add: val_def power_int_minus divide_inverse)

lemma bit_count_bound: "n < 2 ^ bit_count n"
proof (induction n rule: bit_count.induct)
  case (1 n)
  show ?case
  proof (cases "n = 0")
    case False
    then have "n div 2 < 2 ^ bit_count (n div 2)" using 1 by simp
    then have "n < 2 * 2 ^ bit_count (n div 2)" by linarith
    then show ?thesis using False by (subst bit_count.simps) simp
  qed simp
qed

lemma bit_count_least: "0 < n \<Longrightarrow> 2 ^ (bit_count n - 1) \<le> n"
proof (induction n rule: bit_count.induct)
  case (1 n)
  show ?case
  proof (cases "n div 2 = 0")
    case True
    then have "n = 1" using 1 by simp
    then show ?thesis by (simp add: bit_count.simps)
  next
    case False
    then have "2 ^ (bit_count (n div 2) - 1) \<le> n div 2" using 1 by simp
    moreover have "0 < bit_count (n div 2)" using False by (subst bit_count.simps) simp
    then have "(2::nat) ^ bit_count (n div 2) = 2 * 2 ^ (bit_count (n div 2) - 1)" by (simp flip: power_Suc)
    ultimately have "2 ^ bit_count (n div 2) \<le> n" by linarith
    then show ?thesis using 1 by (subst bit_count.simps) simp
  qed
qed

lemma bit_count_le: "n < 2 ^ k \<Longrightarrow> bit_count n \<le> k"
proof (rule ccontr)
  assume n: "n < 2 ^ k" and "\<not> bit_count n \<le> k"
  then have k: "k \<le> bit_count n - 1" "0 < n" by (auto simp: bit_count.simps [of n] split: if_splits)
  have "(2::nat) ^ k \<le> 2 ^ (bit_count n - 1)" using k(1) by (rule power_increasing) simp
  then show False using bit_count_least [OF k(2)] n by linarith
qed

lemma bit_count_shift: "0 < a \<Longrightarrow> bit_count (a * 2 ^ t) = bit_count a + t"
proof (induction t)
  case (Suc t)
  then show ?case by (subst bit_count.simps) (simp add: mult.left_commute)
qed simp

lemma round_shift_0 [simp]: "round_shift m 0 = m"
  by (simp add: round_shift_def)

lemma round_shift_exact: "round_shift (a * 2 ^ s) s = a"
  by (simp add: round_shift_def)

lemma round_shift_error: "\<bar>real (round_shift m s) * 2 ^ s - real m\<bar> \<le> 2 ^ s / 2"
proof -
  define q r where q: "q = m div 2 ^ s" and r: "r = m mod 2 ^ s"
  have "m = q * 2 ^ s + r" by (simp only: q r div_mult_mod_eq)
  then have m: "real m = real q * 2 ^ s + real r" by simp
  have "r < 1 * 2 ^ s + 0" by (simp add: r)
  then have r_less: "real r < 2 ^ s" using real_mono(1) [of r 1 s 0] by simp
  show ?thesis
  proof (cases "2 ^ s < 2 * r \<or> (2 * r = 2 ^ s \<and> odd q)")
    case True
    then have "2 ^ s \<le> 2 * r" by auto
    then have "2 ^ s \<le> 2 * real r" using real_mono(2) [of 1 s "2 * r"] by simp
    moreover have "round_shift m s = q + 1" using True by (simp add: round_shift_def q r)
    then have "real (round_shift m s) * 2 ^ s - real m = 2 ^ s - real r" by (simp add: m algebra_simps)
    ultimately show ?thesis using r_less by linarith
  next
    case False
    then have "2 * r \<le> 2 ^ s" by auto
    then have "2 * real r \<le> 2 ^ s" using real_mono(3) [of "2 * r" 1 s] by simp
    moreover have "round_shift m s = q" using False by (auto simp: round_shift_def q r)
    then have "real (round_shift m s) * 2 ^ s - real m = - real r" by (simp add: m)
    ultimately show ?thesis by linarith
  qed
qed

lemma rnd_val: "bit_count m \<le> 53 \<Longrightarrow> rnd m e = (m, e)"
  by (simp add: rnd_def)

lemma power_split: "(2::real) powi (e + int s) = 2 powi e * 2 ^ s"
  by (simp add: power_int_add)

lemma rnd_exact:
  assumes "a < 2 ^ 53"
  shows "val (rnd (a * 2 ^ t) e) = val (a * 2 ^ t, e)"
proof (cases "a = 0")
  case True
  then show ?thesis by (simp add: rnd_def round_shift_def val_def)
next
  case False
  let ?s = "bit_count (a * 2 ^ t) - 53"
  have s: "?s \<le> t" using bit_count_le [OF assms] bit_count_shift [of a t] False by simp
  then have "a * 2 ^ t = (a * 2 ^ (t - ?s)) * 2 ^ ?s" by (simp flip: power_add)
  then have "round_shift (a * 2 ^ t) ?s = a * 2 ^ (t - ?s)" by (metis round_shift_exact)
  moreover have "(2::real) ^ t = 2 ^ (t - ?s) * 2 ^ ?s" using s by (simp flip: power_add)
  ultimately show ?thesis by (simp add: rnd_def val_def power_split Let_def)
qed

lemma rnd_error: "\<bar>val (rnd m e) - val (m, e)\<bar> \<le> val (m, e) / 2 ^ 53"
proof (cases "bit_count m \<le> 53")
  case True
  then show ?thesis by (simp add: rnd_val)
next
  case False
  define k where k: "k = bit_count m - 53"
  have b: "bit_count m - 1 = k + 52" using False by (simp add: k)
  have m: "0 < m" by (rule gr0I) (use False in simp)
  have "rnd m e = (round_shift m k, e + int k)" by (simp add: rnd_def k Let_def)
  then have "val (rnd m e) = real (round_shift m k) * 2 ^ k * 2 powi e" by (simp add: val_def power_split)
  then have "val (rnd m e) - val (m, e) = (real (round_shift m k) * 2 ^ k - real m) * 2 powi e"
    by (simp add: val_def left_diff_distrib)
  then have "\<bar>val (rnd m e) - val (m, e)\<bar> = \<bar>real (round_shift m k) * 2 ^ k - real m\<bar> * 2 powi e"
    by (simp add: abs_mult)
  also have "\<dots> \<le> 2 ^ k / 2 * 2 powi e" by (intro mult_right_mono round_shift_error) simp
  also have "\<dots> \<le> real m / 2 ^ 53 * 2 powi e"
  proof (rule mult_right_mono)
    have "2 ^ (k + 52) \<le> m" using bit_count_least [OF m] unfolding b .
    then have "(2::real) ^ (k + 52) \<le> real m" using real_mono(2) [of 1 "k + 52" m] by simp
    then show "2 ^ k / 2 \<le> real m / 2 ^ 53" by (simp add: power_add)
  qed simp
  finally show ?thesis by (simp add: val_def)
qed

lemma val_fmul: "\<bar>val (fmul x y) - val x * val y\<bar> \<le> val x * val y / 2 ^ 53"
proof -
  obtain m e n f where x: "x = (m, e)" "y = (n, f)" by (cases x, cases y)
  have "val (m * n, e + f) = val x * val y" by (simp add: x val_def power_int_add)
  then show ?thesis using rnd_error [of "m * n" "e + f"] by (simp add: x)
qed

lemma val_fadd: "\<bar>val (fadd x y) - (val x + val y)\<bar> \<le> (val x + val y) / 2 ^ 53"
proof -
  obtain m e n f where x: "x = (m, e)" "y = (n, f)" by (cases x, cases y)
  let ?g = "min e f"
  have p: "(2::real) ^ nat (d - ?g) * 2 powi ?g = 2 powi d" if "?g \<le> d" for d
  proof -
    have "d = ?g + int (nat (d - ?g))" using that by simp
    then have "(2::real) powi d = 2 powi ?g * 2 ^ nat (d - ?g)" by (metis power_split)
    then show ?thesis by simp
  qed
  have "val (m * 2 ^ nat (e - ?g) + n * 2 ^ nat (f - ?g), ?g) = val x + val y"
    using p [of e] p [of f] by (simp add: x val_def algebra_simps)
  then show ?thesis using rnd_error [of "m * 2 ^ nat (e - ?g) + n * 2 ^ nat (f - ?g)" ?g] by (simp add: x Let_def)
qed

lemma trunc_val: "real (trunc x) \<le> val x" "val x < real (trunc x) + 1"
proof -
  obtain m e where x: "x = (m, e)" by (cases x)
  have "real (trunc x) \<le> val x \<and> val x < real (trunc x) + 1"
  proof (cases "0 \<le> e")
    case True
    then show ?thesis by (simp add: x val_def power_int_def)
  next
    case False
    define k where k: "k = nat (- e)"
    then have e: "e = - int k" using False by simp
    define q where q: "q = m div 2 ^ k"
    have "real q * 2 ^ k \<le> real m" by (rule real_mono(2)) (simp add: q)
    moreover have "m < (q + 1) * 2 ^ k + 0" unfolding q using dividend_less_div_times [of "2 ^ k" m] by simp
    then have "real m < (real q + 1) * 2 ^ k" using real_mono(1) [of m "q + 1" k 0] by (simp add: add.commute)
    moreover have "trunc x = q" using False by (simp add: x e q)
    ultimately show ?thesis by (simp add: x e val_neg pos_divide_less_eq pos_le_divide_eq)
  qed
  then show "real (trunc x) \<le> val x" "val x < real (trunc x) + 1" by simp_all
qed

lemma trunc_eq: "real n \<le> val x \<Longrightarrow> val x < real n + 1 \<Longrightarrow> trunc x = n"
  using trunc_val [of x] by linarith

lemma modf_neg: "modf (m, - int k) = ((m mod 2 ^ k, - int k), (m div 2 ^ k, 0))"
  by (cases "k = 0") simp_all

end
