(* ===== verification/Cvt.thy ===== *)
theory Cvt
  imports Double Printf
begin

text \<open>
  Decimal digits of a \<open>double\<close>, coremark/multiplix/cvt.c. The buffer is the list of its 80 characters,
  whatever they are before; pointers into it are indices. A write outside the buffer is \<open>None\<close>.
\<close>

section \<open>The code\<close>

abbreviation CVTBUFSIZE :: nat where "CVTBUFSIZE \<equiv> 80"

definition nul :: char where "nul = CHR 0x00"

text \<open>Arithmetic on a \<open>char\<close>; the code only compares and adds to codes below 128.\<close>

definition add_char :: "nat \<Rightarrow> char \<Rightarrow> char" where
  "add_char n c = char_of (of_char c + n)"

definition after_9 :: "char \<Rightarrow> bool" where
  "after_9 c \<longleftrightarrow> (57 :: nat) < of_char c"

text \<open>The digits of the integral part, written downwards from the end of the buffer.\<close>

fun int_digits :: "nat \<Rightarrow> mag \<Rightarrow> string \<Rightarrow> int \<Rightarrow> (nat \<times> string \<times> int) option" where
  "int_digits p1 fi buf r2 =
     (if is_zero fi then Some (p1, buf, r2)
      else case p1 of
        0 \<Rightarrow> None
      | Suc p1 \<Rightarrow>
          let (fj, fi) = modf (fdiv fi ten);
              buf = buf[p1 := add_char (trunc (fmul (fadd fj c03) ten)) CHR ''0'']
          in int_digits p1 fi buf (r2 + 1))"

text \<open>\<open>while (p1 < &buf[CVTBUFSIZE]) *p++ = *p1++\<close>.\<close>

function copy_down :: "nat \<Rightarrow> nat \<Rightarrow> string \<Rightarrow> nat \<times> string" where
  "copy_down p p1 buf = (if p1 < CVTBUFSIZE then copy_down (p + 1) (p1 + 1) (buf[p := buf ! p1]) else (p, buf))"
  by pat_completeness auto
termination by (relation "measure (\<lambda>(p, p1, buf). CVTBUFSIZE - p1)") auto

text \<open>\<open>while ((fj = arg * 10) < 1)\<close>.\<close>

partial_function (option) scale_loop :: "mag \<Rightarrow> int \<Rightarrow> (mag \<times> int) option" where
  "scale_loop arg r2 =
     (let fj = fmul arg ten in if trunc fj = 0 then scale_loop fj (r2 - 1) else Some (arg, r2))"

declare scale_loop.simps [code]

function frac_digits :: "nat \<Rightarrow> int \<Rightarrow> mag \<Rightarrow> string \<Rightarrow> nat \<times> string" where
  "frac_digits p p1 arg buf =
     (if int p \<le> p1 \<and> p < CVTBUFSIZE
      then let (arg, fj) = modf (fmul arg ten) in frac_digits (p + 1) p1 arg (buf[p := add_char (trunc fj) CHR ''0''])
      else (p, buf))"
  by pat_completeness auto
termination by (relation "measure (\<lambda>(p, p1, arg, buf). CVTBUFSIZE - p)") auto

text \<open>\<open>while (*p1 > '9')\<close>: it returns \<open>p\<close>, the buffer and \<open>*decpt\<close>.\<close>

function carry_loop :: "bool \<Rightarrow> nat \<Rightarrow> nat \<Rightarrow> string \<Rightarrow> int \<Rightarrow> nat \<times> string \<times> int" where
  "carry_loop eflag p p1 buf decpt =
     (if after_9 (buf ! p1)
      then let buf = buf[p1 := CHR ''0''] in
        if p1 > 0 then carry_loop eflag p (p1 - 1) (buf[p1 - 1 := add_char 1 (buf ! (p1 - 1))]) decpt
        else let buf = buf[0 := CHR ''1''] in
          if eflag then (p, buf, decpt + 1)
          else (p + 1, if p > 0 then buf[p := CHR ''0''] else buf, decpt + 1)
      else (p, buf, decpt))"
  by pat_completeness auto
termination by (relation "measure (\<lambda>(eflag, p, p1, buf, decpt). p1)") auto

declare int_digits.simps [simp del] copy_down.simps [simp del] frac_digits.simps [simp del] carry_loop.simps [simp del]

text \<open>Five is added to the character at \<open>p1\<close>; \<open>None\<close> when the final zero would leave the buffer.\<close>

definition round_off :: "bool \<Rightarrow> nat \<Rightarrow> string \<Rightarrow> int \<Rightarrow> bool \<Rightarrow> (string \<times> int \<times> bool) option" where
  "round_off eflag p1 buf decpt sign =
     (let buf = buf[p1 := add_char 5 (buf ! p1)];
          (p, buf, decpt) = carry_loop eflag p1 p1 buf decpt
      in if p < CVTBUFSIZE then Some (buf[p := nul], decpt, sign) else None)"

text \<open>From \<open>p1 = &buf[ndigits]\<close> to the end.\<close>

definition last_digits :: "bool \<Rightarrow> int \<Rightarrow> bool \<Rightarrow> nat \<times> string \<times> mag \<times> int \<Rightarrow> (string \<times> int \<times> bool) option" where
  "last_digits eflag ndigits sign st =
     (let (p, buf, arg, r2) = st;
          p1 = (if eflag then ndigits else ndigits + r2);
          decpt = r2
      in if p1 < 0 then Some (buf[0 := nul], decpt, sign)
         else
           let (p, buf) = frac_digits p p1 arg buf
           in if p1 \<ge> int CVTBUFSIZE then Some (buf[CVTBUFSIZE - 1 := nul], decpt, sign)
              else round_off eflag (nat p1) buf decpt sign)"

text \<open>The first digits: \<open>p\<close>, the buffer, the rest of the number and \<open>r2\<close>.\<close>

definition first_digits :: "mag \<Rightarrow> mag \<Rightarrow> string \<Rightarrow> (nat \<times> string \<times> mag \<times> int) option" where
  "first_digits arg fi buf =
     (if \<not> is_zero fi
      then do {
        (p1, buf, r2) \<leftarrow> int_digits CVTBUFSIZE fi buf 0;
        let (p, buf) = copy_down 0 p1 buf;
        Some (p, buf, arg, r2)
      }
      else if \<not> is_zero arg
      then do { (arg, r2) \<leftarrow> scale_loop arg 0; Some (0, buf, arg, r2) }
      else Some (0, buf, arg, 0))"

text \<open>The buffer, \<open>*decpt\<close> and \<open>*sign\<close>; \<open>None\<close> when a write leaves the buffer.\<close>

definition cvt :: "double \<Rightarrow> int \<Rightarrow> string \<Rightarrow> bool \<Rightarrow> (string \<times> int \<times> bool) option" where
  "cvt arg ndigits buf eflag =
     (let ndigits = (if ndigits < 0 then 0 else ndigits);
          ndigits = (if ndigits \<ge> int CVTBUFSIZE - 1 then int CVTBUFSIZE - 2 else ndigits);
          sign = (negative arg \<and> \<not> is_zero (mag arg));
          (arg, fi) = modf (mag arg)
      in do { st \<leftarrow> first_digits arg fi buf; last_digits eflag ndigits sign st })"

definition ecvtbuf :: "double \<Rightarrow> int \<Rightarrow> string \<Rightarrow> (string \<times> int \<times> bool) option" where
  "ecvtbuf arg ndigits buf = cvt arg ndigits buf True"

definition fcvtbuf :: "double \<Rightarrow> int \<Rightarrow> string \<Rightarrow> (string \<times> int \<times> bool) option" where
  "fcvtbuf arg ndigits buf = cvt arg ndigits buf False"


section \<open>Digits\<close>

text \<open>The decimal digits of a number, none for zero.\<close>

definition digs :: "nat \<Rightarrow> string" where
  "digs n = (if n = 0 then [] else decimal n)"

lemma digs_0 [simp]: "digs 0 = []"
  by (simp add: digs_def)

lemma digs_snoc: "0 < n \<or> 0 < d \<Longrightarrow> d < 10 \<Longrightarrow> digs (n * 10 + d) = digs n @ [char_of (48 + d)]"
  by (cases "n = 0") (auto simp: digs_def decimal.simps [of "n * 10 + d"] decimal.simps [of d])

lemma digs_step: "0 < n \<Longrightarrow> digs n = digs (n div 10) @ [char_of (48 + n mod 10)]"
  using digs_snoc [of "n div 10" "n mod 10"] by (cases "n mod 10 = 0") (auto elim!: dvdE simp: mult.commute)

lemma add_char_digit: "add_char d CHR ''0'' = char_of (48 + d)"
  by (simp add: add_char_def)

lemma digs_length_mono: "n \<le> m \<Longrightarrow> length (digs n) \<le> length (digs m)"
proof (induction n arbitrary: m rule: less_induct)
  case (less n)
  show ?case
  proof (cases "n = 0")
    case False
    then have "length (digs (n div 10)) \<le> length (digs (m div 10))"
      using less by (intro less.IH div_le_mono) simp_all
    then show ?thesis using False less.prems digs_step [of n] digs_step [of m] by simp
  qed simp
qed

lemma digs_length: "n < 10 ^ k \<Longrightarrow> length (digs n) \<le> k"
proof (induction k arbitrary: n)
  case (Suc k)
  have "n div 10 < 10 ^ k" using Suc.prems by (simp add: less_mult_imp_div_less mult.commute)
  from Suc.IH [OF this] show ?case using digs_step [of n] by (cases "n = 0") simp_all
qed simp

section \<open>The integral part\<close>

text \<open>One division by ten of an integer: the quotient and the remainder come out exactly.\<close>

lemma fdiv_ten:
  assumes "n < 2 ^ 50"
  shows "\<exists>x j. fdiv (n, 0) ten = (x, - int j) \<and> \<bar>real x / 2 ^ j - real n / 10\<bar> \<le> 1 / 64
    \<and> (10 dvd n \<longrightarrow> real x / 2 ^ j = real n / 10)"
proof -
  have b10: "bit_count 10 = 4" by (simp add: bit_count.simps)
  define N where N: "N = 2 * (n * 2 ^ 68 div 10) + (if n * 2 ^ 68 mod 10 = 0 then 0 else 1)"
  have f: "fdiv (n, 0) ten = rnd N (- 69)" by (simp add: b10 N)
  define s where s: "s = bit_count N - 53"
  define q t where q: "q = n * 2 ^ 68 div 10" and t: "t = n * 2 ^ 68 mod 10"
  have qt: "n * 2 ^ 68 = q * 10 + t" by (simp only: q t div_mult_mod_eq)
  have t10: "t < 10" by (simp add: t)
  have Nq: "N = 2 * q + (if t = 0 then 0 else 1)" by (simp add: N q t)
  then have N10: "10 * N \<le> n * 2 ^ 69 + 8" "n * 2 ^ 69 \<le> 10 * N + 8" using qt t10 by (simp_all split: if_splits)
  then have "N < 2 ^ 120" using assms by simp
  then have "s \<le> 69" using bit_count_le [of N 120] by (simp add: s)
  then have e: "rnd N (- 69) = (round_shift N s, - int (69 - s))" by (simp add: rnd_def s Let_def of_nat_diff)
  have vN: "val (N, - 69) = real N / 2 ^ 69" using val_neg [of N 69] by simp
  have R: "\<bar>real N / 2 ^ 69 - real n / 10\<bar> \<le> 1 / 2 ^ 60"
  proof -
    have "real (10 * N) \<le> real (n * 2 ^ 69 + 8)" "real (n * 2 ^ 69) \<le> real (10 * N + 8)" using N10 by (simp_all only: of_nat_le_iff)
    then have "10 * real N \<le> real n * 2 ^ 69 + 8" "real n * 2 ^ 69 \<le> 10 * real N + 8" by simp_all
    then show ?thesis by (simp add: abs_le_iff field_simps)
  qed
  have small: "real n / 10 \<le> 2 ^ 50 / 10" using assms by simp
  have err: "\<bar>val (rnd N (- 69)) - real N / 2 ^ 69\<bar> \<le> real N / 2 ^ 69 / 2 ^ 53"
    using rnd_error [of N "- 69"] unfolding vN .
  have "(1::real) / 2 ^ 60 \<le> 1" by simp
  then have "real N / 2 ^ 69 \<le> 2 ^ 50 / 10 + 1" using R small by linarith
  then have "real N / 2 ^ 69 / 2 ^ 53 \<le> (2 ^ 50 / 10 + 1) / 2 ^ 53" by (intro divide_right_mono) simp_all
  moreover have "(2 ^ 50 / 10 + 1) / 2 ^ 53 + 1 / 2 ^ 60 \<le> (1::real) / 64" by simp
  ultimately have close: "\<bar>val (rnd N (- 69)) - real n / 10\<bar> \<le> 1 / 64" using err R by linarith
  have exact: "val (rnd N (- 69)) = real n / 10" if d: "10 dvd n"
  proof -
    obtain a where a: "n = 10 * a" using d by (rule dvdE)
    then have "t = 0" by (simp add: t)
    then have "N = a * 2 ^ 69" using Nq qt a by simp
    then have "val (rnd N (- 69)) = val (a * 2 ^ 69, - 69)" using rnd_exact [of a 69 "- 69"] a assms by simp
    then show ?thesis using val_neg [of "a * 2 ^ 69" 69] by (simp add: a)
  qed
  have v: "val (rnd N (- 69)) = real (round_shift N s) / 2 ^ (69 - s)" unfolding e by (rule val_neg)
  show ?thesis unfolding f using e close exact unfolding v by blast
qed

lemma digit_ten:
  assumes "n < 2 ^ 50" and "modf (fdiv (n, 0) ten) = (fj, fi)"
  shows "fi = (n div 10, 0)" and "trunc (fmul (fadd fj c03) ten) = n mod 10"
proof -
  obtain x j where xj: "fdiv (n, 0) ten = (x, - int j)" and close: "\<bar>real x / 2 ^ j - real n / 10\<bar> \<le> 1 / 64"
    and exact: "10 dvd n \<longrightarrow> real x / 2 ^ j = real n / 10"
    using fdiv_ten [OF assms(1)] by blast
  have fj: "fj = (x mod 2 ^ j, - int j)" and fi: "fi = (x div 2 ^ j, 0)" using assms(2) unfolding xj modf_neg by simp_all
  define q r where q: "q = n div 10" and r: "r = n mod 10"
  have qr: "n = q * 10 + r" by (simp only: q r div_mult_mod_eq)
  have r10: "r < 10" by (simp add: r)
  define v where v: "v = real x / 2 ^ j - real q"
  have d: "\<bar>v - real r / 10\<bar> \<le> 1 / 64" using close by (simp add: v qr add_divide_distrib diff_diff_eq)
  have r0: "r = 0 \<Longrightarrow> v = 0" using exact by (simp add: v qr)
  have v01: "0 \<le> v \<and> v < 1"
  proof (cases "r = 0")
    case False
    then have "1 \<le> real r" "real r \<le> 9" using r10 by simp_all
    then show ?thesis using d by linarith
  qed (simp add: r0)
  define a b where a: "a = x div 2 ^ j" and b: "b = x mod 2 ^ j"
  have "x = a * 2 ^ j + b" by (simp only: a b div_mult_mod_eq)
  then have split: "real x / 2 ^ j = real a + real b / 2 ^ j" by (simp add: add_divide_distrib)
  have "b < 1 * 2 ^ j + 0" by (simp add: b)
  then have b01: "0 \<le> real b / 2 ^ j" "real b / 2 ^ j < 1" using real_mono(1) [of b 1 j 0] by simp_all
  have "a = q" using split b01 conjunct1 [OF v01] conjunct2 [OF v01] v by linarith
  then show "fi = (n div 10, 0)" by (simp add: fi q a)
  have vf: "val fj = v" using split \<open>a = q\<close> by (simp add: fj val_neg v b)
  define c where c: "c = val c03"
  have c_bound: "c \<le> 301 / 10000" "299 / 10000 \<le> c" unfolding c using val_neg [of "0x1eb851eb851eb8" 58] by simp_all
  define y where y: "y = val (fadd fj c03)"
  have ye: "\<bar>y - (v + c)\<bar> \<le> (v + c) / 2 ^ 53" using val_fadd [of fj c03] by (simp add: y vf c)
  have "val ten = 10" by (simp add: val_def)
  then have ze: "\<bar>val (fmul (fadd fj c03) ten) - y * 10\<bar> \<le> y * 10 / 2 ^ 53" using val_fmul [of "fadd fj c03" ten] by (simp add: y)
  have "v + c \<le> 2" using conjunct2 [OF v01] c_bound by linarith
  then have "(v + c) / 2 ^ 53 \<le> 2 / 2 ^ 53" by (intro divide_right_mono) simp_all
  moreover have small: "2 / 2 ^ 53 \<le> (1 / 10000 :: real)" "30 / 2 ^ 53 \<le> (1 / 10000 :: real)" by simp_all
  ultimately have y1: "\<bar>y - (v + c)\<bar> \<le> 1 / 10000" using ye by linarith
  then have "y * 10 \<le> 30" using \<open>v + c \<le> 2\<close> by linarith
  then have "y * 10 / 2 ^ 53 \<le> 30 / 2 ^ 53" by (intro divide_right_mono) simp_all
  then have z1: "\<bar>val (fmul (fadd fj c03) ten) - y * 10\<bar> \<le> 1 / 10000" using ze small(2) by linarith
  show "trunc (fmul (fadd fj c03) ten) = n mod 10"
    unfolding r [symmetric] using z1 y1 d c_bound by (intro trunc_eq) linarith+
qed

end
