(* ===== verification/CvtExact.thy ===== *)
theory CvtExact
  imports Cvt
begin

text \<open>
  What \<open>cvt\<close> of coremark/multiplix/cvt.c prints: for a \<open>double\<close> with at most 49 binary places its digits are those of
  the exact decimal value, rounded half up.
\<close>

lemma int_digits_text:
  assumes "n < 2 ^ 50" and "length (digs n) \<le> p1" and "p1 \<le> length buf"
  shows "int_digits p1 (n, 0) buf r2 =
    Some (p1 - length (digs n), take (p1 - length (digs n)) buf @ digs n @ drop p1 buf, r2 + int (length (digs n)))"
  using assms
proof (induction n arbitrary: p1 buf r2 rule: less_induct)
  case (less n)
  show ?case
  proof (cases "n = 0")
    case True
    then show ?thesis by (subst int_digits.simps) (simp add: is_zero_def)
  next
    case False
    have d: "digs n = digs (n div 10) @ [char_of (48 + n mod 10)]" using False by (intro digs_step) simp
    then obtain p where p1: "p1 = Suc p" and p: "length (digs (n div 10)) \<le> p" using less.prems by (cases p1) simp_all
    obtain fj fi where m: "modf (fdiv (n, 0) ten) = (fj, fi)" by (cases "modf (fdiv (n, 0) ten)")
    note dt = digit_ten [OF less.prems(1) m]
    let ?buf = "buf[p := char_of (48 + n mod 10)]"
    have "int_digits p1 (n, 0) buf r2 = int_digits p (n div 10, 0) ?buf (r2 + 1)"
      using False by (subst int_digits.simps) (simp add: is_zero_def p1 m dt add_char_digit del: fdiv.simps fmul.simps)
    also have "\<dots> = Some (p - length (digs (n div 10)),
        take (p - length (digs (n div 10))) ?buf @ digs (n div 10) @ drop p ?buf, r2 + 1 + int (length (digs (n div 10))))"
      using less.prems p False p1 by (intro less.IH) (simp_all add: div_less_dividend le_less_trans [OF div_le_dividend])
    also have "drop p ?buf = char_of (48 + n mod 10) # drop p1 buf"
      using less.prems(3) p1 by (simp add: drop_update_swap Cons_nth_drop_Suc [symmetric])
    finally show ?thesis using p by (simp add: d p1)
  qed
qed

lemma copy_down_text:
  assumes "p \<le> p1" and "p1 \<le> 80" and "length buf = 80"
  shows "\<exists>buf'. copy_down p p1 buf = (p + (80 - p1), buf') \<and> length buf' = 80
    \<and> take (p + (80 - p1)) buf' = take p buf @ drop p1 buf"
  using assms
proof (induction p p1 buf rule: copy_down.induct)
  case (1 p p1 buf)
  show ?case
  proof (cases "p1 < 80")
    case True
    then obtain buf' where IH: "copy_down (p + 1) (p1 + 1) (buf[p := buf ! p1]) = (p + 1 + (80 - (p1 + 1)), buf')" "length buf' = 80"
      "take (p + 1 + (80 - (p1 + 1))) buf' = take (p + 1) (buf[p := buf ! p1]) @ drop (p1 + 1) (buf[p := buf ! p1])"
      using 1 by fastforce
    have "take (p + 1) (buf[p := buf ! p1]) = take p buf @ [buf ! p1]"
      using 1(2,4) True by (simp add: take_Suc_conv_app_nth)
    moreover have "drop (p1 + 1) (buf[p := buf ! p1]) = drop (p1 + 1) buf" using 1(2) by simp
    moreover have "drop p1 buf = buf ! p1 # drop (p1 + 1) buf" using 1(4) True by (simp add: Cons_nth_drop_Suc)
    moreover have "p + 1 + (80 - (p1 + 1)) = p + (80 - p1)" using True by simp
    ultimately show ?thesis using IH True by (subst copy_down.simps) simp
  next
    case False
    then show ?thesis using 1 by (subst copy_down.simps) simp
  qed
qed

section \<open>The fraction\<close>

lemma fmul_ten: "f < 2 ^ k \<Longrightarrow> k \<le> 49 \<Longrightarrow> fmul (f, - int k) ten = (f * 10, - int k)"
proof -
  assume f: "f < 2 ^ k" "k \<le> 49"
  have "(2::nat) ^ k \<le> 2 ^ 49" using f(2) by (intro power_increasing) simp_all
  then have "f * 10 < 2 ^ 53" using f(1) by simp
  then show ?thesis using rnd_val [OF bit_count_le] by simp
qed

lemma trunc_neg: "trunc (m, - int k) = m div 2 ^ k"
  by (cases "k = 0") simp_all

text \<open>The digits of \<open>f / 2 ^ k\<close> after those of \<open>a\<close>: all \<open>j\<close> next digits of the quotient.\<close>

lemma frac_digits_text:
  assumes "f < 2 ^ k" and "k \<le> 49" and "take p buf = digs a" and "length (digs a) = p"
    and "0 < a \<or> 2 ^ k \<le> f * 10" and "length buf = 80" and "p + j \<le> 80"
  shows "\<exists>buf'. frac_digits p (int (p + j) - 1) (f, - int k) buf = (p + j, buf') \<and> length buf' = 80
    \<and> take (p + j) buf' = digs (a * 10 ^ j + f * 10 ^ j div 2 ^ k)
    \<and> (length (digs (a * 10 ^ j + f * 10 ^ j div 2 ^ k)) = p + j)"
  using assms
proof (induction j arbitrary: p f a buf)
  case 0
  then show ?case by (subst frac_digits.simps) simp
next
  case (Suc j)
  let ?d = "f * 10 div 2 ^ k" and ?f = "f * 10 mod 2 ^ k"
  have d10: "?d < 10" using Suc.prems(1) by (simp add: less_mult_imp_div_less mult.commute)
  have pos: "0 < a \<or> 0 < ?d" using Suc.prems(5) by (auto simp: div_greater_zero_iff)
  have "frac_digits p (int (p + Suc j) - 1) (f, - int k) buf =
      frac_digits (p + 1) (int (p + 1 + j) - 1) (?f, - int k) (buf[p := char_of (48 + ?d)])"
    using Suc.prems(7) fmul_ten [OF Suc.prems(1,2)] trunc_neg [of ?d 0]
    by (subst frac_digits.simps) (simp add: modf_neg add_char_digit)
  moreover have "\<exists>buf'. frac_digits (p + 1) (int (p + 1 + j) - 1) (?f, - int k) (buf[p := char_of (48 + ?d)]) = (p + 1 + j, buf')
    \<and> length buf' = 80 \<and> take (p + 1 + j) buf' = digs ((a * 10 + ?d) * 10 ^ j + ?f * 10 ^ j div 2 ^ k)
    \<and> length (digs ((a * 10 + ?d) * 10 ^ j + ?f * 10 ^ j div 2 ^ k)) = p + 1 + j"
  proof (rule Suc.IH)
    show "take (p + 1) (buf[p := char_of (48 + ?d)]) = digs (a * 10 + ?d)"
      using Suc.prems(3,6,7) digs_snoc [OF pos d10] by (simp add: take_Suc_conv_app_nth)
    show "length (digs (a * 10 + ?d)) = p + 1" using digs_snoc [OF pos d10] Suc.prems(4) by simp
  qed (use Suc.prems pos in auto)
  moreover have "(a * 10 + ?d) * 10 ^ j + ?f * 10 ^ j div 2 ^ k = a * 10 ^ Suc j + f * 10 ^ Suc j div 2 ^ k"
  proof -
    define d r where d: "d = ?d" and r: "r = ?f"
    have "f * 10 = d * 2 ^ k + r" by (simp only: d r div_mult_mod_eq)
    moreover have "f * 10 ^ Suc j = f * 10 * 10 ^ j" by simp
    ultimately have "f * 10 ^ Suc j = r * 10 ^ j + d * 10 ^ j * 2 ^ k" by (simp add: algebra_simps)
    then have "f * 10 ^ Suc j div 2 ^ k = d * 10 ^ j + r * 10 ^ j div 2 ^ k" by simp
    then show ?thesis unfolding d [symmetric] r [symmetric] by (simp add: algebra_simps)
  qed
  ultimately show ?case by simp
qed

text \<open>A fraction is scaled until its first digit is not zero.\<close>

lemma scale_loop_stops:
  assumes "0 < f" and "f < 2 ^ k" and "k \<le> 49"
  shows "\<exists>z. scale_loop (f, - int k) r2 = Some ((f * 10 ^ z, - int k), r2 - int z) \<and> f * 10 ^ z < 2 ^ k \<and> 2 ^ k \<le> f * 10 ^ z * 10"
  using assms
proof (induction "2 ^ k - f" arbitrary: f r2 rule: less_induct)
  case less
  show ?case
  proof (cases "f * 10 < 2 ^ k")
    case True
    then have "2 ^ k - f * 10 < 2 ^ k - f" using less.prems by (intro diff_less_mono2) simp_all
    from less.hyps [OF this, of "r2 - 1"] True less.prems obtain z where z: "scale_loop (f * 10, - int k) (r2 - 1) = Some ((f * 10 * 10 ^ z, - int k), r2 - 1 - int z)"
      "f * 10 * 10 ^ z < 2 ^ k" "2 ^ k \<le> f * 10 * 10 ^ z * 10"
      by auto
    have "scale_loop (f, - int k) r2 = scale_loop (f * 10, - int k) (r2 - 1)"
      using True fmul_ten [OF less.prems(2,3)] by (subst scale_loop.simps) (simp add: trunc_neg del: fmul.simps trunc.simps)
    then show ?thesis using z by (intro exI [of _ "Suc z"]) (simp add: mult.assoc)
  next
    case False
    then have "f * 10 div 2 ^ k \<noteq> 0" by (simp add: div_eq_0_iff)
    then have "scale_loop (f, - int k) r2 = Some ((f, - int k), r2)"
      using fmul_ten [OF less.prems(2,3)] by (subst scale_loop.simps) (simp add: trunc_neg del: fmul.simps trunc.simps)
    then show ?thesis using less.prems False by (intro exI [of _ 0]) simp
  qed
qed

section \<open>Rounding the last digit\<close>

lemma zero_char [simp]: "char_of (48 :: nat) = CHR ''0''"
  by (simp add: char_of_def bit_0)

lemma after_9_digit [simp]: "d < 10 \<Longrightarrow> \<not> after_9 (char_of (48 + d))" for d :: nat
  by (simp add: after_9_def)

lemma digs_chars: "c \<in> set (digs n) \<Longrightarrow> \<not> after_9 c \<and> c \<noteq> nul"
proof (induction n rule: less_induct)
  case (less n)
  then have n: "0 < n" by (cases n) simp_all
  then have "c \<in> set (digs (n div 10)) \<or> c = char_of (48 + n mod 10)" using less.prems digs_step [OF n] by auto
  moreover have "char_of (48 + n mod 10) \<noteq> nul"
  proof
    assume "char_of (48 + n mod 10) = nul"
    then have "of_char (char_of (48 + n mod 10) :: char) = (of_char nul :: nat)" by simp
    then show False by (simp add: nul_def)
  qed
  ultimately show ?case using less.IH [of "n div 10"] n by auto
qed

lemma add_char_next: "d < 10 \<Longrightarrow> add_char 1 (char_of (48 + d)) = char_of (48 + Suc d)" for d :: nat
  by (simp add: add_char_def)

text \<open>The carry turns the digits of \<open>a\<close> before it into those of \<open>a + 1\<close>; they may be one more.\<close>

lemma carry_loop_text:
  assumes "after_9 c"
  shows "carry_loop eflag p (length (digs a)) (digs a @ c # t) dp =
    (if length (digs (a + 1)) = length (digs a) then (p, digs (a + 1) @ CHR ''0'' # t, dp)
     else if eflag then (p, digs (a + 1) @ t, dp + 1)
     else (p + 1, (if 0 < p then (digs (a + 1) @ t)[p := CHR ''0''] else digs (a + 1) @ t), dp + 1))"
  using assms
proof (induction a arbitrary: c t rule: less_induct)
  case (less a)
  show ?case
  proof (cases "a = 0")
    case True
    have "digs 1 = ''1''" by (simp add: digs_def decimal.simps char_of_def bit_0)
    then show ?thesis using True less.prems by (subst carry_loop.simps) simp
  next
    case False
    let ?q = "a div 10" and ?r = "a mod 10"
    have d: "digs a = digs ?q @ [char_of (48 + ?r)]" using False by (intro digs_step) simp
    have "carry_loop eflag p (length (digs a)) (digs a @ c # t) dp =
        carry_loop eflag p (length (digs ?q)) (digs ?q @ char_of (48 + Suc ?r) # CHR ''0'' # t) dp"
      using less.prems add_char_next [of ?r]
      by (subst carry_loop.simps) (simp add: d nth_append list_update_append)
    also have "\<dots> = (if length (digs (a + 1)) = length (digs a) then (p, digs (a + 1) @ CHR ''0'' # t, dp)
       else if eflag then (p, digs (a + 1) @ t, dp + 1)
       else (p + 1, (if 0 < p then (digs (a + 1) @ t)[p := CHR ''0''] else digs (a + 1) @ t), dp + 1))"
    proof (cases "?r = 9")
      case True
      have "?q * 10 + ?r + 1 = (?q + 1) * 10 + 0" unfolding True by simp
      then have a1: "a + 1 = (?q + 1) * 10 + 0" by (simp only: div_mult_mod_eq)
      have d1: "digs (a + 1) = digs (?q + 1) @ [CHR ''0'']"
        unfolding a1 using digs_snoc [of "?q + 1" 0] by simp
      have "after_9 (char_of (48 + Suc ?r))" using True by (simp add: after_9_def)
      from less.IH [OF _ this, of ?q "CHR ''0'' # t"] show ?thesis using False d d1 by simp
    next
      case False
      then have r: "Suc ?r < 10" using mod_less_divisor [of 10 a] by linarith
      have "?q * 10 + ?r + 1 = ?q * 10 + Suc ?r" by simp
      then have a1: "a + 1 = ?q * 10 + Suc ?r" by (simp only: div_mult_mod_eq)
      have "digs (a + 1) = digs ?q @ [char_of (48 + Suc ?r)]" unfolding a1 using r by (intro digs_snoc) simp_all
      then show ?thesis using r d after_9_digit [OF r] by (subst carry_loop.simps) simp
    qed
    finally show ?thesis .
  qed
qed

text \<open>Half up: five is added to the digit after the last, whose carry is the rounding.\<close>

definition half_up :: "nat \<Rightarrow> nat" where
  "half_up t = (t + 5) div 10"

text \<open>The characters before the terminating zero.\<close>

definition cstring :: "string \<Rightarrow> string" where
  "cstring buf = takeWhile (\<lambda>c. c \<noteq> nul) buf"

lemma cstring_digs: "cstring (digs n @ nul # t) = digs n"
  using digs_chars [of _ n] by (simp add: cstring_def takeWhile_append2)

lemma digs_step_length: "0 < n \<Longrightarrow> length (digs n) = Suc (length (digs (n div 10)))"
  by (subst digs_step) simp_all

lemma digs_next_length:
  assumes "0 < a" and "(a + 1) mod 10 \<noteq> 0"
  shows "length (digs (a + 1)) = length (digs a)"
proof -
  have q: "(a + 1) div 10 = a div 10" using assms(2) by (simp add: div_Suc)
  have "0 < a + 1" by simp
  from digs_step_length [OF this] digs_step_length [OF assms(1)] show ?thesis unfolding q by (rule trans [OF _ sym])
qed

lemma digs_next_le: "length (digs (a + 1)) \<le> length (digs a) + 1"
proof (induction a rule: less_induct)
  case (less a)
  consider "a = 0" | "0 < a" "(a + 1) mod 10 = 0" | "0 < a" "(a + 1) mod 10 \<noteq> 0" by blast
  then show ?case
  proof cases
    case 1
    then show ?thesis using digs_length [of 1 1] by simp
  next
    case 2
    have q: "(a + 1) div 10 = a div 10 + 1" using 2(2) by (simp add: div_Suc)
    have "0 < a + 1" by simp
    note l = digs_step_length [OF this, unfolded q] digs_step_length [OF 2(1)]
    have "a div 10 < a" using 2(1) by simp
    from less.IH [OF this] show ?thesis unfolding l by linarith
  next
    case 3
    then show ?thesis using digs_next_length by simp
  qed
qed

lemma round_text:
  assumes t: "take (p + 1) buf = digs t" and len: "length (digs t) = p + 1" and buf: "length buf = 80" and p: "p < 79"
  shows "\<exists>buf' p'. carry_loop False p p (buf[p := add_char 5 (buf ! p)]) dp = (p', buf', dp + int p' - int p)
    \<and> p' = length (digs (half_up t)) \<and> p' < 80 \<and> cstring (buf'[p' := nul]) = digs (half_up t)"
proof -
  define q d where q: "q = t div 10" and d: "d = t mod 10"
  have d10: "d < 10" by (simp add: d)
  have "0 < t" using len by (cases "t = 0") simp_all
  then have dt: "digs t = digs q @ [char_of (48 + d)]" unfolding q d by (rule digs_step)
  have lq: "length (digs q) = p" using len dt by simp
  define t' where t': "t' = drop (p + 1) buf"
  have "buf = take (p + 1) buf @ t'" by (simp add: t')
  then have b: "buf = digs q @ char_of (48 + d) # t'" unfolding t dt by simp
  have ne: "t' \<noteq> []" using buf p by (simp add: t')
  have five: "buf[p := add_char 5 (buf ! p)] = digs q @ char_of (53 + d) # t'"
    using d10 by (simp add: b nth_append list_update_append lq add_char_def)
  have tq: "t = q * 10 + d" by (simp only: q d div_mult_mod_eq)
  show ?thesis
  proof (cases "d < 5")
    case True
    then have h: "half_up t = q" by (simp add: half_up_def tq)
    have "\<not> after_9 (char_of (53 + d))" using True by (simp add: after_9_def)
    then have "carry_loop False p p (digs q @ char_of (53 + d) # t') dp = (p, digs q @ char_of (53 + d) # t', dp)"
      by (subst carry_loop.simps) (simp add: nth_append lq)
    then show ?thesis unfolding five using p lq h cstring_digs [of q t'] by (simp add: list_update_append)
  next
    case False
    then have h: "half_up t = q + 1" using d10 by (simp add: half_up_def tq)
    have "after_9 (char_of (53 + d))" using False d10 by (simp add: after_9_def)
    note carry = carry_loop_text [OF this, where eflag = False, of p q t' dp, unfolded lq if_False]
    show ?thesis
    proof (cases "length (digs (q + 1)) = p")
      case True
      have "cstring ((digs (q + 1) @ CHR ''0'' # t')[p := nul]) = digs (q + 1)"
        using True cstring_digs [of "q + 1" t'] by (simp add: list_update_append)
      then show ?thesis unfolding five carry h using True p by simp
    next
      case False
      then have l: "length (digs (q + 1)) = p + 1" using digs_next_le [of q] digs_length_mono [of q "q + 1"] lq by simp
      have same: "(if 0 < p then (digs (q + 1) @ t')[p := CHR ''0''] else digs (q + 1) @ t') = digs (q + 1) @ t'"
      proof (cases "0 < p")
        case True
        then have q0: "0 < q" using lq by (cases "q = 0") simp_all
        have "(q + 1) mod 10 = 0" using digs_next_length [OF q0] l lq by fastforce
        then have "digs (q + 1) = digs ((q + 1) div 10) @ [CHR ''0'']" using digs_step [of "q + 1"] by simp
        moreover from this have "length (digs ((q + 1) div 10)) = p" using l by simp
        ultimately show ?thesis by (simp add: list_update_append)
      qed simp
      obtain c t'' where "t' = c # t''" using ne by (cases t') simp_all
      then have "cstring ((digs (q + 1) @ t')[p + 1 := nul]) = digs (q + 1)"
        using l cstring_digs [of "q + 1" t''] by (simp add: list_update_append)
      then show ?thesis unfolding five carry h same using False l p by simp
    qed
  qed
qed

section \<open>The digits of a number\<close>

text \<open>
  \<open>M / 2 ^ k\<close> with \<open>nd\<close> decimal places, rounded half up, is \<open>half_up (M * 10 ^ (nd + 1) div 2 ^ k)\<close> units of the
  last place.
\<close>

definition scaled :: "nat \<Rightarrow> nat \<Rightarrow> nat \<Rightarrow> nat" where
  "scaled M k nd = half_up (M * 10 ^ (nd + 1) div 2 ^ k)"

lemma scaled_rounds: "scaled M k nd = (2 * M * 10 ^ nd + 2 ^ k) div 2 ^ (k + 1)"
proof -
  let ?X = "M * 10 ^ (nd + 1)" and ?D = "(2::nat) ^ k"
  have "scaled M k nd = (?X + 5 * ?D) div ?D div 10" by (simp add: scaled_def half_up_def)
  also have "\<dots> = (?X + 5 * ?D) div (?D * 10)" by (simp add: div_mult2_eq)
  also have "?X + 5 * ?D = 5 * (2 * M * 10 ^ nd + ?D)" by simp
  also have "?D * 10 = 5 * 2 ^ (k + 1)" by simp
  also have "5 * (2 * M * 10 ^ nd + ?D) div (5 * 2 ^ (k + 1)) = (2 * M * 10 ^ nd + ?D) div 2 ^ (k + 1)"
    by (rule div_mult_mult1) simp
  finally show ?thesis .
qed

lemma round_off_text:
  assumes "take (p + 1) buf = digs t" and "length (digs t) = p + 1" and "length buf = 80" and "p < 79"
  shows "\<exists>buf' decpt. round_off False p buf dp s = Some (buf', decpt, s)
    \<and> cstring buf' = digs (half_up t) \<and> decpt = dp + int (length (digs (half_up t))) - int p"
proof -
  obtain buf' p' where "carry_loop False p p (buf[p := add_char 5 (buf ! p)]) dp = (p', buf', dp + int p' - int p)"
    and "p' = length (digs (half_up t))" "p' < 80" "cstring (buf'[p' := nul]) = digs (half_up t)"
    using round_text [OF assms, of dp] by blast
  then show ?thesis by (simp add: round_off_def)
qed

text \<open>The digits after \<open>p\<close>, and the rounding, of \<open>a + f / 2 ^ k\<close>, where the buffer has the digits of \<open>a\<close>.\<close>

lemma last_digits_text:
  assumes f: "f < 2 ^ k" "k \<le> 49" and buf: "take p buf = digs a" "length (digs a) = p" "length buf = 80"
    and lead: "0 < a \<or> 2 ^ k \<le> f * 10" and j: "int (p + j) = nd + r2" "p + j < 79"
  shows "\<exists>buf' decpt. last_digits False nd s (p, buf, (f, - int k), r2) = Some (buf', decpt, s)
    \<and> (let t = a * 10 ^ (j + 1) + f * 10 ^ (j + 1) div 2 ^ k
       in cstring buf' = digs (half_up t) \<and> decpt = int (length (digs (half_up t))) - nd)"
proof -
  let ?t = "a * 10 ^ (j + 1) + f * 10 ^ (j + 1) div 2 ^ k"
  obtain b where d: "frac_digits p (int (p + (j + 1)) - 1) (f, - int k) buf = (p + (j + 1), b)" "length b = 80"
    "take (p + (j + 1)) b = digs ?t" "length (digs ?t) = p + (j + 1)"
    using frac_digits_text [OF f buf(1,2) lead buf(3), of "j + 1"] j(2) by auto
  obtain b' decpt where r: "round_off False (p + j) b r2 s = Some (b', decpt, s)" "cstring b' = digs (half_up ?t)"
    "decpt = r2 + int (length (digs (half_up ?t))) - int (p + j)"
    using round_off_text [of "p + j" b ?t r2 s] d(2-4) j(2) by auto
  have e: "int (p + (j + 1)) - 1 = nd + r2" "nat (nd + r2) = p + j" "\<not> nd + r2 < 0" "\<not> nd + r2 \<ge> int 80"
    using j by linarith+
  have "last_digits False nd s (p, buf, (f, - int k), r2) = Some (b', decpt, s)"
    using e(3,4) d(1) r(1) unfolding last_digits_def prod.case Let_def e(1,2) by (simp add: e(2))
  then show ?thesis using r(2,3) j(1) by (auto simp: Let_def)
qed

lemma fcvt_text:
  assumes M: "0 < M" and k: "k \<le> 49" and n50: "M div 2 ^ k < 2 ^ 50" and buf: "length buf = 80"
    and room: "length (digs (M div 2 ^ k)) + nd < 79"
  shows "\<exists>buf' decpt. fcvtbuf \<lparr>negative = s, mag = (M, - int k)\<rparr> (int nd) buf = Some (buf', decpt, s)
    \<and> cstring buf' = digs (scaled M k nd) \<and> (0 < scaled M k nd \<longrightarrow> decpt = int (length (digs (scaled M k nd))) - int nd)"
proof -
  define n f where n: "n = M div 2 ^ k" and f: "f = M mod 2 ^ k"
  have Mnf: "M = n * 2 ^ k + f" by (simp only: n f div_mult_mod_eq)
  have fk: "f < 2 ^ k" by (simp add: f)
  have T: "n * 10 ^ (nd + 1) + f * 10 ^ (nd + 1) div 2 ^ k = M * 10 ^ (nd + 1) div 2 ^ k"
  proof -
    have "M * 10 ^ (nd + 1) = f * 10 ^ (nd + 1) + n * 10 ^ (nd + 1) * 2 ^ k" unfolding Mnf by (simp add: algebra_simps)
    then show ?thesis by simp
  qed
  have cvt: "fcvtbuf \<lparr>negative = s, mag = (M, - int k)\<rparr> (int nd) buf =
      Option.bind (first_digits (f, - int k) (n, 0) buf) (last_digits False (int nd) s)"
    using room M unfolding fcvtbuf_def cvt_def by (simp add: modf_neg is_zero_def n f del: modf.simps)
  show ?thesis
  proof (cases "n = 0")
    case False
    let ?L = "length (digs n)"
    have L: "?L + nd < 79" "?L \<le> 80" using room by (simp_all add: n)
    define b1 where b1: "b1 = take (80 - ?L) buf @ digs n @ drop 80 buf"
    have i: "int_digits 80 (n, 0) buf 0 = Some (80 - ?L, b1, int ?L)"
      using int_digits_text [of n 80 buf 0] n50 L buf by (simp add: b1 n)
    have "length b1 = 80" using buf L by (simp add: b1)
    then obtain b2 where c: "copy_down 0 (80 - ?L) b1 = (?L, b2)" and b2: "length b2 = 80" "take ?L b2 = digs n"
      using copy_down_text [of 0 "80 - ?L" b1] L buf by (auto simp: b1)
    have "first_digits (f, - int k) (n, 0) buf = Some (?L, b2, (f, - int k), int ?L)"
      using False i c by (simp add: first_digits_def is_zero_def)
    moreover obtain b decpt where "last_digits False (int nd) s (?L, b2, (f, - int k), int ?L) = Some (b, decpt, s)"
      "cstring b = digs (scaled M k nd)" "decpt = int (length (digs (scaled M k nd))) - int nd"
      using last_digits_text [OF fk k b2(2) refl b2(1), of nd "int nd" "int ?L" s] False L unfolding T scaled_def by (auto simp: Let_def)
    ultimately show ?thesis unfolding cvt by simp
  next
    case True
    then have f0: "0 < f" "M = f" using M Mnf by simp_all
    obtain z where z: "scale_loop (f, - int k) 0 = Some ((f * 10 ^ z, - int k), - int z)" "f * 10 ^ z < 2 ^ k" "2 ^ k \<le> f * 10 ^ z * 10"
      using scale_loop_stops [OF f0(1) fk k, of 0] by auto
    have first: "first_digits (f, - int k) (n, 0) buf = Some (0, buf, (f * 10 ^ z, - int k), - int z)"
      using True f0 z(1) by (simp add: first_digits_def is_zero_def)
    show ?thesis
    proof (cases "nd < z")
      case True
      then have "f * 10 ^ (nd + 1) \<le> f * 10 ^ z" by (intro mult_le_mono2 power_increasing) simp_all
      then have "f * 10 ^ (nd + 1) div 2 ^ k = 0" by (intro div_less le_less_trans [OF _ z(2)])
      then have "scaled M k nd = 0" unfolding scaled_def half_up_def f0(2) by simp
      moreover have "last_digits False (int nd) s (0, buf, (f * 10 ^ z, - int k), - int z) = Some (buf[0 := nul], - int z, s)"
        using True by (simp add: last_digits_def)
      moreover have "cstring (buf[0 := nul]) = []" using buf by (cases buf) (simp_all add: cstring_def)
      ultimately show ?thesis unfolding cvt first by simp
    next
      case False
      then have j: "int (0 + (nd - z)) = int nd + - int z" by (simp add: of_nat_diff)
      have "f * 10 ^ z * 10 ^ (nd - z + 1) = M * 10 ^ (nd + 1)"
        using False by (simp add: f0 mult.assoc flip: power_add)
      then have t: "0 * 10 ^ (nd - z + 1) + f * 10 ^ z * 10 ^ (nd - z + 1) div 2 ^ k = M * 10 ^ (nd + 1) div 2 ^ k"
        by (simp only: mult_zero_left add_0_left)
      obtain b decpt where "last_digits False (int nd) s (0, buf, (f * 10 ^ z, - int k), - int z) = Some (b, decpt, s)"
        "cstring b = digs (scaled M k nd)" "decpt = int (length (digs (scaled M k nd))) - int nd"
        using last_digits_text [OF z(2) k, of 0 buf 0 "nd - z" "int nd" "- int z" s] z(3) j buf room unfolding t scaled_def
        by (auto simp: Let_def)
      then show ?thesis unfolding cvt first by simp
    qed
  qed
qed

text \<open>Zero has only zeros, one for each place.\<close>

lemma frac_digits_zero:
  assumes "length buf = 80" and "p + j \<le> 80"
  shows "\<exists>buf'. frac_digits p (int (p + j) - 1) (0, e) buf = (p + j, buf') \<and> length buf' = 80
    \<and> take (p + j) buf' = take p buf @ replicate j CHR ''0''"
  using assms
proof (induction j arbitrary: p e buf)
  case 0
  then show ?case by (subst frac_digits.simps) simp
next
  case (Suc j)
  have m: "\<exists>e'. modf (fmul (0, e) ten) = ((0, e'), (0, 0)) \<or> modf (fmul (0, e) ten) = ((0, e'), (0, e))"
    by (auto simp: rnd_val)
  obtain e' x where x: "modf (fmul (0, e) ten) = ((0, e'), (0, x))" using m by blast
  have "frac_digits p (int (p + Suc j) - 1) (0, e) buf = frac_digits (p + 1) (int (p + 1 + j) - 1) (0, e') (buf[p := CHR ''0''])"
    using Suc.prems x by (subst frac_digits.simps) (simp add: add_char_digit del: modf.simps fmul.simps)
  moreover have "take (p + 1) (buf[p := CHR ''0'']) = take p buf @ [CHR ''0'']"
    using Suc.prems by (simp add: take_Suc_conv_app_nth)
  ultimately show ?case using Suc.IH [of "buf[p := CHR ''0'']" "p + 1" e'] Suc.prems by auto
qed

lemma fcvt_zero:
  assumes buf: "length buf = 80" and nd: "nd < 79"
  shows "\<exists>buf'. fcvtbuf \<lparr>negative = s, mag = (0, - int k)\<rparr> (int nd) buf = Some (buf', 0, False)
    \<and> cstring buf' = replicate nd CHR ''0''"
proof -
  have m: "modf (0, - int k) = ((0, - int k), (0, 0))" by (simp add: modf_neg del: modf.simps)
  obtain b where b: "frac_digits 0 (int (0 + (nd + 1)) - 1) (0, - int k) buf = (0 + (nd + 1), b)" "length b = 80"
    "take (0 + (nd + 1)) b = take 0 buf @ replicate (nd + 1) CHR ''0''"
    using frac_digits_zero [OF buf, of 0 "nd + 1" "- int k"] nd by auto
  define t where t: "t = drop (nd + 1) b"
  have "b = take (nd + 1) b @ t" by (simp add: t)
  moreover have "replicate (nd + 1) CHR ''0'' = replicate nd CHR ''0'' @ [CHR ''0'']" by (simp add: replicate_append_same)
  ultimately have bt: "b = replicate nd CHR ''0'' @ CHR ''0'' # t" using b(3) by simp
  have five: "add_char 5 CHR ''0'' = CHR ''5''" "\<not> after_9 CHR ''5''" by (simp_all add: add_char_def after_9_def char_of_def bit_0)
  have b5: "b[nd := add_char 5 (b ! nd)] = replicate nd CHR ''0'' @ CHR ''5'' # t"
    by (simp add: bt nth_append list_update_append five)
  have "carry_loop False nd nd (replicate nd CHR ''0'' @ CHR ''5'' # t) 0 = (nd, replicate nd CHR ''0'' @ CHR ''5'' # t, 0)"
    by (subst carry_loop.simps) (simp add: nth_append five)
  then have "round_off False nd b 0 False = Some (replicate nd CHR ''0'' @ nul # t, 0, False)"
    using nd unfolding round_off_def b5 Let_def by (simp add: list_update_append)
  then have "fcvtbuf \<lparr>negative = s, mag = (0, - int k)\<rparr> (int nd) buf = Some (replicate nd CHR ''0'' @ nul # t, 0, False)"
    using nd b(1) by (simp add: fcvtbuf_def cvt_def m is_zero_def first_digits_def last_digits_def del: modf.simps)
  moreover have "cstring (replicate i CHR ''0'' @ nul # t) = replicate i CHR ''0''" for i
    by (induction i) (simp_all add: cstring_def nul_def)
  ultimately show ?thesis by blast
qed

end
