(* ===== verification/PrintFloat.thy ===== *)
theory PrintFloat
  imports CvtExact
begin

text \<open>
  The floating point conversions of coremark/multiplix/ee_printf.c, compiled when \<open>HAS_FLOAT\<close> is set.

  \<open>tmp\<close>, the buffer of 80 characters of \<open>flt\<close>, holds a C string; \<open>parse_float\<close> writes it from left to right,
  so it is the list of the characters written, and \<open>None\<close> if it does not fit. The buffer that \<open>ecvtbuf\<close> and \<open>fcvtbuf\<close> fill
  is a parameter, for its contents before.
\<close>

section \<open>The code\<close>

definition is_exp :: "char \<Rightarrow> bool" where
  "is_exp c \<longleftrightarrow> c = CHR ''e'' \<or> c = CHR ''E''"

text \<open>\<open>ee_bufcpy\<close>; \<open>None\<close> when it leaves the buffer, as it does for a negative count, which it never reaches.\<close>

definition ee_bufcpy :: "string \<Rightarrow> int \<Rightarrow> string option" where
  "ee_bufcpy ps cnt = (if 0 \<le> cnt \<and> cnt \<le> int (length ps) then Some (take (nat cnt) ps) else None)"

text \<open>The exponent: its sign and three digits.\<close>

definition exp_text :: "int \<Rightarrow> string" where
  "exp_text e =
     (let sign = (if e < 0 then CHR ''-'' else CHR ''+''); e = nat \<bar>e\<bar>
      in [sign, add_char (e div 10 div 10 mod 10) CHR ''0'', add_char (e div 10 mod 10) CHR ''0'', add_char (e mod 10) CHR ''0''])"

definition format_e :: "double \<Rightarrow> int \<Rightarrow> bool \<Rightarrow> string \<Rightarrow> string option" where
  "format_e value precision capexp cvtbuf = do {
     (ds, decpt, sign) \<leftarrow> ecvtbuf value (precision + 1) cvtbuf;
     copied \<leftarrow> ee_bufcpy (tl ds) precision;
     let e = (if decpt = 0 then if is_zero (mag value) then 0 else - 1 else decpt - 1);
     Some ((if sign then ''-'' else '''') @ [hd ds] @ (if precision > 0 then ''.'' else '''') @ copied
       @ [if capexp then CHR ''E'' else CHR ''e''] @ exp_text e)
   }"

text \<open>The last loop over the digits of \<open>%f\<close>.\<close>

fun point_at :: "int \<Rightarrow> int \<Rightarrow> string \<Rightarrow> string" where
  "point_at pos decpt [] = []"
| "point_at pos decpt (c # s) = (if pos = decpt then [CHR ''.''] else []) @ c # point_at (pos + 1) decpt s"

definition format_f :: "double \<Rightarrow> int \<Rightarrow> string \<Rightarrow> string option" where
  "format_f value precision cvtbuf = do {
     (buf, decpt, sign) \<leftarrow> fcvtbuf value precision cvtbuf;
     let ds = cstring buf;
     Some ((if sign then ''-'' else '''') @
       (if ds \<noteq> ''''
        then if decpt \<le> 0 then ''0.'' @ replicate (nat (- decpt)) CHR ''0'' @ ds
             else point_at 0 decpt ds
        else ''0'' @ (if precision > 0 then ''.'' @ replicate (nat precision) CHR ''0'' else '''')))
   }"

text \<open>\<open>parse_float\<close> into a buffer of 80 characters.\<close>

definition parse_float :: "double \<Rightarrow> char \<Rightarrow> int \<Rightarrow> string \<Rightarrow> string option" where
  "parse_float value fmt precision cvtbuf =
     (let capexp = (fmt = CHR ''G'' \<or> fmt = CHR ''E'');
          fmt = (if fmt = CHR ''G'' then CHR ''g'' else if fmt = CHR ''E'' then CHR ''e'' else fmt) in
      do {
        (fmt, precision, cvtbuf) \<leftarrow>
          (if fmt = CHR ''g''
           then do {
             (cvtbuf, decpt, _) \<leftarrow> ecvtbuf value precision cvtbuf;
             let magnitude = decpt - 1;
             Some (if magnitude < - 4 \<or> magnitude > precision - 1 then (CHR ''e'', precision - 1, cvtbuf)
                   else (CHR ''f'', precision - decpt, cvtbuf))
           }
           else Some (fmt, precision, cvtbuf));
        out \<leftarrow>
          (if fmt = CHR ''e'' then format_e value precision capexp cvtbuf
           else if fmt = CHR ''f'' then format_f value precision cvtbuf
           else Some '''');
        if length out < 80 then Some (cstring (out @ [nul])) else None
      })"

text \<open>
  \<open>decimal_point\<close>: at an exponent the loop moves every character but the first, which the point
  overwrites.
\<close>

fun decimal_point :: "string \<Rightarrow> string" where
  "decimal_point [] = ''.''"
| "decimal_point (c # s) =
     (if c = CHR ''.'' then c # s
      else if is_exp c then CHR ''.'' # (case s of [] \<Rightarrow> [] | d # _ \<Rightarrow> d # s)
      else c # decimal_point s)"

text \<open>
  \<open>cropzeros\<close>: from the point on, the zeros at the end of the digits go, with a point that has none left. The
  last loop writes zeros up to \<open>stop\<close>, so what follows the digits goes too.
\<close>

definition cropzeros :: "string \<Rightarrow> string" where
  "cropzeros buffer =
     (let pre = takeWhile (\<lambda>c. c \<noteq> CHR ''.'') buffer; post = drop (length pre) buffer
      in if post = [] then buffer
         else
           let places = takeWhile (\<lambda>c. \<not> is_exp c) (tl post);
               kept = rev (dropWhile (\<lambda>c. c = CHR ''0'') (rev (CHR ''.'' # places)))
           in pre @ (if last kept = CHR ''.'' then butlast kept else kept))"

definition flt :: "double \<Rightarrow> int \<Rightarrow> int \<Rightarrow> char \<Rightarrow> flags \<Rightarrow> string \<Rightarrow> string option" where
  "flt num sz precision fmt ty cvtbuf =
     (let ty = (if LEFT ty then ty\<lparr>ZEROPAD := False\<rparr> else ty);
          c = (if ZEROPAD ty then CHR ''0'' else CHR '' '');
          (sign, num, sz) =
            (if SIGN ty
             then if negative num \<and> \<not> is_zero (mag num) then (''-'', num\<lparr>negative := False\<rparr>, sz - 1)
                  else if PLUS ty then (''+'', num, sz - 1)
                  else if SPACE ty then ('' '', num, sz - 1)
                  else ('''', num, sz)
             else ('''', num, sz));
          precision = (if precision < 0 then 6 else precision)
      in do {
        tmp \<leftarrow> parse_float num fmt precision cvtbuf;
        tmp \<leftarrow> (let t = (if HEX_PREP ty \<and> precision = 0 then decimal_point tmp else tmp) in
          if length t < 80 then Some t else None);
        let tmp = (if fmt = CHR ''g'' \<and> \<not> HEX_PREP ty then cropzeros tmp else tmp);
        let n = strnlen tmp 256;
        let sz = sz - int n;
        let (pad1, sz) = (if \<not> (ZEROPAD ty \<or> LEFT ty) then pad CHR '' '' sz else ('''', sz));
        let (pad2, sz) = (if \<not> LEFT ty then pad c sz else ('''', sz));
        let (pad3, sz) = pad CHR '' '' sz;
        Some (pad1 @ sign @ pad2 @ take n tmp @ pad3)
      })"

text \<open>The case \<open>'f'\<close> of the \<open>switch\<close> in \<open>ee_vsprintf\<close>, the only call of \<open>flt\<close>.\<close>

definition convert_f :: "int \<Rightarrow> int \<Rightarrow> flags \<Rightarrow> double \<Rightarrow> string \<Rightarrow> string option" where
  "convert_f width precision fl num cvtbuf = flt num width precision CHR ''f'' (fl\<lparr>SIGN := True\<rparr>) cvtbuf"

section \<open>Fixed point\<close>

text \<open>\<open>R\<close> units of the last of \<open>nd\<close> places.\<close>

definition fixed_point :: "nat \<Rightarrow> nat \<Rightarrow> string" where
  "fixed_point nd R = decimal (R div 10 ^ nd) @ (if nd = 0 then '''' else CHR ''.'' # map ((!) digits) (fixed_digits 10 nd R))"

lemma point_at_past: "decpt < pos \<Longrightarrow> point_at pos decpt s = s"
  by (induction s arbitrary: pos) simp_all

lemma point_at_split:
  "decpt = pos + int (length s) \<Longrightarrow> point_at pos decpt (s @ t) = s @ (if t = [] then [] else CHR ''.'' # t)"
proof (induction s arbitrary: pos)
  case Nil
  then show ?case by (cases t) (simp_all add: point_at_past)
qed simp

text \<open>All digits, and the low ones.\<close>

lemma digs_digit_list: "digs n = map ((!) digits) (rev (digit_list 10 n))"
  using decimal_digits [of n] by (simp add: digs_def rev_map digit_list.simps)

lemma length_fixed_digits [simp]: "length (fixed_digits base k n) = k"
  by (simp add: fixed_digits_def)

lemma fixed_digits_empty [simp]: "fixed_digits base k n = [] \<longleftrightarrow> k = 0"
  by (simp flip: length_0_conv)

lemma digs_padded: "n < 10 ^ k \<Longrightarrow> replicate (k - length (digs n)) CHR ''0'' @ digs n = map ((!) digits) (fixed_digits 10 k n)"
proof -
  assume n: "n < 10 ^ k"
  have zero: "CHR ''0'' = digits ! 0" by (simp add: digits_def)
  show ?thesis unfolding zero digs_digit_list using digit_list_padded [of 10 n k] n by (simp flip: map_replicate map_append)
qed

lemma digs_split: "0 < n div 10 ^ k \<Longrightarrow> digs n = digs (n div 10 ^ k) @ map ((!) digits) (fixed_digits 10 k n)"
proof (induction k arbitrary: n)
  case 0
  then show ?case by (simp add: fixed_digits_def)
next
  case (Suc k)
  then have n: "0 < n" and q: "n div 10 div 10 ^ k = n div 10 ^ Suc k" by (auto simp: div_mult2_eq intro: gr0I)
  then have "digs (n div 10) = digs (n div 10 ^ Suc k) @ map ((!) digits) (fixed_digits 10 k (n div 10))"
    using Suc.IH [of "n div 10"] Suc.prems by simp
  then show ?case using digs_step [OF n] by (simp add: fixed_digits_Suc digit_char)
qed

lemma format_f_text:
  assumes k: "k \<le> 49" and n50: "M div 2 ^ k < 2 ^ 50" and buf: "length buf = 80"
    and room: "length (digs (M div 2 ^ k)) + nd < 79"
  shows "format_f \<lparr>negative = s, mag = (M, - int k)\<rparr> (int nd) buf =
    Some ((if s \<and> 0 < M then ''-'' else '''') @ fixed_point nd (scaled M k nd))"
proof (cases "M = 0")
  case True
  obtain b where b: "fcvtbuf \<lparr>negative = s, mag = (0, - int k)\<rparr> (int nd) buf = Some (b, 0, False)" "cstring b = replicate nd CHR ''0''"
    using fcvt_zero [OF buf, of nd s k] room by auto
  have z: "map ((!) digits) (fixed_digits 10 nd 0) = replicate nd CHR ''0''" using digs_padded [of 0 nd] by simp
  have "scaled 0 k nd = 0" by (simp add: scaled_def half_up_def)
  moreover have "decimal 0 = ''0''" by (simp add: decimal.simps [of 0])
  ultimately show ?thesis using True b z by (cases nd) (simp_all add: format_f_def fixed_point_def)
next
  case False
  let ?R = "scaled M k nd"
  obtain b decpt where b: "fcvtbuf \<lparr>negative = s, mag = (M, - int k)\<rparr> (int nd) buf = Some (b, decpt, s)" "cstring b = digs ?R"
    "0 < ?R \<longrightarrow> decpt = int (length (digs ?R)) - int nd"
    using fcvt_text [OF _ k n50 buf room, of s] False by auto
  have d0: "decimal 0 = ''0''" by (simp add: decimal.simps [of 0])
  consider "?R = 0" | "0 < ?R" "?R < 10 ^ nd" | "10 ^ nd \<le> ?R" "0 < ?R" by linarith
  then show ?thesis
  proof cases
    case 1
    have z: "map ((!) digits) (fixed_digits 10 nd 0) = replicate nd CHR ''0''" using digs_padded [of 0 nd] by simp
    show ?thesis using b 1 False z d0 by (simp add: format_f_def fixed_point_def)
  next
    case 2
    have "length (digs ?R) \<le> nd" using digs_length [OF 2(2)] .
    moreover have ne: "digs ?R \<noteq> []" using digs_step [OF 2(1)] by simp
    moreover have "0 < nd" using calculation by (cases nd) simp_all
    ultimately show ?thesis
      using b 2 False d0 digs_padded [OF 2(2)] by (auto simp: format_f_def fixed_point_def nat_diff_distrib')
  next
    case 3
    have q: "0 < ?R div 10 ^ nd" using 3(1) by (simp add: div_greater_zero_iff)
    note sp = digs_split [OF q]
    have dp: "decpt = int (length (digs (?R div 10 ^ nd)))" using b(3) 3(2) arg_cong [OF sp, of length] by simp
    have ne: "digs (?R div 10 ^ nd) \<noteq> []" using digs_step [OF q] by simp
    have dd: "digs (?R div 10 ^ nd) = decimal (?R div 10 ^ nd)" using q by (simp add: digs_def)
    have "point_at 0 decpt (digs ?R) = digs (?R div 10 ^ nd) @ (if nd = 0 then [] else CHR ''.'' # map ((!) digits) (fixed_digits 10 nd ?R))"
      using point_at_split [of decpt 0 "digs (?R div 10 ^ nd)" "map ((!) digits) (fixed_digits 10 nd ?R)"] dp sp by simp
    moreover have "digs ?R \<noteq> []" using ne sp by simp
    ultimately show ?thesis using b(1,2) False ne dp by (simp add: format_f_def fixed_point_def dd)
  qed
qed

lemma decimal_length: "n < 10 ^ k \<Longrightarrow> length (decimal n) \<le> max 1 k"
  using digs_length [of n k] by (cases "n = 0") (simp_all add: digs_def decimal.simps [of 0])

lemma fixed_point_length:
  assumes "M div 2 ^ k < 2 ^ 50"
  shows "length (fixed_point nd (scaled M k nd)) \<le> 17 + nd"
proof -
  define n where n: "n = M div 2 ^ k"
  have "M < (n + 1) * 2 ^ k" unfolding n using dividend_less_div_times [of "2 ^ k" M] by simp
  then have "M * 10 ^ (nd + 1) < (n + 1) * 2 ^ k * 10 ^ (nd + 1)" by (rule mult_strict_right_mono) simp
  then have "M * 10 ^ (nd + 1) < (n + 1) * 10 ^ (nd + 1) * 2 ^ k" by (simp only: mult.assoc mult.commute mult.left_commute)
  then have "M * 10 ^ (nd + 1) div 2 ^ k < (n + 1) * 10 ^ (nd + 1)" by (rule less_mult_imp_div_less)
  then have "M * 10 ^ (nd + 1) div 2 ^ k + 5 < 10 * ((n + 1) * 10 ^ nd) + 5" by simp
  then have "scaled M k nd \<le> (n + 1) * 10 ^ nd" unfolding scaled_def half_up_def by linarith
  then have "scaled M k nd div 10 ^ nd \<le> (n + 1) * 10 ^ nd div 10 ^ nd" by (rule div_le_mono)
  then have "scaled M k nd div 10 ^ nd \<le> n + 1" by simp
  moreover have "n + 1 < (10::nat) ^ 16" using assms by (simp add: n)
  ultimately have "length (decimal (scaled M k nd div 10 ^ nd)) \<le> 16" using decimal_length [of _ 16] by simp
  then show ?thesis by (cases "nd = 0") (simp_all add: fixed_point_def)
qed

lemma cstring_id: "nul \<notin> set s \<Longrightarrow> cstring (s @ [nul]) = s"
  by (induction s) (auto simp: cstring_def)

lemma digit_code: "d < 10 \<Longrightarrow> char_of (48 + d) = c \<longleftrightarrow> of_char c = 48 + d" for d :: nat
proof -
  assume "d < 10"
  then have "of_char (char_of (48 + d) :: char) = 48 + d" by simp
  then show ?thesis by (metis char_of_char)
qed

lemma digit_not_nul: "d < 10 \<Longrightarrow> digits ! d \<noteq> nul"
  by (simp add: digit_char digit_code nul_def)

lemma decimal_not_nul: "nul \<notin> set (decimal n)"
proof (cases "n = 0")
  case False
  then have "decimal n = digs n" by (simp add: digs_def)
  then show ?thesis using digs_chars [of nul n] by auto
qed (simp add: decimal.simps [of 0] nul_def)

lemma fixed_point_not_nul: "nul \<notin> set (fixed_point nd R)"
proof -
  have "nul \<notin> set (map ((!) digits) (fixed_digits 10 nd R))"
    using digit_not_nul by (auto simp: fixed_digits_def eq_commute [of nul])
  then show ?thesis using decimal_not_nul by (auto simp: fixed_point_def nul_def)
qed

definition float_text :: "bool \<Rightarrow> nat \<Rightarrow> nat \<Rightarrow> nat \<Rightarrow> string" where
  "float_text neg M k nd = (if neg \<and> 0 < M then ''-'' else '''') @ fixed_point nd (scaled M k nd)"

lemma parse_float_f:
  assumes "k \<le> 49" and "M div 2 ^ k < 2 ^ 50" and "length buf = 80" and "nd \<le> 60"
  shows "parse_float \<lparr>negative = s, mag = (M, - int k)\<rparr> CHR ''f'' (int nd) buf = Some (float_text s M k nd)"
proof -
  have "M div 2 ^ k < 10 ^ 16" using assms(2) by simp
  then have room: "length (digs (M div 2 ^ k)) + nd < 79" using digs_length [of "M div 2 ^ k" 16] assms(4) by simp
  have "length (float_text s M k nd) < 80" using fixed_point_length [OF assms(2), of nd] assms(4) by (simp add: float_text_def)
  moreover have "nul \<notin> set (float_text s M k nd)" using fixed_point_not_nul by (auto simp: float_text_def nul_def)
  ultimately show ?thesis using format_f_text [OF assms(1-3) room, of s]
    by (simp add: parse_float_def cstring_id float_text_def [symmetric])
qed

definition float_sign :: "flags \<Rightarrow> bool \<Rightarrow> string" where
  "float_sign ty neg = (if neg then ''-'' else if PLUS ty then ''+'' else if SPACE ty then '' '' else '''')"

definition justified :: "flags \<Rightarrow> int \<Rightarrow> string \<Rightarrow> string \<Rightarrow> string" where
  "justified ty sz sign body =
     (let fill = nat (sz - int (length sign + length body))
      in if LEFT ty then sign @ body @ replicate fill CHR '' ''
         else if ZEROPAD ty then sign @ replicate fill CHR ''0'' @ body
         else replicate fill CHR '' '' @ sign @ body)"

lemma decimal_point_none: "CHR ''.'' \<notin> set s \<Longrightarrow> \<forall>c\<in>set s. \<not> is_exp c \<Longrightarrow> decimal_point s = s @ ''.''"
  by (induction s) auto

lemma decimal_plain: "c \<in> set (decimal n) \<Longrightarrow> c \<noteq> CHR ''.'' \<and> \<not> is_exp c"
proof (induction n rule: decimal.induct)
  case (1 n)
  have "char_of (48 + d) \<noteq> CHR ''.'' \<and> \<not> is_exp (char_of (48 + d))" if "d < 10" for d :: nat
    using that by (simp add: is_exp_def digit_code)
  then show ?case using 1 by (subst (asm) decimal.simps) (auto split: if_splits)
qed

definition is_neg :: "double \<Rightarrow> bool" where
  "is_neg x \<longleftrightarrow> negative x \<and> \<not> is_zero (mag x)"

definition float_body :: "double \<Rightarrow> int \<Rightarrow> char \<Rightarrow> flags \<Rightarrow> string \<Rightarrow> string option" where
  "float_body num precision fmt ty buf = do {
     tmp \<leftarrow> parse_float (if is_neg num then num\<lparr>negative := False\<rparr> else num) fmt (if precision < 0 then 6 else precision) buf;
     let tmp = (if HEX_PREP ty \<and> precision = 0 then decimal_point tmp else tmp);
     if length tmp < 80 then Some (if fmt = CHR ''g'' \<and> \<not> HEX_PREP ty then cropzeros tmp else tmp) else None
   }"

lemma length_cropzeros: "length (cropzeros s) \<le> length s"
proof -
  define pre post where "pre = takeWhile (\<lambda>c. c \<noteq> CHR ''.'') s" and post: "post = drop (length pre) s"
  then have s: "s = pre @ post" by (metis append_take_drop_id takeWhile_eq_take)
  define places where "places = takeWhile (\<lambda>c. \<not> is_exp c) (tl post)"
  define kept where kept: "kept = rev (dropWhile (\<lambda>c. c = CHR ''0'') (rev (CHR ''.'' # places)))"
  have "length kept \<le> Suc (length places)" unfolding kept length_rev by (rule order_trans [OF length_dropWhile_le]) simp
  moreover have "length places \<le> length (tl post)" unfolding places_def by (rule length_takeWhile_le)
  moreover have "cropzeros s = (if post = [] then s else pre @ (if last kept = CHR ''.'' then butlast kept else kept))"
    unfolding cropzeros_def Let_def pre_def [symmetric] post [symmetric] places_def [symmetric] kept [symmetric] ..
  ultimately show ?thesis by (cases post) (auto simp: s)
qed

lemma flt_eq:
  assumes "SIGN ty"
  shows "flt num sz precision fmt ty buf =
    map_option (justified ty sz (float_sign ty (is_neg num))) (float_body num precision fmt ty buf)"
proof -
  let ?ty = "if LEFT ty then ty\<lparr>ZEROPAD := False\<rparr> else ty"
  let ?sign = "float_sign ty (is_neg num)" and ?num = "if is_neg num then num\<lparr>negative := False\<rparr> else num"
  have ty: "SIGN ?ty" "PLUS ?ty = PLUS ty" "SPACE ?ty = SPACE ty" "HEX_PREP ?ty = HEX_PREP ty" "LEFT ?ty = LEFT ty"
    "ZEROPAD ?ty = (ZEROPAD ty \<and> \<not> LEFT ty)"
    using assms by auto
  have sign: "(if negative num \<and> \<not> is_zero (mag num) then (''-'', num\<lparr>negative := False\<rparr>, sz - 1)
      else if PLUS ty then (''+'', num, sz - 1) else if SPACE ty then ('' '', num, sz - 1) else ('''', num, sz)) =
    (?sign, ?num, sz - int (length ?sign))"
    by (simp add: is_neg_def float_sign_def)
  have zero: "(if precision < 0 then 6 else precision) = 0 \<longleftrightarrow> precision = 0" by simp
  have short: "strnlen t 256 = length t" if "length t \<le> 80" for t using that by (simp add: strnlen_min)
  have crop: "length (cropzeros t) \<le> 80" if "length t < 80" for t using length_cropzeros [of t] that by simp
  have fill: "nat (sz - int (length ?sign) - int n) = nat (sz - int (length ?sign + n))" for n by simp
  show ?thesis
    unfolding flt_def Let_def if_P [OF ty(1)] ty(2-6) sign prod.case zero float_body_def
    by (cases "parse_float ?num fmt (if precision < 0 then 6 else precision) buf"; cases "LEFT ty"; cases "ZEROPAD ty")
      (auto simp: short crop fill justified_def split_beta Let_def)
qed

lemma flt_f:
  assumes "SIGN ty" and "k \<le> 49" and "M div 2 ^ k < 2 ^ 50" and "length buf = 80" and "precision \<le> 60"
  defines "nd \<equiv> if precision < 0 then 6 else nat precision"
  shows "flt \<lparr>negative = s, mag = (M, - int k)\<rparr> sz precision CHR ''f'' ty buf =
    Some (justified ty sz (float_sign ty (s \<and> 0 < M))
      (fixed_point nd (scaled M k nd) @ (if HEX_PREP ty \<and> nd = 0 then ''.'' else '''')))"
proof -
  let ?text = "fixed_point nd (scaled M k nd)"
  have nd: "nd \<le> 60" "(if precision < 0 then 6 else precision) = int nd" "precision = 0 \<longleftrightarrow> nd = 0"
    using assms(5) by (auto simp: nd_def)
  have neg: "is_neg \<lparr>negative = s, mag = (M, - int k)\<rparr> \<longleftrightarrow> s \<and> 0 < M" by (simp add: is_neg_def is_zero_def)
  have parse: "parse_float (if s \<and> 0 < M then \<lparr>negative = False, mag = (M, - int k)\<rparr> else \<lparr>negative = s, mag = (M, - int k)\<rparr>)
      CHR ''f'' (int nd) buf = Some ?text"
    using parse_float_f [OF assms(2-4) nd(1)] by (auto simp: float_text_def)
  have point: "decimal_point ?text = ?text @ ''.''" if "nd = 0"
    using that decimal_plain by (auto simp: fixed_point_def intro!: decimal_point_none)
  have "length ?text < 79" using fixed_point_length [OF assms(3), of nd] nd(1) by simp
  then show ?thesis
    unfolding flt_eq [OF assms(1)] float_body_def neg nd(2,3) using parse point by (auto simp: Let_def)
qed

end
