(* ===== verification/FloatErrors.thy ===== *)
theory FloatErrors
  imports PrintFloat
begin

section \<open>Where it goes wrong\<close>

lemma takeWhile_point: "CHR ''.'' \<notin> set s \<Longrightarrow> takeWhile (\<lambda>c. c \<noteq> CHR ''.'') (s @ CHR ''.'' # t) = s"
  by (induction s) auto

lemma cropzeros_split:
  assumes "CHR ''.'' \<notin> set s" and "\<And>c. c \<in> set t \<Longrightarrow> \<not> is_exp c" and "u = [] \<or> is_exp (hd u)"
  shows "cropzeros (s @ CHR ''.'' # t @ u) =
    s @ (let kept = rev (dropWhile (\<lambda>c. c = CHR ''0'') (rev (CHR ''.'' # t))) in if last kept = CHR ''.'' then butlast kept else kept)"
proof -
  have places: "takeWhile (\<lambda>c. \<not> is_exp c) (t @ u) = t"
    using assms(2,3) by (cases u) (auto simp: takeWhile_append)
  show ?thesis unfolding cropzeros_def takeWhile_point [OF assms(1)] by (simp add: places Let_def)
qed

lemma decimal_point_exp:
  "CHR ''.'' \<notin> set s \<Longrightarrow> (\<And>c. c \<in> set s \<Longrightarrow> \<not> is_exp c) \<Longrightarrow> is_exp e \<Longrightarrow>
   decimal_point (s @ e # d # t) = s @ CHR ''.'' # d # d # t"
proof (induction s)
  case Nil
  then show ?case by (auto simp: is_exp_def)
qed auto

text \<open>Dividing by ten leaves more than an eleventh, so that many digits do not fit.\<close>

lemma val_fdiv_ten: "999 / 10000 * val x \<le> val (fdiv x ten)"
proof -
  obtain m e where x: "x = (m, e)" by (cases x)
  have b10: "bit_count 10 = 4" by (simp add: bit_count.simps)
  define q t where q: "q = m * 2 ^ 68 div 10" and t: "t = m * 2 ^ 68 mod 10"
  define N where N: "N = 2 * q + (if t = 0 then 0 else 1)"
  have f: "fdiv (m, e) ten = rnd N (e - 69)" by (simp add: b10 N q t)
  have qt: "m * 2 ^ 68 = q * 10 + t" by (simp only: q t div_mult_mod_eq)
  have "t < 10" by (simp add: t)
  then have "m * 2 ^ 69 \<le> 10 * N + 8 * m" using qt by (cases "m = 0") (simp_all add: N)
  then have "real (m * 2 ^ 69) \<le> real (10 * N + 8 * m)" by (simp only: of_nat_le_iff)
  then have big: "9998 / 100000 * real m \<le> real N / 2 ^ 69" by (simp add: field_simps)
  have p: "(2::real) powi e = 2 powi (e - 69) * 2 ^ 69" using power_split [of "e - 69" 69] by simp
  have vN: "val (N, e - 69) = real N / 2 ^ 69 * 2 powi e" by (simp add: val_def p)
  have "9998 / 100000 * real m * 2 powi e \<le> real N / 2 ^ 69 * 2 powi e" using big by (rule mult_right_mono) simp
  moreover have "val x = real m * 2 powi e" by (simp add: x val_def)
  ultimately have "9998 / 100000 * val x \<le> val (N, e - 69)" unfolding vN by (simp only: mult.assoc)
  moreover have "\<bar>val (rnd N (e - 69)) - val (N, e - 69)\<bar> \<le> val (N, e - 69) / 2 ^ 53" by (rule rnd_error)
  moreover have "val (N, e - 69) / 2 ^ 53 \<le> val (N, e - 69) / 10000" by (intro divide_left_mono) simp_all
  ultimately show ?thesis unfolding x f using val_nonneg [of "(m, e)"] by linarith
qed

lemma is_zero_val: "is_zero x \<Longrightarrow> val x = 0"
  by (simp add: is_zero_def val_def)

lemma val_modf: "val x - 1 < val (snd (modf x))"
proof -
  have "val (snd (modf x)) = real (trunc x)" by (cases x) (simp add: val_def power_int_def)
  then show ?thesis using trunc_val(2) [of x] by simp
qed

lemma int_digits_overrun: "11 ^ (p + 1) \<le> val fi \<Longrightarrow> int_digits p fi buf r2 = None"
proof (induction p arbitrary: fi buf r2)
  case 0
  then have "\<not> is_zero fi" using is_zero_val [of fi] by auto
  then show ?case by (subst int_digits.simps) simp
next
  case (Suc p)
  have "0 < val fi" by (rule less_le_trans [OF _ Suc.prems]) simp
  then have nz: "\<not> is_zero fi" using is_zero_val [of fi] by auto
  let ?fi = "snd (modf (fdiv fi ten))"
  have "(121::real) \<le> 11 ^ (Suc p + 1)" using power_increasing [of 2 "Suc p + 1" "11::real"] by simp
  then have "val fi / 11 \<le> val ?fi" using Suc.prems val_fdiv_ten [of fi] val_modf [of "fdiv fi ten"] by linarith
  then have "11 ^ (p + 1) \<le> val ?fi" using Suc.prems by simp
  then show ?case using Suc.IH nz by (subst int_digits.simps) (simp add: split_beta Let_def)
qed

lemma cvt_overrun:
  assumes "2 ^ 281 \<le> val (mag arg)"
  shows "cvt arg nd buf eflag = None"
proof -
  obtain m e where x: "mag arg = (m, e)" by (cases "mag arg")
  let ?fi = "snd (modf (mag arg))"
  have "(2::real) ^ 281 - 1 < val ?fi" using assms val_modf [of "mag arg"] by linarith
  moreover have "(11::real) ^ (80 + 1) \<le> 2 ^ 281 - 1" by simp
  ultimately have big: "11 ^ (80 + 1) \<le> val ?fi" by linarith
  then have "\<not> is_zero ?fi" using is_zero_val [of ?fi] by auto
  then show ?thesis using int_digits_overrun [OF big] by (simp add: cvt_def first_digits_def split_beta Let_def)
qed

text \<open>\<open>%.0g\<close> asks \<open>ee_bufcpy\<close> for \<open>-1\<close> characters.\<close>

lemma carry_loop_decpt: "carry_loop eflag p p1 buf dp = (p', buf', dp') \<Longrightarrow> dp \<le> dp'"
proof (induction eflag p p1 buf dp rule: carry_loop.induct)
  case (1 eflag p p1 buf dp)
  then show ?case by (auto simp: carry_loop.simps [of eflag p p1 buf dp] Let_def split: if_splits)
qed

lemma ecvt_decpt:
  assumes "k \<le> 49" and "2 ^ k \<le> M" and "M div 2 ^ k < 2 ^ 50" and "length buf = 80"
  shows "\<exists>buf' decpt. ecvtbuf \<lparr>negative = s, mag = (M, - int k)\<rparr> 0 buf = Some (buf', decpt, s) \<and> 0 < decpt"
proof -
  define n where n: "n = M div 2 ^ k"
  have n0: "0 < n" using assms(2) by (simp add: n div_greater_zero_iff)
  let ?L = "length (digs n)"
  have "n < 10 ^ 16" using assms(3) by (simp add: n)
  then have L: "?L \<le> 16" "0 < ?L" using digs_length [of n 16] digs_step [OF n0] by simp_all
  obtain b where i: "int_digits 80 (n, 0) buf 0 = Some (80 - ?L, b, int ?L)" "length b = 80"
    using int_digits_text [of n 80 buf 0] assms(3,4) L by (auto simp: n)
  obtain b2 where c: "copy_down 0 (80 - ?L) b = (?L, b2)" "length b2 = 80"
    using copy_down_text [of 0 "80 - ?L" b] i(2) L by auto
  obtain p' b3 dp where r: "carry_loop True 0 0 (b2[0 := add_char 5 (b2 ! 0)]) (int ?L) = (p', b3, dp)"
    by (cases "carry_loop True 0 0 (b2[0 := add_char 5 (b2 ! 0)]) (int ?L)")
  have "p' = 0" using r by (subst (asm) carry_loop.simps) (auto simp: Let_def split: if_splits)
  moreover have "frac_digits ?L 0 (M mod 2 ^ k, - int k) b2 = (?L, b2)" using L(2) by (subst frac_digits.simps) simp
  moreover have "M \<noteq> 0" using assms(2) by (cases "M = 0") simp_all
  ultimately have "ecvtbuf \<lparr>negative = s, mag = (M, - int k)\<rparr> 0 buf = Some (b3[0 := nul], dp, s)"
    using i(1) c(1) r n0
    by (simp add: ecvtbuf_def cvt_def modf_neg first_digits_def last_digits_def round_off_def is_zero_def n [symmetric] del: modf.simps)
  moreover have "0 < dp" using carry_loop_decpt [OF r] L(2) by linarith
  ultimately show ?thesis by blast
qed

lemma parse_float_g0:
  assumes "k \<le> 49" and "2 ^ k \<le> M" and "M div 2 ^ k < 2 ^ 50" and "length buf = 80"
  shows "parse_float \<lparr>negative = s, mag = (M, - int k)\<rparr> CHR ''g'' 0 buf = None"
proof -
  obtain b decpt where "ecvtbuf \<lparr>negative = s, mag = (M, - int k)\<rparr> 0 buf = Some (b, decpt, s)" "0 < decpt"
    using ecvt_decpt [OF assms, of s] by blast
  then show ?thesis by (auto simp: parse_float_def format_e_def ee_bufcpy_def split: bind_splits)
qed

end
