(* ===== verification/FloatExp.thy ===== *)
theory FloatExp
  imports PrintFloat
begin

section \<open>Significant digits\<close>

text \<open>\<open>half_up\<close> is within half a unit.\<close>

lemma half_up_error: "real t \<le> v \<Longrightarrow> v < real t + 1 \<Longrightarrow> \<bar>v - 10 * real (half_up t)\<bar> \<le> 5"
proof -
  define h r where h: "h = (t + 5) div 10" and r: "r = (t + 5) mod 10"
  have "t + 5 = h * 10 + r" by (simp only: h r div_mult_mod_eq)
  then have t: "real t + 5 = real h * 10 + real r" by (simp flip: of_nat_add)
  have r10: "r < 10" by (simp add: r)
  assume "real t \<le> v" and "v < real t + 1"
  then show ?thesis using t r10 by (simp add: half_up_def h [symmetric])
qed

lemma floor_quotient:
  assumes "0 < b"
  shows "real (a div b) \<le> real a / real b" and "real a / real b < real (a div b) + 1"
proof -
  have "a div b * b \<le> a" by simp
  then have "real (a div b * b) \<le> real a" by (simp only: of_nat_le_iff)
  then show "real (a div b) \<le> real a / real b" using assms by (simp add: pos_le_divide_eq)
  have "a < (a div b + 1) * b" using dividend_less_div_times [OF assms, of a] by simp
  then have "real a < real ((a div b + 1) * b)" by (simp only: of_nat_less_iff)
  then have "real a < (real (a div b) + 1) * real b" by (simp only: of_nat_mult of_nat_add of_nat_1)
  then show "real a / real b < real (a div b) + 1" using assms by (simp add: pos_divide_less_eq)
qed

lemma digs_prefix:
  assumes "length (digs n) = i + j" and "0 < i"
  shows "take i (digs n) = digs (n div 10 ^ j)" and "length (digs (n div 10 ^ j)) = i"
proof -
  have "0 < n div 10 ^ j"
  proof (rule ccontr)
    assume "\<not> ?thesis"
    then have "n < 10 ^ j" by (simp add: div_eq_0_iff)
    then show False using digs_length [of n j] assms by simp
  qed
  note sp = digs_split [OF this]
  show len: "length (digs (n div 10 ^ j)) = i" using arg_cong [OF sp, of length] assms(1) by simp
  have "take i (digs (n div 10 ^ j) @ map ((!) digits) (fixed_digits 10 j n)) = digs (n div 10 ^ j)" using len by simp
  then show "take i (digs n) = digs (n div 10 ^ j)" unfolding sp [symmetric] .
qed

text \<open>The first digits, the last of them still to be rounded away.\<close>

lemma first_significant:
  assumes M: "0 < M" and k: "k \<le> 49" and n50: "M div 2 ^ k < 2 ^ 50" and buf: "length buf = 80" and nd: "0 < nd" "nd \<le> 70"
  shows "\<exists>p b arg r2 p' b' t. first_digits (M mod 2 ^ k, - int k) (M div 2 ^ k, 0) buf = Some (p, b, arg, r2)
    \<and> frac_digits p (int nd) arg b = (p', b') \<and> length b' = 80 \<and> take (nd + 1) b' = digs t \<and> length (digs t) = nd + 1
    \<and> real t \<le> real M / 2 ^ k * 10 powi (int nd + 1 - r2) \<and> real M / 2 ^ k * 10 powi (int nd + 1 - r2) < real t + 1"
proof -
  define n f where n: "n = M div 2 ^ k" and f: "f = M mod 2 ^ k"
  have Mnf: "M = n * 2 ^ k + f" by (simp only: n f div_mult_mod_eq)
  have fk: "f < 2 ^ k" by (simp add: f)
  have floor: "real (a div 2 ^ k) \<le> real a / 2 ^ k" "real a / 2 ^ k < real (a div 2 ^ k) + 1" for a
    using floor_quotient [of "2 ^ k" a] by simp_all
  show ?thesis
  proof (cases "n = 0")
    case False
    let ?L = "length (digs n)"
    have "n < 10 ^ 16" using n50 by (simp add: n)
    then have L: "?L \<le> 16" by (rule digs_length)
    define b1 where b1: "b1 = take (80 - ?L) buf @ digs n @ drop 80 buf"
    have i: "int_digits 80 (n, 0) buf 0 = Some (80 - ?L, b1, int ?L)"
      using int_digits_text [of n 80 buf 0] n50 L buf by (simp add: b1 n)
    have "length b1 = 80" using buf L by (simp add: b1)
    then obtain b2 where c: "copy_down 0 (80 - ?L) b1 = (?L, b2)" and b2: "length b2 = 80" "take ?L b2 = digs n"
      using copy_down_text [of 0 "80 - ?L" b1] L buf by (auto simp: b1)
    have first: "first_digits (f, - int k) (n, 0) buf = Some (?L, b2, (f, - int k), int ?L)"
      using False i c by (simp add: first_digits_def is_zero_def)
    show ?thesis
    proof (cases "?L \<le> nd + 1")
      case True
      define j where j: "j = nd + 1 - ?L"
      have Lj: "?L + j = nd + 1" using True by (simp add: j)
      then have nd': "int (?L + j) - 1 = int nd" and room: "?L + j \<le> 80" using nd(2) by linarith+
      have T: "n * 10 ^ j + f * 10 ^ j div 2 ^ k = M * 10 ^ j div 2 ^ k"
      proof -
        have "M * 10 ^ j = f * 10 ^ j + n * 10 ^ j * 2 ^ k" unfolding Mnf by (simp add: algebra_simps)
        then show ?thesis by simp
      qed
      obtain b' where "frac_digits ?L (int nd) (f, - int k) b2 = (?L + j, b')" "length b' = 80"
        "take (?L + j) b' = digs (M * 10 ^ j div 2 ^ k)" "length (digs (M * 10 ^ j div 2 ^ k)) = ?L + j"
        using frac_digits_text [OF fk k b2(2) refl _ b2(1) room] False unfolding nd' T by auto
      moreover have "int nd + 1 - int ?L = int j" using True by (simp add: j)
      then have "real M / 2 ^ k * 10 powi (int nd + 1 - int ?L) = real (M * 10 ^ j) / 2 ^ k" by simp
      ultimately show ?thesis using first floor [of "M * 10 ^ j"] unfolding Lj n [symmetric] f [symmetric] by metis
    next
      case False
      define j where j: "j = ?L - (nd + 1)"
      have Lj: "?L = nd + 1 + j" using False by (simp add: j)
      have fd: "frac_digits ?L (int nd) (f, - int k) b2 = (?L, b2)" using False by (subst frac_digits.simps) simp
      have "take (nd + 1) b2 = take (nd + 1) (take ?L b2)" using False by simp
      then have t: "take (nd + 1) b2 = digs (n div 10 ^ j)" unfolding b2(2) using digs_prefix(1) [OF Lj] by simp
      have tl: "length (digs (n div 10 ^ j)) = nd + 1" using digs_prefix(2) [OF Lj] by simp
      have e: "real M / 2 ^ k * 10 powi (int nd + 1 - int ?L) = real M / (2 ^ k * 10 ^ j)"
        by (simp add: Lj power_int_minus divide_inverse)
      have "n div 10 ^ j = M div (2 ^ k * 10 ^ j)" by (simp add: n div_mult2_eq)
      then have "real (n div 10 ^ j) \<le> real M / (2 ^ k * 10 ^ j)" "real M / (2 ^ k * 10 ^ j) < real (n div 10 ^ j) + 1"
        using floor_quotient [of "2 ^ k * 10 ^ j" M] by simp_all
      then show ?thesis using first fd b2(1) t tl unfolding e [symmetric] n [symmetric] f [symmetric] by blast
    qed
  next
    case True
    then have f0: "0 < f" "M = f" using M Mnf by simp_all
    obtain z where z: "scale_loop (f, - int k) 0 = Some ((f * 10 ^ z, - int k), - int z)" "f * 10 ^ z < 2 ^ k" "2 ^ k \<le> f * 10 ^ z * 10"
      using scale_loop_stops [OF f0(1) fk k, of 0] by auto
    have first: "first_digits (f, - int k) (n, 0) buf = Some (0, buf, (f * 10 ^ z, - int k), - int z)"
      using True f0 z(1) by (simp add: first_digits_def is_zero_def)
    let ?t = "f * 10 ^ z * 10 ^ (nd + 1) div 2 ^ k"
    obtain b' where "frac_digits 0 (int nd) (f * 10 ^ z, - int k) buf = (nd + 1, b')" "length b' = 80"
      "take (nd + 1) b' = digs ?t" "length (digs ?t) = nd + 1"
      using frac_digits_text [OF z(2) k, of 0 buf 0 "nd + 1"] z(3) buf nd(2) by auto
    moreover have "real M / 2 ^ k * 10 powi (int nd + 1 - - int z) = real (f * 10 ^ z * 10 ^ (nd + 1)) / 2 ^ k"
    proof -
      have "int nd + 1 - - int z = int (z + (nd + 1))" by simp
      then have e: "10 powi (int nd + 1 - - int z) = (10::real) ^ (z + (nd + 1))" by (simp only: power_int_of_nat)
      show ?thesis unfolding f0(2) e by (simp add: power_add)
    qed
    ultimately show ?thesis using first floor [of "f * 10 ^ z * 10 ^ (nd + 1)"] unfolding n [symmetric] f [symmetric] by metis
  qed
qed

section \<open>Rounding\<close>

lemma half_up_less: "t < 10 ^ (i + 1) \<Longrightarrow> half_up t \<le> 10 ^ i"
  by (simp add: half_up_def)

lemma digs_power_Suc: "digs (10 ^ Suc i) = digs (10 ^ i) @ [CHR ''0'']"
  using digs_snoc [of "10 ^ i" 0] by (simp add: mult.commute)

lemma digs_power: "digs (10 ^ i) = CHR ''1'' # replicate i CHR ''0''"
proof (induction i)
  case 0
  then show ?case by (simp add: digs_def decimal.simps [of "Suc 0"] char_of_def bit_0)
next
  case (Suc i)
  then show ?case unfolding digs_power_Suc by (simp add: replicate_append_same)
qed

lemma digs_less: "n < 10 ^ length (digs n)"
proof (induction n rule: less_induct)
  case (less n)
  show ?case
  proof (cases "n = 0")
    case False
    then have "n div 10 < 10 ^ length (digs (n div 10))" by (intro less.IH) simp
    then show ?thesis using False digs_step_length [of n] by simp
  qed simp
qed

text \<open>\<open>nd\<close> digits of \<open>v\<close>, whose first has the weight \<open>10 ^ (decpt - 1)\<close>.\<close>

definition rounds_to :: "real \<Rightarrow> nat \<Rightarrow> int \<Rightarrow> nat \<Rightarrow> bool" where
  "rounds_to v nd decpt h \<longleftrightarrow> length (digs h) = nd \<and> 2 * \<bar>v - real h * 10 powi (decpt - int nd)\<bar> \<le> 10 powi (decpt - int nd)"

lemma round_significant:
  assumes t: "take (nd + 1) b = digs t" "length (digs t) = nd + 1" and b: "length b = 80" and nd: "0 < nd" "nd \<le> 70"
    and v: "real t \<le> v * 10 powi (int nd + 1 - r2)" "v * 10 powi (int nd + 1 - r2) < real t + 1"
  shows "\<exists>b' decpt h. round_off True nd b r2 s = Some (b', decpt, s) \<and> length b' = 80 \<and> take nd b' = digs h
    \<and> rounds_to v nd decpt h"
proof -
  define q d where q: "q = t div 10" and d: "d = t mod 10"
  have d10: "d < 10" by (simp add: d)
  have tq: "t = q * 10 + d" by (simp only: q d div_mult_mod_eq)
  have "0 < t" using t(2) by (cases "t = 0") simp_all
  then have dt: "digs t = digs q @ [char_of (48 + d)]" unfolding q d by (rule digs_step)
  have lq: "length (digs q) = nd" using t(2) dt by simp
  define t' where t': "t' = drop (nd + 1) b"
  have "b = take (nd + 1) b @ t'" by (simp add: t')
  then have bt: "b = digs q @ char_of (48 + d) # t'" unfolding t(1) dt by simp
  have five: "b[nd := add_char 5 (b ! nd)] = digs q @ char_of (53 + d) # t'"
    using d10 by (simp add: bt nth_append list_update_append lq add_char_def)
  have t'l: "length t' = 79 - nd" using b nd by (simp add: t')
  define u where u: "u = (10::real) powi (r2 - int nd)"
  have u0: "0 < u" by (simp add: u)
  have w: "10 powi (int nd + 1 - r2) * u = 10"
  proof -
    have "10 powi (int nd + 1 - r2) * u = 10 powi (int nd + 1 - r2 + (r2 - int nd))" unfolding u by (rule power_int_add [symmetric]) simp
    then show ?thesis by simp
  qed
  have "\<bar>v * 10 powi (int nd + 1 - r2) - 10 * real (half_up t)\<bar> \<le> 5" using half_up_error [OF v] .
  then have "\<bar>v * 10 powi (int nd + 1 - r2) - 10 * real (half_up t)\<bar> * u \<le> 5 * u" using u0 by (intro mult_right_mono) simp_all
  moreover have "(v * 10 powi (int nd + 1 - r2) - 10 * real (half_up t)) * u = 10 * (v - real (half_up t) * u)"
    using w by (simp add: left_diff_distrib mult.assoc)
  then have "\<bar>v * 10 powi (int nd + 1 - r2) - 10 * real (half_up t)\<bar> * u = 10 * \<bar>v - real (half_up t) * u\<bar>"
    using u0 by (metis abs_mult abs_numeral abs_of_pos)
  ultimately have err: "2 * \<bar>v - real (half_up t) * u\<bar> \<le> u" by simp
  show ?thesis
  proof (cases "d < 5")
    case True
    then have h: "half_up t = q" by (simp add: half_up_def tq)
    have "\<not> after_9 (char_of (53 + d))" using True by (simp add: after_9_def)
    then have "carry_loop True nd nd (digs q @ char_of (53 + d) # t') r2 = (nd, digs q @ char_of (53 + d) # t', r2)"
      by (subst carry_loop.simps) (simp add: nth_append lq)
    then show ?thesis unfolding round_off_def five using nd lq err t'l
      by (auto simp: rounds_to_def h u list_update_append)
  next
    case False
    then have h: "half_up t = q + 1" using d10 by (simp add: half_up_def tq)
    have "after_9 (char_of (53 + d))" using False d10 by (simp add: after_9_def)
    note carry = carry_loop_text [OF this, where eflag = True, of nd q t' r2, unfolded lq if_True]
    show ?thesis
    proof (cases "length (digs (q + 1)) = nd")
      case True
      then have c: "carry_loop True nd nd (digs q @ char_of (53 + d) # t') r2 = (nd, digs (q + 1) @ CHR ''0'' # t', r2)"
        using carry by simp
      have "take nd ((digs (q + 1) @ CHR ''0'' # t')[nd := nul]) = digs (q + 1)" using True by simp
      moreover have "rounds_to v nd r2 (q + 1)" using True err unfolding h u by (simp add: rounds_to_def)
      moreover have "length ((digs (q + 1) @ CHR ''0'' # t')[nd := nul]) = 80" using True t'l nd by simp
      moreover have "round_off True nd b r2 s = Some ((digs (q + 1) @ CHR ''0'' # t')[nd := nul], r2, s)"
        using nd unfolding round_off_def Let_def five c prod.case by simp
      ultimately show ?thesis by blast
    next
      case False
      then have l: "length (digs (q + 1)) = nd + 1" using digs_next_le [of q] digs_length_mono [of q "q + 1"] lq by simp
      have "q < 10 ^ nd" using digs_less [of q] lq by simp
      moreover have "\<not> q + 1 < 10 ^ nd" using digs_length [of "q + 1" nd] l by auto
      ultimately have q1: "q + 1 = 10 ^ nd" by simp
      obtain m where m: "nd = Suc m" using nd(1) by (cases nd) simp_all
      have uu: "10 powi (r2 - int m) = u * 10"
      proof -
        have "r2 - int m = r2 - int nd + 1" by (simp add: m)
        then show ?thesis unfolding u by (simp only:) (rule power_int_add_1, simp)
      qed
      have same: "real (10 ^ m) * (u * 10) = real (half_up t) * u" unfolding h q1 m by simp
      have "2 * \<bar>v - real (10 ^ m) * (u * 10)\<bar> \<le> u * 10" unfolding same using err u0 by linarith
      then have "rounds_to v nd (r2 + 1) (10 ^ m)" by (simp add: rounds_to_def uu digs_power m)
      moreover have "take nd ((digs (q + 1) @ t')[nd := nul]) = digs (10 ^ m)"
        unfolding take_update_cancel [OF le_refl] q1 m digs_power_Suc by (simp add: digs_power)
      moreover have "carry_loop True nd nd (digs q @ char_of (53 + d) # t') r2 = (nd, digs (q + 1) @ t', r2 + 1)"
        using carry False by simp
      then have "round_off True nd b r2 s = Some ((digs (q + 1) @ t')[nd := nul], r2 + 1, s)"
        using nd unfolding round_off_def Let_def five by simp
      moreover have "length ((digs (q + 1) @ t')[nd := nul]) = 80" using l t'l nd by simp
      ultimately show ?thesis by blast
    qed
  qed
qed

lemma ecvt_text:
  assumes M: "0 < M" and k: "k \<le> 49" and n50: "M div 2 ^ k < 2 ^ 50" and buf: "length buf = 80" and nd: "0 < nd" "nd \<le> 70"
  shows "\<exists>b decpt h. ecvtbuf \<lparr>negative = s, mag = (M, - int k)\<rparr> (int nd) buf = Some (b, decpt, s) \<and> length b = 80
    \<and> take nd b = digs h \<and> rounds_to (real M / 2 ^ k) nd decpt h"
proof -
  obtain p b arg r2 p' b' t where f: "first_digits (M mod 2 ^ k, - int k) (M div 2 ^ k, 0) buf = Some (p, b, arg, r2)"
    "frac_digits p (int nd) arg b = (p', b')" "length b' = 80" "take (nd + 1) b' = digs t" "length (digs t) = nd + 1"
    "real t \<le> real M / 2 ^ k * 10 powi (int nd + 1 - r2)" "real M / 2 ^ k * 10 powi (int nd + 1 - r2) < real t + 1"
    using first_significant [OF assms] by blast
  obtain b'' decpt h where r: "round_off True nd b' r2 s = Some (b'', decpt, s)" "length b'' = 80" "take nd b'' = digs h"
    "rounds_to (real M / 2 ^ k) nd decpt h"
    using round_significant [OF f(4,5,3) nd f(6,7), of s] by blast
  have "ecvtbuf \<lparr>negative = s, mag = (M, - int k)\<rparr> (int nd) buf = last_digits True (int nd) s (p, b, arg, r2)"
    using f(1) nd M by (simp add: ecvtbuf_def cvt_def modf_neg is_zero_def del: modf.simps)
  also have "\<dots> = Some (b'', decpt, s)" using f(2) r(1) nd by (simp add: last_digits_def)
  finally show ?thesis using r(2-4) by blast
qed

section \<open>Scientific notation\<close>

definition sci_text :: "bool \<Rightarrow> nat \<Rightarrow> nat \<Rightarrow> int \<Rightarrow> string" where
  "sci_text capexp p h e =
     [hd (digs h)] @ (if 0 < p then ''.'' else '''') @ tl (digs h) @ [if capexp then CHR ''E'' else CHR ''e''] @
     [if e < 0 then CHR ''-'' else CHR ''+''] @ map ((!) digits) (fixed_digits 10 3 (nat \<bar>e\<bar>))"

lemma exp_text_digits: "exp_text e = [if e < 0 then CHR ''-'' else CHR ''+''] @ map ((!) digits) (fixed_digits 10 3 (nat \<bar>e\<bar>))"
proof -
  define a where a: "a = nat \<bar>e\<bar>"
  have "fixed_digits 10 3 a = [a div 100 mod 10, a div 10 mod 10, a mod 10]"
    by (simp add: fixed_digits_def numeral_3_eq_3)
  moreover have "a div 10 div 10 = a div 100" by (simp add: div_mult2_eq [symmetric])
  ultimately show ?thesis by (simp add: exp_text_def Let_def a [symmetric] add_char_digit digit_char)
qed

lemma format_e_text:
  assumes "0 < M" and "k \<le> 49" and "M div 2 ^ k < 2 ^ 50" and "length buf = 80" and "p < 70"
  shows "\<exists>e h. format_e \<lparr>negative = s, mag = (M, - int k)\<rparr> (int p) capexp buf =
      Some ((if s then ''-'' else '''') @ sci_text capexp p h e) \<and> rounds_to (real M / 2 ^ k) (p + 1) (e + 1) h"
proof -
  obtain b decpt h where b: "ecvtbuf \<lparr>negative = s, mag = (M, - int k)\<rparr> (int (p + 1)) buf = Some (b, decpt, s)"
    "length b = 80" "take (p + 1) b = digs h" "rounds_to (real M / 2 ^ k) (p + 1) decpt h"
    using ecvt_text [OF assms(1-4), of "p + 1" s] assms(5) by auto
  obtain c cs where bc: "b = c # cs" using b(2) by (cases b) simp_all
  have dh: "digs h = c # take p cs" using b(3) by (simp add: bc)
  have copy: "ee_bufcpy cs (int p) = Some (take p cs)" using b(2) assms(5) by (simp add: ee_bufcpy_def bc)
  have pp: "int (p + 1) = int p + 1" by simp
  have "format_e \<lparr>negative = s, mag = (M, - int k)\<rparr> (int p) capexp buf = Some ((if s then ''-'' else '''') @ sci_text capexp p h (decpt - 1))"
    using b(1) assms(1) unfolding format_e_def pp
    by (simp add: bc copy is_zero_def sci_text_def dh exp_text_digits Let_def)
  moreover have "rounds_to (real M / 2 ^ k) (p + 1) (decpt - 1 + 1) h" using b(4) by simp
  ultimately show ?thesis by blast
qed

lemma digs_not_nul: "nul \<notin> set (digs n)"
  using digs_chars [of nul n] by auto

lemma sci_text_chars:
  assumes "length (digs h) = p + 1"
  shows "nul \<notin> set (sci_text capexp p h e)" and "length (sci_text capexp p h e) \<le> p + 7"
proof -
  obtain c cs where d: "digs h = c # cs" using assms by (cases "digs h") simp_all
  have "nul \<notin> set (map ((!) digits) (fixed_digits 10 3 (nat \<bar>e\<bar>)))"
    using digit_not_nul by (auto simp: fixed_digits_def eq_commute [of nul])
  then show "nul \<notin> set (sci_text capexp p h e)" using digs_not_nul [of h] by (auto simp: sci_text_def d nul_def)
  show "length (sci_text capexp p h e) \<le> p + 7" using assms by (simp add: sci_text_def d)
qed

lemma flt_e:
  assumes "SIGN ty" and "fmt = CHR ''e'' \<or> fmt = CHR ''E''" and "0 < M" and "k \<le> 49" and "M div 2 ^ k < 2 ^ 50"
    and "length buf = 80" and "precision < 70" and "\<not> (HEX_PREP ty \<and> precision = 0)"
  defines "p \<equiv> if precision < 0 then 6 else nat precision"
  shows "\<exists>e h. flt \<lparr>negative = s, mag = (M, - int k)\<rparr> sz precision fmt ty buf =
      Some (justified ty sz (float_sign ty s) (sci_text (fmt = CHR ''E'') p h e)) \<and> rounds_to (real M / 2 ^ k) (p + 1) (e + 1) h"
proof -
  have p: "p < 70" "(if precision < 0 then 6 else precision) = int p" using assms(7) by (auto simp: p_def)
  have num: "(if s then \<lparr>negative = False, mag = (M, - int k)\<rparr> else \<lparr>negative = s, mag = (M, - int k)\<rparr>) = \<lparr>negative = False, mag = (M, - int k)\<rparr>"
    by simp
  have neg: "is_neg \<lparr>negative = s, mag = (M, - int k)\<rparr> \<longleftrightarrow> s" using assms(3) by (simp add: is_neg_def is_zero_def)
  obtain e h where f: "format_e \<lparr>negative = False, mag = (M, - int k)\<rparr> (int p) (fmt = CHR ''E'') buf = Some (sci_text (fmt = CHR ''E'') p h e)"
    "rounds_to (real M / 2 ^ k) (p + 1) (e + 1) h"
    using format_e_text [OF assms(3-6) p(1), of False "fmt = CHR ''E''"] by auto
  let ?text = "sci_text (fmt = CHR ''E'') p h e"
  have l: "length (digs h) = p + 1" using f(2) by (simp add: rounds_to_def)
  have short: "length ?text < 80" using sci_text_chars(2) [OF l, of "fmt = CHR ''E''" e] p(1) by simp
  have "cstring (?text @ [nul]) = ?text" by (rule cstring_id [OF sci_text_chars(1) [OF l]])
  then have parse: "parse_float \<lparr>negative = False, mag = (M, - int k)\<rparr> fmt (int p) buf = Some ?text"
    using assms(2) f(1) short by (auto simp: parse_float_def Let_def)
  have "float_body \<lparr>negative = s, mag = (M, - int k)\<rparr> precision fmt ty buf = Some ?text"
    using assms(2,8) short parse unfolding float_body_def neg p(2) by (auto simp: num Let_def)
  then show ?thesis using f(2) unfolding flt_eq [OF assms(1)] neg by auto
qed

end
