(* ===== verification/FloatProps.thy ===== *)
theory FloatProps
  imports FloatErrors FloatExp
begin

text \<open>
  What \<open>flt\<close> of coremark/multiplix/ee_printf.c prints: \<open>%f\<close> and \<open>%e\<close> are the value rounded to the digits asked
  for; \<open>%g\<close> loses the exponent, and a number of more than 80 digits overruns the buffer of \<open>cvt\<close>.
\<close>

section \<open>Lemmas\<close>

lemma rounds_to_digits: "rounds_to v nd decpt h \<Longrightarrow> 0 < nd \<Longrightarrow> 10 ^ (nd - 1) \<le> h \<and> h < 10 ^ nd"
proof
  assume r: "rounds_to v nd decpt h" and nd: "0 < nd"
  then have l: "length (digs h) = nd" by (simp add: rounds_to_def)
  then show "h < 10 ^ nd" using digs_less [of h] by simp
  show "10 ^ (nd - 1) \<le> h"
  proof (rule ccontr)
    assume "\<not> 10 ^ (nd - 1) \<le> h"
    then show False using digs_length [of h "nd - 1"] l nd by simp
  qed
qed

text \<open>A number from \<open>10 ^ nd\<close> on has its point after more than \<open>nd\<close> digits.\<close>

lemma rounds_to_large:
  assumes "rounds_to v nd decpt h" and "0 < nd" and "10 ^ nd \<le> v"
  shows "int nd < decpt"
proof (rule ccontr)
  assume "\<not> int nd < decpt"
  then have u: "(10::real) powi (decpt - int nd) \<le> 1" using power_int_increasing [of "decpt - int nd" 0 "10::real"] by simp
  define u where "u = (10::real) powi (decpt - int nd)"
  have u: "u \<le> 1" "0 < u" using u by (simp_all add: u_def)
  have "h < 10 ^ nd" using rounds_to_digits [OF assms(1,2)] by simp
  then have "h + 1 \<le> 10 ^ nd" by simp
  then have "real (h + 1) \<le> real (10 ^ nd)" by (simp only: of_nat_le_iff)
  then have h: "real h + 1 \<le> 10 ^ nd" by simp
  define w where w: "w = real h * u"
  have "\<bar>v - w\<bar> \<le> u / 2" using assms(1) by (simp add: rounds_to_def u_def w)
  then have "2 * v \<le> 2 * w + u" by linarith
  moreover have "w \<le> real h * 1" unfolding w using u(1) by (rule mult_left_mono) simp
  ultimately have "2 * v \<le> 2 * real h + 1" using u(1) by linarith
  then show False using assms(3) h by linarith
qed

text \<open>\<open>cropzeros\<close> stops at the exponent and clears it.\<close>

definition cropped :: "string \<Rightarrow> string" where
  "cropped places =
     (let kept = rev (dropWhile (\<lambda>c. c = CHR ''0'') (rev (CHR ''.'' # places)))
      in if last kept = CHR ''.'' then butlast kept else kept)"

lemma digs_place: "c \<in> set (digs n) \<Longrightarrow> c \<noteq> CHR ''.'' \<and> \<not> is_exp c"
  using decimal_plain [of c n] by (auto simp: digs_def split: if_splits)

lemma cropzeros_sci:
  assumes "length (digs h) = p + 1" and "0 < p"
  shows "cropzeros (sci_text capexp p h e) = hd (digs h) # cropped (tl (digs h))"
proof -
  obtain c cs where d: "digs h = c # cs" using assms(1) by (cases "digs h") simp_all
  have places: "x \<noteq> CHR ''.'' \<and> \<not> is_exp x" if "x \<in> set (c # cs)" for x using that digs_place [of x h] by (simp add: d)
  define x where "x = (if capexp then CHR ''E'' else CHR ''e'')"
  then have x: "is_exp x" by (simp add: is_exp_def)
  obtain u where u: "sci_text capexp p h e = [c] @ CHR ''.'' # cs @ x # u"
    using assms(2) by (simp add: sci_text_def d x_def)
  have "cropzeros ([c] @ CHR ''.'' # cs @ x # u) = [c] @ cropped cs"
    unfolding cropped_def by (rule cropzeros_split) (use places x in auto)
  then show ?thesis by (simp add: u d)
qed

lemma flt_g_large:
  assumes "SIGN ty" and "\<not> HEX_PREP ty" and "k \<le> 49" and "M div 2 ^ k < 2 ^ 50" and "length buf = 80"
    and "1 < p" and "p < 70" and "10 ^ p \<le> real M / 2 ^ k"
  shows "\<exists>e h. flt \<lparr>negative = s, mag = (M, - int k)\<rparr> sz (int p) CHR ''g'' ty buf =
      Some (justified ty sz (float_sign ty s) (hd (digs h) # cropped (tl (digs h)))) \<and> rounds_to (real M / 2 ^ k) p (e + 1) h"
proof -
  have "0 < real M / 2 ^ k" by (rule less_le_trans [OF _ assms(8)]) simp
  then have M: "0 < M" by (cases "M = 0") simp_all
  obtain b decpt h0 where b: "ecvtbuf \<lparr>negative = False, mag = (M, - int k)\<rparr> (int p) buf = Some (b, decpt, False)" "length b = 80"
    "rounds_to (real M / 2 ^ k) p decpt h0"
    using ecvt_text [OF M assms(3-5), of p False] assms(6,7) by auto
  have "int p < decpt" using rounds_to_large [OF b(3) _ assms(8)] assms(6) by simp
  then have exp: "decpt - 1 < - 4 \<or> decpt - 1 > int p - 1" by simp
  have p1: "int p - 1 = int (p - 1)" "p - 1 + 1 = p" "p - 1 < 70" "0 < p - 1" using assms(6,7) by simp_all
  obtain e h where f: "format_e \<lparr>negative = False, mag = (M, - int k)\<rparr> (int (p - 1)) False b = Some (sci_text False (p - 1) h e)"
    "rounds_to (real M / 2 ^ k) p (e + 1) h"
    using format_e_text [OF M assms(3,4) b(2) p1(3), of False False] unfolding p1(2) by auto
  let ?text = "sci_text False (p - 1) h e"
  have l: "length (digs h) = p - 1 + 1" using f(2) p1(2) by (simp add: rounds_to_def)
  have short: "length ?text < 80" using sci_text_chars(2) [OF l, of False e] assms(7) by simp
  have "cstring (?text @ [nul]) = ?text" by (rule cstring_id [OF sci_text_chars(1) [OF l]])
  then have parse: "parse_float \<lparr>negative = False, mag = (M, - int k)\<rparr> CHR ''g'' (int p) buf = Some ?text"
    unfolding parse_float_def using b(1) exp f(1) short by (simp add: Let_def p1(1))
  have neg: "is_neg \<lparr>negative = s, mag = (M, - int k)\<rparr> \<longleftrightarrow> s" using M by (simp add: is_neg_def is_zero_def)
  have num: "(if s then \<lparr>negative = False, mag = (M, - int k)\<rparr> else \<lparr>negative = s, mag = (M, - int k)\<rparr>) = \<lparr>negative = False, mag = (M, - int k)\<rparr>"
    by simp
  have "float_body \<lparr>negative = s, mag = (M, - int k)\<rparr> (int p) CHR ''g'' ty buf = Some (hd (digs h) # cropped (tl (digs h)))"
    using short parse assms(2,6) cropzeros_sci [OF l p1(4)] unfolding float_body_def neg by (auto simp: num Let_def)
  then show ?thesis using f(2) unfolding flt_eq [OF assms(1)] neg by auto
qed

lemma flt_overrun:
  assumes "SIGN ty" and "fmt \<in> {CHR ''e'', CHR ''E'', CHR ''f'', CHR ''g'', CHR ''G''}" and "2 ^ 281 \<le> val (mag num)"
  shows "flt num sz precision fmt ty buf = None"
proof -
  have "2 ^ 281 \<le> val (mag (if is_neg num then num\<lparr>negative := False\<rparr> else num))" using assms(3) by simp
  note over = cvt_overrun [OF this]
  have "parse_float (if is_neg num then num\<lparr>negative := False\<rparr> else num) fmt pr buf = None" for pr
    using assms(2) unfolding parse_float_def format_e_def format_f_def ecvtbuf_def fcvtbuf_def over by (auto simp: Let_def)
  then show ?thesis unfolding flt_eq [OF assms(1)] float_body_def by simp
qed

lemma flt_g_no_digits:
  assumes "SIGN ty" and "k \<le> 49" and "2 ^ k \<le> M" and "M div 2 ^ k < 2 ^ 50" and "length buf = 80"
  shows "flt \<lparr>negative = s, mag = (M, - int k)\<rparr> sz 0 CHR ''g'' ty buf = None"
  using parse_float_g0 [OF assms(2-5)] unfolding flt_eq [OF assms(1)] float_body_def by (simp split: if_splits)

section \<open>Properties\<close>

text \<open>
  C29: The case \<open>'f'\<close> of \<open>ee_vsprintf\<close> prints the value with as many places as the precision says, six by default, rounded half up, after its sign
  and filled to the field width on the side the flags say. This is for doubles with at most 49 binary places and an integral part below
  \<open>2 ^ 50\<close> (0.1, which has 55 places, is not one of them), and for precisions up to 60, which fit the buffers. For other doubles the products by ten
  in \<open>cvt\<close> are rounded, and the last digits need not be exact.
\<close>

theorem flt_prints_fixed:
  assumes "k \<le> 49" and "M div 2 ^ k < 2 ^ 50" and "length buf = 80" and "precision \<le> 60"
  shows "convert_f width precision fl \<lparr>negative = s, mag = (M, - int k)\<rparr> buf =
    (let nd = if precision < 0 then 6 else nat precision
     in Some (justified fl width (float_sign fl (s \<and> 0 < M))
       (fixed_point nd ((2 * M * 10 ^ nd + 2 ^ k) div 2 ^ (k + 1)) @ (if HEX_PREP fl \<and> nd = 0 then ''.'' else ''''))))"
proof -
  have "justified (fl\<lparr>SIGN := True\<rparr>) = justified fl" "float_sign (fl\<lparr>SIGN := True\<rparr>) = float_sign fl"
    by (auto simp: fun_eq_iff justified_def float_sign_def Let_def)
  then show ?thesis
    using flt_f [OF _ assms, of "fl\<lparr>SIGN := True\<rparr>" s width] unfolding scaled_rounds Let_def convert_f_def by simp
qed

theorem flt_prints_fixed_witness:
  "convert_f 8 2 no_flags \<lparr>negative = True, mag = (37, - 4)\<rparr> (replicate 80 nul) = Some ''   -2.31''"
proof -
  have "decimal 2 = ''2''" by (simp add: decimal.simps [of 2] char_of_def bit_0 bit_Suc)
  moreover have "fixed_digits 10 2 231 = [3, 1]" by (simp add: fixed_digits_def numeral_2_eq_2)
  ultimately have "fixed_point 2 231 = ''2.31''" by (simp add: fixed_point_def digits_def)
  then show ?thesis
    using flt_prints_fixed [of 4 37 "replicate 80 nul" 2 8 no_flags True]
    by (simp add: no_flags_def justified_def float_sign_def numeral_3_eq_3)
qed

text \<open>
  C30: \<open>%e\<close> prints a nonzero value as one digit, as many places as the precision says and an exponent of
  three digits, within half a unit of the last place, if the value has at most 49 binary places and an integral part below \<open>2 ^ 50\<close>
  and the precision is below 70. For other doubles, such as 0.1, the arithmetic of \<open>cvt\<close> is rounded and this need not hold.
\<close>

theorem flt_prints_scientific:
  assumes "SIGN ty" and "fmt = CHR ''e'' \<or> fmt = CHR ''E''" and "0 < M" and "k \<le> 49" and "M div 2 ^ k < 2 ^ 50"
    and "length buf = 80" and "p < 70" and "\<not> (HEX_PREP ty \<and> p = 0)"
  shows "\<exists>e h. flt \<lparr>negative = s, mag = (M, - int k)\<rparr> sz (int p) fmt ty buf =
      Some (justified ty sz (float_sign ty s) (sci_text (fmt = CHR ''E'') p h e))
    \<and> 10 ^ p \<le> h \<and> h < 10 ^ (p + 1) \<and> 2 * \<bar>real M / 2 ^ k - real h * 10 powi (e - int p)\<bar> \<le> 10 powi (e - int p)"
proof -
  obtain e h where "flt \<lparr>negative = s, mag = (M, - int k)\<rparr> sz (int p) fmt ty buf =
      Some (justified ty sz (float_sign ty s) (sci_text (fmt = CHR ''E'') p h e))" "rounds_to (real M / 2 ^ k) (p + 1) (e + 1) h"
    using flt_e [OF assms(1-6), of "int p" s sz] assms(7,8) by auto
  moreover from this(2) have "10 ^ p \<le> h \<and> h < 10 ^ (p + 1)" using rounds_to_digits by fastforce
  ultimately show ?thesis by (auto simp: rounds_to_def)
qed

theorem flt_prints_scientific_witness:
  "\<exists>e h. flt \<lparr>negative = False, mag = (37, - int 4)\<rparr> 0 (int 3) CHR ''E'' (no_flags\<lparr>SIGN := True\<rparr>) (replicate 80 nul) =
      Some (justified (no_flags\<lparr>SIGN := True\<rparr>) 0 '''' (sci_text True 3 h e))
    \<and> 10 ^ 3 \<le> h \<and> h < 10 ^ (3 + 1) \<and> 2 * \<bar>real 37 / 2 ^ 4 - real h * 10 powi (e - int 3)\<bar> \<le> 10 powi (e - int 3)"
  using flt_prints_scientific [of "no_flags\<lparr>SIGN := True\<rparr>" "CHR ''E''" 37 4 "replicate 80 nul" 3 False 0]
  by (simp add: no_flags_def float_sign_def)

text \<open>
  C39: \<open>%g\<close> of a value that needs an exponent prints its digits without the exponent, shown for values with at
  most 49 binary places and an integral part below \<open>2 ^ 50\<close>.
\<close>

theorem flt_g_drops_exponent:
  assumes "SIGN ty" and "\<not> HEX_PREP ty" and "k \<le> 49" and "M div 2 ^ k < 2 ^ 50" and "length buf = 80"
    and "1 < p" and "p < 70" and "10 ^ p \<le> real M / 2 ^ k"
  shows "\<exists>e h. flt \<lparr>negative = s, mag = (M, - int k)\<rparr> sz (int p) CHR ''g'' ty buf =
      Some (justified ty sz (float_sign ty s) (hd (digs h) # cropped (tl (digs h)))) \<and> rounds_to (real M / 2 ^ k) p (e + 1) h"
  by (rule flt_g_large [OF assms])

theorem flt_g_drops_exponent_witness:
  "\<exists>e h. flt \<lparr>negative = False, mag = (2 ^ 40, - int 0)\<rparr> 0 (int 6) CHR ''g'' (no_flags\<lparr>SIGN := True\<rparr>) (replicate 80 nul) =
      Some (justified (no_flags\<lparr>SIGN := True\<rparr>) 0 '''' (hd (digs h) # cropped (tl (digs h)))) \<and> rounds_to (real (2 ^ 40) / 2 ^ 0) 6 (e + 1) h"
  using flt_g_drops_exponent [of "no_flags\<lparr>SIGN := True\<rparr>" 0 "2 ^ 40" "replicate 80 nul" 6 False 0]
  by (simp add: no_flags_def float_sign_def)

text \<open>
  C38: a value from \<open>2 ^ 281\<close> on, which a \<open>double\<close> can have, makes \<open>cvt\<close> write before its buffer of 80 characters,
  whatever the conversion.
\<close>

theorem flt_huge_overruns:
  assumes "SIGN ty" and "fmt \<in> {CHR ''e'', CHR ''E'', CHR ''f'', CHR ''g'', CHR ''G''}" and "2 ^ 281 \<le> val (mag num)"
  shows "flt num sz precision fmt ty buf = None"
  by (rule flt_overrun [OF assms])

theorem flt_huge_overruns_witness:
  "flt \<lparr>negative = False, mag = (1, 300)\<rparr> 0 6 CHR ''f'' (no_flags\<lparr>SIGN := True\<rparr>) (replicate 80 nul) = None"
  using flt_huge_overruns [of "no_flags\<lparr>SIGN := True\<rparr>" "CHR ''f''" "\<lparr>negative = False, mag = (1, 300)\<rparr>" 0 6 "replicate 80 nul"]
  by (simp add: no_flags_def val_def)

end
