(* ===== verification/FsFormat.thy ===== *)
theory FsFormat
  imports Prelude
begin

text \<open>
  The on-disk format of the file system, tools/mkfs/fs.h, and the byte order conversion of
  tools/mkfs/mkfs.c.

  A structure in memory is the list of its bytes; how the bytes of an integer are ordered depends on
  the host that runs mkfs (\<open>be\<close>: it is big endian). \<open>xshort\<close> and \<open>xint\<close> give the integers whose bytes,
  on this host, are the little endian bytes of their arguments.
\<close>

section \<open>Integers in memory\<close>

definition le16 :: "u16 \<Rightarrow> u8 list" where
  "le16 x = [ucast x, ucast (drop_bit 8 x)]"

definition le32 :: "u32 \<Rightarrow> u8 list" where
  "le32 x = [ucast x, ucast (drop_bit 8 x), ucast (drop_bit 16 x), ucast (drop_bit 24 x)]"

definition of_le16 :: "u8 list \<Rightarrow> u16" where
  "of_le16 b = ucast (b ! 0) OR push_bit 8 (ucast (b ! 1))"

definition of_le32 :: "u8 list \<Rightarrow> u32" where
  "of_le32 b = ucast (b ! 0) OR push_bit 8 (ucast (b ! 1)) OR push_bit 16 (ucast (b ! 2)) OR push_bit 24 (ucast (b ! 3))"

text \<open>How the host stores and loads its own integers.\<close>

definition store16 :: "bool \<Rightarrow> u16 \<Rightarrow> u8 list" where
  "store16 be x = (if be then rev (le16 x) else le16 x)"

definition store32 :: "bool \<Rightarrow> u32 \<Rightarrow> u8 list" where
  "store32 be x = (if be then rev (le32 x) else le32 x)"

definition load16 :: "bool \<Rightarrow> u8 list \<Rightarrow> u16" where
  "load16 be b = of_le16 (if be then rev b else b)"

definition load32 :: "bool \<Rightarrow> u8 list \<Rightarrow> u32" where
  "load32 be b = of_le32 (if be then rev b else b)"

definition xshort :: "bool \<Rightarrow> u16 \<Rightarrow> u16" where
  "xshort be x = load16 be [ucast x, ucast (drop_bit 8 x)]"

definition xint :: "bool \<Rightarrow> u32 \<Rightarrow> u32" where
  "xint be x = load32 be [ucast x, ucast (drop_bit 8 x), ucast (drop_bit 16 x), ucast (drop_bit 24 x)]"

section \<open>Constants\<close>

abbreviation (input) ROOTINO :: u32 where "ROOTINO \<equiv> 1"
abbreviation (input) BSIZE :: nat where "BSIZE \<equiv> 1024"
abbreviation (input) FSMAGIC :: u32 where "FSMAGIC \<equiv> 0x10203040"
abbreviation (input) NDIRECT :: nat where "NDIRECT \<equiv> 12"
abbreviation (input) NINDIRECT :: nat where "NINDIRECT \<equiv> 256"
abbreviation (input) MAXFILE :: nat where "MAXFILE \<equiv> 268"
abbreviation (input) IPB :: nat where "IPB \<equiv> 16"
abbreviation (input) DIRSIZ :: nat where "DIRSIZ \<equiv> 14"

section \<open>Structures\<close>

record superblock =
  sb_magic :: u32
  sb_size :: u32
  sb_nblocks :: u32
  sb_ninodes :: u32
  sb_nlog :: u32
  sb_logstart :: u32
  sb_inodestart :: u32
  sb_bmapstart :: u32

definition superblock_bytes :: "bool \<Rightarrow> superblock \<Rightarrow> u8 list" where
  "superblock_bytes be s = concat (map (store32 be)
     [sb_magic s, sb_size s, sb_nblocks s, sb_ninodes s, sb_nlog s, sb_logstart s, sb_inodestart s, sb_bmapstart s])"

record dinode =
  di_type :: u16
  di_major :: u16
  di_minor :: u16
  di_nlink :: u16
  di_size :: u32
  di_addrs :: "u32 list"

definition dinode_bytes :: "bool \<Rightarrow> dinode \<Rightarrow> u8 list" where
  "dinode_bytes be d = store16 be (di_type d) @ store16 be (di_major d) @ store16 be (di_minor d)
     @ store16 be (di_nlink d) @ store32 be (di_size d) @ concat (map (store32 be) (di_addrs d))"

text \<open>The \<open>n\<close> integers that start a list of bytes.\<close>

definition load_ints :: "bool \<Rightarrow> nat \<Rightarrow> u8 list \<Rightarrow> u32 list" where
  "load_ints be n b = map (\<lambda>k. load32 be (take 4 (drop (4 * k) b))) [0..<n]"

definition load_dinode :: "bool \<Rightarrow> u8 list \<Rightarrow> dinode" where
  "load_dinode be b =
     \<lparr>di_type = load16 be (take 2 b), di_major = load16 be (take 2 (drop 2 b)), di_minor = load16 be (take 2 (drop 4 b)),
      di_nlink = load16 be (take 2 (drop 6 b)), di_size = load32 be (take 4 (drop 8 b)),
      di_addrs = load_ints be (NDIRECT + 1) (drop 12 b)\<rparr>"

record dirent =
  de_inum :: u16
  de_name :: "u8 list"

definition dirent_bytes :: "bool \<Rightarrow> dirent \<Rightarrow> u8 list" where
  "dirent_bytes be de = store16 be (de_inum de) @ de_name de"

section \<open>Round trips\<close>

lemma le16_length [simp]: "length (le16 x) = 2"
  by (simp add: le16_def)

lemma le32_length [simp]: "length (le32 x) = 4"
  by (simp add: le32_def)

lemma store_length [simp]: "length (store16 be x) = 2" "length (store32 be y) = 4"
  by (simp_all add: store16_def store32_def)

lemma of_le16_le16 [simp]: "of_le16 (le16 x) = x"
proof (rule bit_word_eqI)
  fix n assume "n < LENGTH(16)"
  then consider "n < 8" | "8 \<le> n" "n < 16" by fastforce
  then show "bit (of_le16 (le16 x)) n = bit x n"
    by cases (auto simp: of_le16_def le16_def bit_or_iff bit_push_bit_iff bit_ucast_iff bit_drop_bit_eq)
qed

lemma of_le32_le32 [simp]: "of_le32 (le32 x) = x"
proof (rule bit_word_eqI)
  fix n assume "n < LENGTH(32)"
  then consider "n < 8" | "8 \<le> n" "n < 16" | "16 \<le> n" "n < 24" | "24 \<le> n" "n < 32" by fastforce
  then show "bit (of_le32 (le32 x)) n = bit x n"
    by cases (auto simp: of_le32_def le32_def bit_or_iff bit_push_bit_iff bit_ucast_iff bit_drop_bit_eq)
qed

lemma load_store [simp]: "load16 be (store16 be x) = x" "load32 be (store32 be y) = y"
  by (simp_all add: load16_def store16_def load32_def store32_def)

text \<open>
  A converted integer has its little endian bytes in memory; on a little endian host nothing changes.
\<close>

lemma le16_of_le16: "length b = 2 \<Longrightarrow> le16 (of_le16 b) = b"
proof -
  assume "length b = 2"
  then obtain p q where b: "b = [p, q]" by (auto simp: length_Suc_conv numeral_2_eq_2)
  have "ucast (of_le16 [p, q]) = p" "ucast (drop_bit 8 (of_le16 [p, q])) = q"
    by (rule bit_word_eqI; auto simp: of_le16_def bit_or_iff bit_push_bit_iff bit_ucast_iff bit_drop_bit_eq dest: bit_imp_le_length)+
  then show ?thesis by (simp add: b le16_def)
qed

lemma le32_of_le32: "length b = 4 \<Longrightarrow> le32 (of_le32 b) = b"
proof -
  assume "length b = 4"
  then obtain p q r s where b: "b = [p, q, r, s]" by (auto simp: length_Suc_conv eval_nat_numeral)
  have "ucast (of_le32 [p, q, r, s]) = p" "ucast (drop_bit 8 (of_le32 [p, q, r, s])) = q"
    "ucast (drop_bit 16 (of_le32 [p, q, r, s])) = r" "ucast (drop_bit 24 (of_le32 [p, q, r, s])) = s"
    by (rule bit_word_eqI; auto simp: of_le32_def bit_or_iff bit_push_bit_iff bit_ucast_iff bit_drop_bit_eq dest: bit_imp_le_length)+
  then show ?thesis by (simp add: b le32_def)
qed

lemma store_xshort [simp]: "store16 be (xshort be x) = le16 x"
  by (simp add: store16_def xshort_def load16_def le16_of_le16 flip: le16_def)

lemma store_xint [simp]: "store32 be (xint be x) = le32 x"
  by (simp add: store32_def xint_def load32_def le32_of_le32 flip: le32_def)

lemma xshort_le [simp]: "xshort False x = x"
  by (simp add: xshort_def load16_def flip: le16_def)

lemma xint_le [simp]: "xint False x = x"
  by (simp add: xint_def load32_def flip: le32_def)

lemma take_drop_concat:
  assumes "\<forall>x. length (f x) = m" and "k < length xs"
  shows "take m (drop (m * k) (concat (map f xs) @ r)) = f (xs ! k)"
  using assms(2)
proof (induction xs arbitrary: k)
  case (Cons x xs)
  then show ?case using assms(1) by (cases k) simp_all
qed simp

lemma length_concat_same: "\<forall>x. length (f x) = m \<Longrightarrow> length (concat (map f xs)) = m * length xs"
  by (induction xs) simp_all

lemma load_ints_store: "length xs = n \<Longrightarrow> load_ints be n (concat (map (store32 be) xs) @ r) = xs"
proof (rule nth_equalityI)
  fix k assume "length xs = n" and "k < length (load_ints be n (concat (map (store32 be) xs) @ r))"
  then have k: "k < length xs" "[0..<n] ! k = k" "k < length [0..<n]" by (simp_all add: load_ints_def)
  have "take 4 (drop (4 * k) (concat (map (store32 be) xs) @ r)) = store32 be (xs ! k)"
    by (rule take_drop_concat) (simp_all add: k(1))
  then show "load_ints be n (concat (map (store32 be) xs) @ r) ! k = xs ! k"
    unfolding load_ints_def nth_map [OF k(3)] k(2) by simp
qed (simp add: load_ints_def)

lemma load_ints_length [simp]: "length (load_ints be n b) = n"
  by (simp add: load_ints_def)

lemma dinode_bytes_length: "length (di_addrs d) = 13 \<Longrightarrow> length (dinode_bytes be d) = 64"
  by (simp add: dinode_bytes_def length_concat_same [where f = "store32 be"])

lemma load_dinode_bytes:
  assumes "length (di_addrs d) = 13"
  shows "load_dinode be (dinode_bytes be d @ r) = d"
proof -
  have "load_ints be 13 (concat (map (store32 be) (di_addrs d)) @ r) = di_addrs d"
    using assms by (rule load_ints_store)
  then show ?thesis by (simp add: load_dinode_def dinode_bytes_def)
qed

lemma load_dinode_addrs [simp]: "length (di_addrs (load_dinode be b)) = 13"
  by (simp add: load_dinode_def)

end
