(* ===== verification/Mkfs.thy ===== *)
theory Mkfs
  imports FsFormat
begin

text \<open>
  The tool that builds a file system image, tools/mkfs/mkfs.c.

  The image is the list of its sectors of \<open>BSIZE\<close> bytes, since the program seeks to multiples of
  \<open>BSIZE\<close> and moves whole sectors. Seeking and writing the image succeed; a read past its end fails.
  The files of the host are a parameter: what each of the calls of \<open>read\<close> returns until the end of the
  file, or \<open>None\<close> if the file cannot be opened. \<open>exit(1)\<close> and a failed assertion are errors; what the
  program prints is left out.
\<close>

section \<open>Errors\<close>

datatype mkfs_error = Usage | Die string | Assertion string

type_synonym 'a result = "mkfs_error + 'a"

fun bindE :: "'a result \<Rightarrow> ('a \<Rightarrow> 'b result) \<Rightarrow> 'b result" where
  "bindE (Inl e) f = Inl e"
| "bindE (Inr x) f = f x"

definition require :: "string \<Rightarrow> bool \<Rightarrow> unit result" where
  "require msg b = (if b then Inr () else Inl (Assertion msg))"

fun foldE :: "('a \<Rightarrow> 's \<Rightarrow> 's result) \<Rightarrow> 'a list \<Rightarrow> 's \<Rightarrow> 's result" where
  "foldE f [] s = Inr s"
| "foldE f (x # xs) s = bindE (f x s) (foldE f xs)"

section \<open>Layout\<close>

abbreviation (input) NINODES :: nat where "NINODES \<equiv> 200"
abbreviation (input) FSSIZE :: nat where "FSSIZE \<equiv> 100"
abbreviation (input) LOGSIZE :: nat where "LOGSIZE \<equiv> 30"
abbreviation (input) T_DIR :: u16 where "T_DIR \<equiv> 1"
abbreviation (input) T_FILE :: u16 where "T_FILE \<equiv> 2"

definition nbitmap :: nat where "nbitmap = FSSIZE div (BSIZE * 8) + 1"
definition ninodeblocks :: nat where "ninodeblocks = NINODES div IPB + 1"
definition nlog :: nat where "nlog = LOGSIZE"
definition nmeta :: nat where "nmeta = 2 + nlog + ninodeblocks + nbitmap"
definition nblocks :: nat where "nblocks = FSSIZE - nmeta"

definition sb :: "bool \<Rightarrow> superblock" where
  "sb be = \<lparr>sb_magic = FSMAGIC, sb_size = xint be (of_nat FSSIZE), sb_nblocks = xint be (of_nat nblocks),
     sb_ninodes = xint be (of_nat NINODES), sb_nlog = xint be (of_nat nlog), sb_logstart = xint be 2,
     sb_inodestart = xint be (of_nat (2 + nlog)), sb_bmapstart = xint be (of_nat (2 + nlog + ninodeblocks))\<rparr>"

definition zeroes :: "u8 list" where
  "zeroes = replicate BSIZE 0"

record mkfs =
  img :: "u8 list list"
  freeinode :: u32
  freeblock :: u32

section \<open>Sectors and inodes\<close>

text \<open>The sector at offset \<open>sec * BSIZE\<close>, a product of 32 bits.\<close>

definition sector :: "u32 \<Rightarrow> nat" where
  "sector sec = unat (sec * of_nat BSIZE) div BSIZE"

definition wsect :: "u32 \<Rightarrow> u8 list \<Rightarrow> mkfs \<Rightarrow> mkfs" where
  "wsect sec buf st =
     (let b = sector sec in
      st\<lparr>img := (if b < length (img st) then (img st)[b := buf]
                 else img st @ replicate (b - length (img st)) zeroes @ [buf])\<rparr>)"

definition rsect :: "u32 \<Rightarrow> mkfs \<Rightarrow> u8 list result" where
  "rsect sec st = (if sector sec < length (img st) then Inr (img st ! sector sec) else Inl (Die ''read''))"

definition iblock :: "bool \<Rightarrow> u32 \<Rightarrow> u32" where
  "iblock be inum = inum div of_nat IPB + sb_inodestart (sb be)"

definition winode :: "bool \<Rightarrow> u32 \<Rightarrow> dinode \<Rightarrow> mkfs \<Rightarrow> mkfs result" where
  "winode be inum ip st =
     (let bn = iblock be inum; k = 64 * (unat inum mod IPB) in
      bindE (rsect bn st) (\<lambda>buf. Inr (wsect bn (take k buf @ dinode_bytes be ip @ drop (k + 64) buf) st)))"

definition rinode :: "bool \<Rightarrow> u32 \<Rightarrow> mkfs \<Rightarrow> dinode result" where
  "rinode be inum st =
     (let bn = iblock be inum; k = 64 * (unat inum mod IPB) in
      bindE (rsect bn st) (\<lambda>buf. Inr (load_dinode be (take 64 (drop k buf)))))"

definition ialloc :: "bool \<Rightarrow> u16 \<Rightarrow> mkfs \<Rightarrow> (u32 \<times> mkfs) result" where
  "ialloc be type st =
     (let inum = freeinode st;
          st = st\<lparr>freeinode := freeinode st + 1\<rparr>;
          din = \<lparr>di_type = xshort be type, di_major = 0, di_minor = 0, di_nlink = xshort be 1,
                 di_size = xint be 0, di_addrs = replicate (NDIRECT + 1) 0\<rparr>
      in bindE (winode be inum din st) (\<lambda>st. Inr (inum, st)))"

section \<open>The bitmap\<close>

definition bitmap_loop :: "nat \<Rightarrow> u8 list" where
  "bitmap_loop used =
     foldl (\<lambda>buf i. buf[i div 8 := (buf ! (i div 8)) OR push_bit (i mod 8) 1]) (replicate BSIZE 0) [0..<used]"

definition balloc :: "bool \<Rightarrow> s32 \<Rightarrow> mkfs \<Rightarrow> mkfs result" where
  "balloc be used st =
     bindE (require ''used < BSIZE*8'' (sint used < int (BSIZE * 8))) (\<lambda>_.
     Inr (wsect (sb_bmapstart (sb be)) (bitmap_loop (nat (sint used))) st))"

section \<open>Appending to a file\<close>

text \<open>\<open>freeblock++\<close>.\<close>

definition take_block :: "mkfs \<Rightarrow> u32 \<times> mkfs" where
  "take_block st = (freeblock st, st\<lparr>freeblock := freeblock st + 1\<rparr>)"

text \<open>Slot \<open>k\<close> of \<open>din.addrs\<close>, filled with a new block if it is zero.\<close>

definition slot :: "bool \<Rightarrow> nat \<Rightarrow> dinode \<Rightarrow> mkfs \<Rightarrow> dinode \<times> mkfs" where
  "slot be k din st =
     (if xint be (di_addrs din ! k) = 0
      then let (b, st) = take_block st in (din\<lparr>di_addrs := (di_addrs din)[k := xint be b]\<rparr>, st)
      else (din, st))"

text \<open>The number of the block that holds block \<open>fbn\<close> of the file.\<close>

definition file_block :: "bool \<Rightarrow> nat \<Rightarrow> dinode \<Rightarrow> mkfs \<Rightarrow> (u32 \<times> dinode \<times> mkfs) result" where
  "file_block be fbn din st =
     (if fbn < NDIRECT
      then let (din, st) = slot be fbn din st in Inr (xint be (di_addrs din ! fbn), din, st)
      else
        let (din, st) = slot be NDIRECT din st; ib = xint be (di_addrs din ! NDIRECT) in
        bindE (rsect ib st) (\<lambda>blk.
        let indirect = load_ints be NINDIRECT blk in
        if indirect ! (fbn - NDIRECT) = 0
        then let (b, st) = take_block st;
                 indirect = indirect[fbn - NDIRECT := xint be b];
                 st = wsect ib (concat (map (store32 be) indirect)) st
             in Inr (xint be (indirect ! (fbn - NDIRECT)), din, st)
        else Inr (xint be (indirect ! (fbn - NDIRECT)), din, st)))"

text \<open>
  \<open>while(n > 0)\<close>, with \<open>n\<close> the length of \<open>p\<close> (the callers pass at most \<open>BSIZE\<close>). The assertion keeps
  \<open>fbn\<close> small enough for the products not to wrap.
\<close>

function iappend_loop :: "bool \<Rightarrow> u8 list \<Rightarrow> u32 \<Rightarrow> dinode \<Rightarrow> mkfs \<Rightarrow> (u32 \<times> dinode \<times> mkfs) result" where
  "iappend_loop be p off din st =
     (if p = [] then Inr (off, din, st)
      else
        let fbn = unat off div BSIZE in
        if \<not> fbn < MAXFILE then Inl (Assertion ''fbn < MAXFILE'')
        else
          case file_block be fbn din st of
            Inl e \<Rightarrow> Inl e
          | Inr (x, din, st) \<Rightarrow>
              let n1 = min (length p) ((fbn + 1) * BSIZE - unat off);
                  k = unat off - fbn * BSIZE
              in case rsect x st of
                   Inl e \<Rightarrow> Inl e
                 | Inr buf \<Rightarrow>
                     iappend_loop be (drop n1 p) (off + of_nat n1) din
                       (wsect x (take k buf @ take n1 p @ drop (k + n1) buf) st))"
  by pat_completeness auto
termination
proof (relation "measure (\<lambda>(be, p, off, din, st). length p)")
  fix be :: bool and p buf :: "u8 list" and off x :: u32 and din din' :: dinode and st st' :: mkfs and fbn n1 k :: nat and y y'
  assume "p \<noteq> []" and f: "fbn = unat off div BSIZE" and n1: "n1 = min (length p) ((fbn + 1) * BSIZE - unat off)"
  have "unat off < (unat off div 1024 + 1) * 1024"
    using dividend_less_times_div [of 1024 "unat off"] by (simp add: algebra_simps)
  then have "0 < n1" using \<open>p \<noteq> []\<close> f n1 by simp
  then show "((be, drop n1 p, off + of_nat n1, din', wsect x (take k buf @ take n1 p @ drop (k + n1) buf) st'),
      be, p, off, din, st) \<in> measure (\<lambda>(be, p, off, din, st). length p)"
    using \<open>p \<noteq> []\<close> by simp
qed simp

declare iappend_loop.simps [simp del]

definition iappend :: "bool \<Rightarrow> u32 \<Rightarrow> u8 list \<Rightarrow> mkfs \<Rightarrow> mkfs result" where
  "iappend be inum p st =
     bindE (rinode be inum st) (\<lambda>din.
     bindE (iappend_loop be p (xint be (di_size din)) din st) (\<lambda>(off, din, st).
     winode be inum (din\<lparr>di_size := xint be off\<rparr>) st))"

section \<open>The program\<close>

record host =
  can_create :: "string \<Rightarrow> bool"
  read_file :: "string \<Rightarrow> u8 list list option"

definition entry :: "bool \<Rightarrow> u32 \<Rightarrow> string \<Rightarrow> u8 list" where
  "entry be inum name =
     dirent_bytes be \<lparr>de_inum = xshort be (ucast inum), de_name = take DIRSIZ (map of_char name @ replicate DIRSIZ 0)\<rparr>"

text \<open>Without the directory \<open>user/\<close>; then without a leading underscore.\<close>

definition strip_user :: "string \<Rightarrow> string" where
  "strip_user arg = (if take 5 arg = ''user/'' then drop 5 arg else arg)"

definition strip_underscore :: "string \<Rightarrow> string" where
  "strip_underscore name = (case name of [] \<Rightarrow> [] | c # s \<Rightarrow> if c = CHR ''_'' then s else name)"

definition add_file :: "bool \<Rightarrow> host \<Rightarrow> string \<Rightarrow> mkfs \<Rightarrow> mkfs result" where
  "add_file be h arg st =
     (let shortname = strip_user arg in
      bindE (require ''index(shortname, '/') == 0'' (CHR ''/'' \<notin> set shortname)) (\<lambda>_.
      case read_file h arg of
        None \<Rightarrow> Inl (Die arg)
      | Some chunks \<Rightarrow>
          let shortname = strip_underscore shortname in
          bindE (ialloc be T_FILE st) (\<lambda>(inum, st).
          bindE (iappend be ROOTINO (entry be inum shortname) st) (\<lambda>st.
          foldE (iappend be inum) chunks st))))"

definition fix_root_size :: "bool \<Rightarrow> mkfs \<Rightarrow> mkfs result" where
  "fix_root_size be st =
     bindE (rinode be ROOTINO st) (\<lambda>din.
     let off = xint be (di_size din);
         off = (off div of_nat BSIZE + 1) * of_nat BSIZE
     in winode be ROOTINO (din\<lparr>di_size := xint be off\<rparr>) st)"

text \<open>The empty file system: the zeroed image, the super block and the root directory.\<close>

definition make_root :: "bool \<Rightarrow> mkfs result" where
  "make_root be =
     (let st = \<lparr>img = [], freeinode = 1, freeblock = of_nat nmeta\<rparr>;
          st = fold (\<lambda>i. wsect (of_nat i) zeroes) [0..<FSSIZE] st;
          st = wsect 1 (superblock_bytes be (sb be) @ replicate (BSIZE - 32) 0) st
      in bindE (ialloc be T_DIR st) (\<lambda>(rootino, st).
         bindE (require ''rootino == ROOTINO'' (rootino = ROOTINO)) (\<lambda>_.
         bindE (iappend be rootino (entry be rootino ''.'') st) (\<lambda>st.
         iappend be rootino (entry be rootino ''..'') st))))"

definition mkfs_main :: "bool \<Rightarrow> host \<Rightarrow> string list \<Rightarrow> mkfs result" where
  "mkfs_main be h args =
     (case args of
        [] \<Rightarrow> Inl Usage
      | path # files \<Rightarrow>
          if \<not> can_create h path then Inl (Die path)
          else
            bindE (make_root be) (\<lambda>st.
            bindE (foldE (add_file be h) files st) (\<lambda>st.
            bindE (fix_root_size be st) (\<lambda>st.
            balloc be (freeblock st) st))))"

end
