(* ===== verification/MkfsDisk.thy ===== *)
theory MkfsDisk
  imports Mkfs
begin

text \<open>
  The sectors and the inodes of an image as two stores, on a little endian host. Both keep the laws of
  a memory with a value at every index; what a client relies on follows from the laws.
\<close>

section \<open>Stores\<close>

locale store =
  fixes ok :: "'s \<Rightarrow> bool"
    and indices :: "nat set"
    and vals :: "'v set"
    and get :: "'s \<Rightarrow> nat \<Rightarrow> 'v"
    and put :: "nat \<Rightarrow> 'v \<Rightarrow> 's \<Rightarrow> 's"
  assumes put_ok: "ok s \<Longrightarrow> i \<in> indices \<Longrightarrow> v \<in> vals \<Longrightarrow> ok (put i v s)"
    and get_put_same: "ok s \<Longrightarrow> i \<in> indices \<Longrightarrow> v \<in> vals \<Longrightarrow> get (put i v s) i = v"
    and get_put_other: "ok s \<Longrightarrow> i \<in> indices \<Longrightarrow> v \<in> vals \<Longrightarrow> j \<in> indices \<Longrightarrow> j \<noteq> i \<Longrightarrow> get (put i v s) j = get s j"
    and get_vals: "ok s \<Longrightarrow> i \<in> indices \<Longrightarrow> get s i \<in> vals"
begin

text \<open>A change of the values at the indices \<open>I\<close> only.\<close>

definition only :: "nat set \<Rightarrow> 's \<Rightarrow> 's \<Rightarrow> bool" where
  "only I s s' \<longleftrightarrow> ok s \<and> ok s' \<and> (\<forall>j\<in>indices - I. get s' j = get s j)"

lemma only_refl: "ok s \<Longrightarrow> only I s s"
  by (simp add: only_def)

lemma only_put: "ok s \<Longrightarrow> i \<in> indices \<Longrightarrow> v \<in> vals \<Longrightarrow> only {i} s (put i v s)"
  by (simp add: only_def put_ok get_put_other)

lemma only_trans: "only I s s' \<Longrightarrow> only J s' s'' \<Longrightarrow> only (I \<union> J) s s''"
  by (simp add: only_def)

lemma only_mono: "only I s s' \<Longrightarrow> I \<subseteq> J \<Longrightarrow> only J s s'"
  by (auto simp: only_def)

lemma only_get: "only I s s' \<Longrightarrow> j \<in> indices \<Longrightarrow> j \<notin> I \<Longrightarrow> get s' j = get s j"
  by (simp add: only_def)

lemma get_put: "ok s \<Longrightarrow> i \<in> indices \<Longrightarrow> v \<in> vals \<Longrightarrow> j \<in> indices \<Longrightarrow>
    get (put i v s) j = (if j = i then v else get s j)"
  by (simp add: get_put_same get_put_other)

text \<open>The values at a list of indices.\<close>

lemma map_get_only: "only I s s' \<Longrightarrow> set js \<subseteq> indices - I \<Longrightarrow> map (get s') js = map (get s) js"
  by (auto simp: only_def)

end

section \<open>Sectors\<close>

definition disk_ok :: "mkfs \<Rightarrow> bool" where
  "disk_ok st \<longleftrightarrow> length (img st) = FSSIZE \<and> (\<forall>b<FSSIZE. length (img st ! b) = BSIZE)"

definition blk :: "mkfs \<Rightarrow> nat \<Rightarrow> u8 list" where
  "blk st b = img st ! b"

definition put_blk :: "nat \<Rightarrow> u8 list \<Rightarrow> mkfs \<Rightarrow> mkfs" where
  "put_blk b v st = st\<lparr>img := (img st)[b := v]\<rparr>"

interpretation sectors: store disk_ok "{..<100}" "{v. length v = 1024}" blk put_blk
  by unfold_locales (auto simp: disk_ok_def put_blk_def blk_def nth_list_update)

lemma put_blk_fields [simp]:
  "freeinode (put_blk b v st) = freeinode st" "freeblock (put_blk b v st) = freeblock st"
  by (simp_all add: put_blk_def)

lemma disk_ok_update [simp]:
  "disk_ok (st\<lparr>freeinode := i\<rparr>) = disk_ok st" "disk_ok (st\<lparr>freeblock := b\<rparr>) = disk_ok st"
  by (simp_all add: disk_ok_def)

lemma blk_update [simp]:
  "blk (st\<lparr>freeinode := i\<rparr>) = blk st" "blk (st\<lparr>freeblock := b\<rparr>) = blk st"
  by (simp_all add: blk_def fun_eq_iff)

lemma sector_small: "unat sec < 2 ^ 22 \<Longrightarrow> sector sec = unat sec"
proof -
  assume "unat sec < 2 ^ 22"
  then have "unat (sec * 1024) = unat sec * 1024" by (simp add: unat_word_ariths)
  then show ?thesis by (simp add: sector_def)
qed

lemma rsect_blk: "disk_ok st \<Longrightarrow> unat sec < 100 \<Longrightarrow> rsect sec st = Inr (blk st (unat sec))"
  by (simp add: rsect_def sector_small disk_ok_def blk_def)

lemma rsect_die: "disk_ok st \<Longrightarrow> 100 \<le> unat sec \<Longrightarrow> unat sec < 2 ^ 22 \<Longrightarrow> rsect sec st = Inl (Die ''read'')"
  by (simp add: rsect_def sector_small disk_ok_def)

lemma wsect_blk: "disk_ok st \<Longrightarrow> unat sec < 100 \<Longrightarrow> wsect sec v st = put_blk (unat sec) v st"
  by (simp add: wsect_def sector_small disk_ok_def put_blk_def Let_def)

section \<open>Inodes\<close>

lemma layout [simp]: "nbitmap = 1" "ninodeblocks = 13" "nlog = 30" "nmeta = 46" "nblocks = 54"
  by (simp_all add: nbitmap_def ninodeblocks_def nlog_def nmeta_def nblocks_def)

text \<open>Inode \<open>i\<close>, for the 208 inodes that the inode blocks have room for.\<close>

definition inode :: "mkfs \<Rightarrow> nat \<Rightarrow> dinode" where
  "inode st i = load_dinode False (take 64 (drop (64 * (i mod 16)) (blk st (32 + i div 16))))"

definition put_inode :: "nat \<Rightarrow> dinode \<Rightarrow> mkfs \<Rightarrow> mkfs" where
  "put_inode i d st =
     (let k = 64 * (i mod 16); buf = blk st (32 + i div 16)
      in put_blk (32 + i div 16) (take k buf @ dinode_bytes False d @ drop (k + 64) buf) st)"

lemma splice_same:
  "length buf = n \<Longrightarrow> k + length v \<le> n \<Longrightarrow> take (length v) (drop k (take k buf @ v @ drop (k + length v) buf)) = v"
  by simp

lemma splice_other:
  assumes "length buf = n" and "k + length v \<le> n" and "l + m \<le> k \<or> k + length v \<le> l"
  shows "take m (drop l (take k buf @ v @ drop (k + length v) buf)) = take m (drop l buf)"
proof (cases "l + m \<le> k")
  case True
  then show ?thesis using assms(1,2) by (simp add: take_drop min_def)
next
  case False
  then have "k + length v \<le> l" using assms(3) by blast
  then show ?thesis using assms(1,2) by (simp add: add.commute)
qed

lemma splice_length: "length buf = n \<Longrightarrow> k + length v \<le> n \<Longrightarrow> length (take k buf @ v @ drop (k + length v) buf) = n"
  by simp

interpretation inodes: store disk_ok "{..<208}" "{d. length (di_addrs d) = 13}" inode put_inode
proof
  fix s :: mkfs and i :: nat and v :: dinode
  assume ok: "disk_ok s" and i: "i \<in> {..<208}" and v: "v \<in> {d. length (di_addrs d) = 13}"
  let ?b = "32 + i div 16" and ?k = "64 * (i mod 16)"
  have b: "?b \<in> {..<100}" using i by auto
  have len: "length (blk s ?b) = 1024" using sectors.get_vals [OF ok b] by simp
  have vl: "length (dinode_bytes False v) = 64" using v by (simp add: dinode_bytes_length)
  have k: "?k + 64 \<le> 1024" by simp
  let ?v = "take ?k (blk s ?b) @ dinode_bytes False v @ drop (?k + 64) (blk s ?b)"
  have new: "?v \<in> {v. length v = 1024}" using splice_length [OF len, of ?k "dinode_bytes False v"] k unfolding vl by blast
  have put: "put_inode i v s = put_blk ?b ?v s" by (simp add: put_inode_def Let_def)
  show "disk_ok (put_inode i v s)" unfolding put by (rule sectors.put_ok [OF ok b new])
  have at: "blk (put_blk ?b ?v s) ?b = ?v" by (rule sectors.get_put_same [OF ok b new])
  have "take 64 (drop ?k ?v) = dinode_bytes False v"
    using splice_same [OF len, of ?k "dinode_bytes False v"] k unfolding vl by blast
  then show "inode (put_inode i v s) i = v"
    unfolding inode_def put at using load_dinode_bytes [of v False "[]"] v by simp
  fix j :: nat assume j: "j \<in> {..<208}" "j \<noteq> i"
  show "inode (put_inode i v s) j = inode s j"
  proof (cases "j div 16 = i div 16")
    case True
    then have "j mod 16 \<noteq> i mod 16" using j(2) by (metis div_mult_mod_eq)
    then have "64 * (j mod 16) + 64 \<le> ?k \<or> ?k + 64 \<le> 64 * (j mod 16)" by linarith
    then have "take 64 (drop (64 * (j mod 16)) ?v) = take 64 (drop (64 * (j mod 16)) (blk s ?b))"
      using splice_other [OF len, of ?k "dinode_bytes False v" "64 * (j mod 16)" 64] k unfolding vl by blast
    then show ?thesis unfolding inode_def put True at by simp
  next
    case False
    then have "blk (put_blk ?b ?v s) (32 + j div 16) = blk s (32 + j div 16)"
      using j by (intro sectors.get_put_other [OF ok b new]) auto
    then show ?thesis by (simp add: inode_def put)
  qed
next
  show "inode s i \<in> {d. length (di_addrs d) = 13}" for s i by (simp add: inode_def)
qed

lemma put_inode_fields [simp]:
  "freeinode (put_inode i d st) = freeinode st" "freeblock (put_inode i d st) = freeblock st"
  by (simp_all add: put_inode_def Let_def)

lemma inode_update [simp]:
  "inode (st\<lparr>freeinode := i\<rparr>) = inode st" "inode (st\<lparr>freeblock := b\<rparr>) = inode st"
  by (simp_all add: inode_def fun_eq_iff)

text \<open>Writing an inode changes its sector only; writing another sector changes no inode.\<close>

lemma put_inode_only:
  assumes "disk_ok st" and "i < 208" and "length (di_addrs d) = 13"
  shows "sectors.only {32..<45} st (put_inode i d st)"
proof -
  let ?b = "32 + i div 16"
  have b: "?b \<in> {..<100}" "?b \<in> {32..<45}" using assms(2) by auto
  have len: "length (blk st ?b) = 1024" using sectors.get_vals [OF assms(1) b(1)] by simp
  have "length (take (64 * (i mod 16)) (blk st ?b) @ dinode_bytes False d @ drop (64 * (i mod 16) + 64) (blk st ?b)) = 1024"
    using splice_length [OF len, of "64 * (i mod 16)" "dinode_bytes False d"]
    unfolding dinode_bytes_length [OF assms(3), of False] by simp
  then show ?thesis
    using sectors.only_mono [OF sectors.only_put [OF assms(1) b(1)], of _ "{32..<45}"] b(2)
    by (simp add: put_inode_def Let_def)
qed

lemma inode_only: "sectors.only I st st' \<Longrightarrow> I \<inter> {32..<45} = {} \<Longrightarrow> i < 208 \<Longrightarrow> inode st' i = inode st i"
proof -
  assume "sectors.only I st st'" and "I \<inter> {32..<45} = {}" and "i < 208"
  moreover from this have "32 + i div 16 \<in> {32..<45}" by auto
  ultimately have "blk st' (32 + i div 16) = blk st (32 + i div 16)"
    by (intro sectors.only_get [of I]) auto
  then show ?thesis by (simp add: inode_def)
qed

lemma iblock_le: "unat inum < 208 \<Longrightarrow> unat (iblock False inum) = 32 + unat inum div 16"
  by (simp add: iblock_def sb_def unat_word_ariths unat_div)

lemma rinode_inode:
  assumes "disk_ok st" and "unat inum < 208"
  shows "rinode False inum st = Inr (inode st (unat inum))"
proof -
  have "unat (iblock False inum) < 100" using iblock_le [OF assms(2)] assms(2) by simp
  then show ?thesis
    using assms by (simp add: rinode_def Let_def rsect_blk inode_def iblock_le)
qed

lemma winode_inode:
  assumes "disk_ok st" and "unat inum < 208"
  shows "winode False inum d st = Inr (put_inode (unat inum) d st)"
proof -
  have "unat (iblock False inum) < 100" using iblock_le [OF assms(2)] assms(2) by simp
  then show ?thesis
    using assms by (simp add: winode_def Let_def rsect_blk wsect_blk put_inode_def iblock_le)
qed

end
