(* ===== verification/MkfsFile.thy ===== *)
theory MkfsFile
  imports MkfsDisk
begin

text \<open>
  The blocks of a file and its content, and what appending to a file does to them, on a little endian
  host.
\<close>

section \<open>The blocks of a file\<close>

text \<open>The indirect block as integers, and the number of block \<open>k\<close> of the file.\<close>

definition indirect :: "mkfs \<Rightarrow> dinode \<Rightarrow> u32 list" where
  "indirect st d = load_ints False NINDIRECT (blk st (unat (di_addrs d ! NDIRECT)))"

definition addr :: "mkfs \<Rightarrow> dinode \<Rightarrow> nat \<Rightarrow> nat" where
  "addr st d k = unat (if k < NDIRECT then di_addrs d ! k else indirect st d ! (k - NDIRECT))"

definition data_blocks :: "mkfs \<Rightarrow> dinode \<Rightarrow> nat \<Rightarrow> nat list" where
  "data_blocks st d m = map (addr st d) [0..<m]"

definition own_blocks :: "mkfs \<Rightarrow> dinode \<Rightarrow> nat \<Rightarrow> nat list" where
  "own_blocks st d m = (if NDIRECT < m then [unat (di_addrs d ! NDIRECT)] else []) @ data_blocks st d m"

text \<open>The number of blocks of \<open>n\<close> bytes, and with the indirect block.\<close>

definition nblk :: "nat \<Rightarrow> nat" where
  "nblk n = (n + (BSIZE - 1)) div BSIZE"

definition total_blocks :: "nat \<Rightarrow> nat" where
  "total_blocks m = (if NDIRECT < m then m + 1 else m)"

abbreviation fb :: "mkfs \<Rightarrow> nat" where "fb st \<equiv> unat (freeblock st)"

definition fs_ok :: "mkfs \<Rightarrow> bool" where
  "fs_ok st \<longleftrightarrow> disk_ok st \<and> 46 \<le> fb st \<and> fb st \<le> FSSIZE \<and> (\<forall>b. fb st \<le> b \<and> b < FSSIZE \<longrightarrow> blk st b = zeroes)"

text \<open>A file of \<open>m\<close> blocks: different blocks out of the used ones; what is not used yet is zero.\<close>

definition file_inv :: "mkfs \<Rightarrow> dinode \<Rightarrow> nat \<Rightarrow> bool" where
  "file_inv st d m \<longleftrightarrow> length (di_addrs d) = NDIRECT + 1
     \<and> set (own_blocks st d m) \<subseteq> {46..<fb st} \<and> distinct (own_blocks st d m)
     \<and> (\<forall>k. m \<le> k \<and> k < NDIRECT \<longrightarrow> di_addrs d ! k = 0)
     \<and> (if NDIRECT < m then \<forall>k. m - NDIRECT \<le> k \<and> k < NINDIRECT \<longrightarrow> indirect st d ! k = 0 else di_addrs d ! NDIRECT = 0)"

definition file_data :: "mkfs \<Rightarrow> dinode \<Rightarrow> nat \<Rightarrow> u8 list" where
  "file_data st d m = concat (map (blk st) (data_blocks st d m))"

text \<open>The file holds \<open>c\<close>; the rest of its last block is zero.\<close>

definition holds :: "mkfs \<Rightarrow> dinode \<Rightarrow> u8 list \<Rightarrow> bool" where
  "holds st d c \<longleftrightarrow> file_inv st d (nblk (length c))
     \<and> file_data st d (nblk (length c)) = c @ replicate (nblk (length c) * BSIZE - length c) 0"

lemma indirect_length [simp]: "length (indirect st d) = 256"
  by (simp add: indirect_def)

lemma data_blocks_length [simp]: "length (data_blocks st d m) = m"
  by (simp add: data_blocks_def)

lemma own_blocks_length: "length (own_blocks st d m) = total_blocks m"
  by (simp add: own_blocks_def total_blocks_def)

lemma data_blocks_Suc: "data_blocks st d (Suc m) = data_blocks st d m @ [addr st d m]"
  by (simp add: data_blocks_def)

lemma file_data_Suc: "file_data st d (Suc m) = file_data st d m @ blk st (addr st d m)"
  by (simp add: file_data_def data_blocks_Suc)

lemma data_blocks_own: "set (data_blocks st d m) \<subseteq> set (own_blocks st d m)"
  by (simp add: own_blocks_def)

lemma file_inv_own:
  assumes "file_inv st d m"
  shows "length (di_addrs d) = 13" "set (own_blocks st d m) \<subseteq> {46..<fb st}" "distinct (own_blocks st d m)"
  using assms by (simp_all add: file_inv_def)

text \<open>A file has few blocks.\<close>

lemma file_inv_small:
  assumes "file_inv st d m" and "fs_ok st"
  shows "total_blocks m + 46 \<le> fb st" and "m \<le> 54"
proof -
  have "card (set (own_blocks st d m)) \<le> card {46..<fb st}"
    using file_inv_own(2) [OF assms(1)] by (rule card_mono [rotated]) simp
  then show *: "total_blocks m + 46 \<le> fb st"
    using file_inv_own(3) [OF assms(1)] assms(2) by (auto simp: distinct_card own_blocks_length fs_ok_def)
  show "m \<le> 54" using * assms(2) by (auto simp: fs_ok_def total_blocks_def split: if_splits)
qed

lemma addr_mem: "k < m \<Longrightarrow> addr st d k \<in> set (data_blocks st d m)"
  by (simp add: data_blocks_def)

lemma file_inv_addr:
  assumes "file_inv st d m" and "k < m"
  shows "addr st d k \<in> {46..<fb st}"
  using file_inv_own(2) [OF assms(1)] data_blocks_own [of st d m] addr_mem [OF assms(2), of st d] by blast

lemma file_inv_indirect:
  assumes "file_inv st d m" and "12 < m"
  shows "unat (di_addrs d ! 12) \<in> {46..<fb st}" and "unat (di_addrs d ! 12) \<notin> set (data_blocks st d m)"
  using file_inv_own(2,3) [OF assms(1)] assms(2) by (auto simp: own_blocks_def)

text \<open>What is the same if the blocks of the file are.\<close>

lemma indirect_cong: "blk st' (unat (di_addrs d ! 12)) = blk st (unat (di_addrs d ! 12)) \<Longrightarrow> indirect st' d = indirect st d"
  by (simp add: indirect_def)

lemma data_blocks_cong:
  assumes "12 < m \<Longrightarrow> blk st' (unat (di_addrs d ! 12)) = blk st (unat (di_addrs d ! 12))"
  shows "data_blocks st' d m = data_blocks st d m" and "own_blocks st' d m = own_blocks st d m"
proof -
  show "data_blocks st' d m = data_blocks st d m"
  proof (cases "12 < m")
    case True
    then show ?thesis using indirect_cong [OF assms] by (simp add: data_blocks_def addr_def)
  next
    case False
    then show ?thesis by (simp add: data_blocks_def addr_def)
  qed
  then show "own_blocks st' d m = own_blocks st d m" by (simp add: own_blocks_def)
qed

lemma file_inv_cong:
  assumes "file_inv st d m" and "12 < m \<Longrightarrow> blk st' (unat (di_addrs d ! 12)) = blk st (unat (di_addrs d ! 12))"
    and "fb st \<le> fb st'"
  shows "file_inv st' d m"
  using assms(1,3) data_blocks_cong(2) [OF assms(2)] indirect_cong [OF assms(2)]
  unfolding file_inv_def by (auto split: if_splits)

lemma holds_cong:
  assumes "holds st d c" and "\<And>b. b \<in> set (own_blocks st d (nblk (length c))) \<Longrightarrow> blk st' b = blk st b"
    and "fb st \<le> fb st'"
  shows "holds st' d c" and "own_blocks st' d (nblk (length c)) = own_blocks st d (nblk (length c))"
proof -
  let ?m = "nblk (length c)"
  have ind: "12 < ?m \<Longrightarrow> blk st' (unat (di_addrs d ! 12)) = blk st (unat (di_addrs d ! 12))"
    using assms(2) by (simp add: own_blocks_def)
  have same: "data_blocks st' d ?m = data_blocks st d ?m" by (rule data_blocks_cong(1)) (rule ind)
  have "file_inv st' d ?m" using file_inv_cong [OF _ ind assms(3)] assms(1) by (simp add: holds_def)
  moreover have "file_data st' d ?m = file_data st d ?m"
    using assms(2) data_blocks_own [of st d ?m] unfolding file_data_def same
    by (intro arg_cong [where f = concat] map_cong) auto
  ultimately show "holds st' d c" using assms(1) by (simp add: holds_def)
  show "own_blocks st' d ?m = own_blocks st d ?m" by (rule data_blocks_cong(2) [OF ind])
qed

lemma fs_okD: "fs_ok st \<Longrightarrow> disk_ok st" "fs_ok st \<Longrightarrow> fb st \<le> 100"
  by (simp_all add: fs_ok_def)

lemma fs_ok_put_blk:
  assumes "fs_ok st" and "b < fb st" and "length v = 1024"
  shows "fs_ok (put_blk b v st)"
proof -
  have b: "b \<in> {..<100}" and v: "v \<in> {v. length v = 1024}" and ok: "disk_ok st"
    using assms by (auto simp: fs_ok_def)
  have "blk (put_blk b v st) j = blk st j" if "fb st \<le> j" "j < 100" for j
    using sectors.get_put_other [OF ok b v, of j] that assms(2) by auto
  then show ?thesis
    using assms(1) sectors.put_ok [OF ok b v] by (simp add: fs_ok_def)
qed

text \<open>A new block is zero.\<close>

lemma load_zeroes: "k < 256 \<Longrightarrow> load_ints False 256 zeroes ! k = 0"
  by (simp add: load_ints_def load32_def of_le32_def zeroes_def)

end
