(* ===== verification/MkfsAppend.thy ===== *)
theory MkfsAppend
  imports MkfsFile
begin

text \<open>
  Appending to a file, \<open>iappend\<close> of tools/mkfs/mkfs.c, on a little endian host: which blocks are taken,
  what the file holds afterwards, and when the image is full.
\<close>

section \<open>Taking a block\<close>

text \<open>A file of \<open>m\<close> blocks became a file of \<open>m'\<close> blocks, and nothing else changed.\<close>

definition grown :: "mkfs \<Rightarrow> dinode \<Rightarrow> nat \<Rightarrow> mkfs \<Rightarrow> dinode \<Rightarrow> nat \<Rightarrow> bool" where
  "grown st d m st' d' m' \<longleftrightarrow> fs_ok st' \<and> file_inv st' d' m' \<and> m \<le> m' \<and> fb st' + total_blocks m = fb st + total_blocks m'
     \<and> set (own_blocks st' d' m') = set (own_blocks st d m) \<union> {fb st..<fb st'}
     \<and> sectors.only (set (own_blocks st' d' m')) st st' \<and> freeinode st' = freeinode st
     \<and> d'\<lparr>di_addrs := di_addrs d\<rparr> = d"

lemma total_blocks_mono: "m \<le> m' \<Longrightarrow> total_blocks m \<le> total_blocks m'"
  by (simp add: total_blocks_def)

lemma grown_refl: "fs_ok st \<Longrightarrow> file_inv st d m \<Longrightarrow> grown st d m st d m"
  by (simp add: grown_def sectors.only_refl fs_okD)

lemma grown_trans:
  assumes "grown st d m st1 d1 m1" and "grown st1 d1 m1 st2 d2 m2"
  shows "grown st d m st2 d2 m2"
proof -
  have "fb st \<le> fb st1" and "fb st1 \<le> fb st2"
    using assms total_blocks_mono [of m m1] total_blocks_mono [of m1 m2] unfolding grown_def by auto
  then have own: "set (own_blocks st2 d2 m2) = set (own_blocks st d m) \<union> {fb st..<fb st2}"
    using assms unfolding grown_def by auto
  have "sectors.only (set (own_blocks st1 d1 m1) \<union> set (own_blocks st2 d2 m2)) st st2"
    using assms unfolding grown_def by (blast intro: sectors.only_trans)
  then have "sectors.only (set (own_blocks st2 d2 m2)) st st2"
    using assms(2) unfolding grown_def by (auto elim!: sectors.only_mono)
  moreover have "d2\<lparr>di_addrs := di_addrs d\<rparr> = d"
    using assms unfolding grown_def by (metis dinode.update_convs(6) dinode.surjective)
  ultimately show ?thesis using assms own unfolding grown_def by simp
qed

lemma fb_inc [simp]: "fb st \<le> 100 \<Longrightarrow> unat (freeblock st + 1) = fb st + 1"
  by (simp add: unat_word_ariths)

lemma fb_inc2 [simp]: "fb st \<le> 100 \<Longrightarrow> unat (freeblock st + 1 + 1) = fb st + 2"
  by (simp add: unat_word_ariths)

text \<open>A block the file already has.\<close>

lemma file_block_old:
  assumes inv: "file_inv st d m" and ok: "fs_ok st" and k: "k < m"
  shows "file_block False k d st = Inr (of_nat (addr st d k), d, st)"
proof (cases "k < 12")
  case True
  then have "di_addrs d ! k \<noteq> 0" using file_inv_addr [OF inv k] by (auto simp: addr_def)
  then show ?thesis using True by (simp add: file_block_def slot_def addr_def)
next
  case False
  have ib: "unat (di_addrs d ! 12) \<in> {46..<fb st}" using file_inv_indirect(1) [OF inv] False k by simp
  then have "di_addrs d ! 12 \<noteq> 0" by auto
  moreover have "rsect (di_addrs d ! 12) st = Inr (blk st (unat (di_addrs d ! 12)))"
    using ib fs_okD [OF ok] by (intro rsect_blk) auto
  moreover have "indirect st d ! (k - 12) \<noteq> 0" using False file_inv_addr [OF inv k] by (auto simp: addr_def)
  ultimately show ?thesis using False by (simp add: file_block_def slot_def addr_def Let_def flip: indirect_def)
qed

text \<open>A new direct block.\<close>

lemma free_not_owned: "file_inv st d m \<Longrightarrow> fb st \<le> b \<Longrightarrow> b \<notin> set (own_blocks st d m)"
  using file_inv_own(2) [of st d m] by fastforce

lemma fs_ok_take: "fs_ok st \<Longrightarrow> fb st < 100 \<Longrightarrow> fs_ok (st\<lparr>freeblock := freeblock st + 1\<rparr>)"
  by (simp add: fs_ok_def)

lemma file_block_direct:
  assumes inv: "file_inv st d m" and ok: "fs_ok st" and m: "m < 12" and room: "fb st < 100"
    and d': "d' = d\<lparr>di_addrs := (di_addrs d)[m := freeblock st]\<rparr>" and st': "st' = st\<lparr>freeblock := freeblock st + 1\<rparr>"
  shows "file_block False m d st = Inr (freeblock st, d', st')" and "addr st' d' m = fb st"
    and "data_blocks st' d' m = data_blocks st d m" and "grown st d m st' d' (Suc m)" and "sectors.only {} st st'"
proof -
  have len: "length (di_addrs d) = 13" and z: "di_addrs d ! m = 0"
    using file_inv_own(1) [OF inv] inv m by (auto simp: file_inv_def)
  show "file_block False m d st = Inr (freeblock st, d', st')"
    using m z len by (simp add: file_block_def slot_def take_block_def d' st')
  show a: "addr st' d' m = fb st" using m len by (simp add: addr_def d')
  show b: "data_blocks st' d' m = data_blocks st d m" using m by (simp add: data_blocks_def addr_def d')
  have own: "own_blocks st' d' (Suc m) = own_blocks st d m @ [fb st]"
    using m a b by (simp add: own_blocks_def data_blocks_Suc)
  have fb: "fb st' = fb st + 1" using room by (simp add: st')
  have "file_inv st' d' (Suc m)"
    unfolding file_inv_def own fb
    using file_inv_own(2,3) [OF inv] inv m free_not_owned [OF inv, of "fb st"] len ok
    by (auto simp: file_inv_def d' fs_ok_def)
  moreover have "fs_ok st'" unfolding st' by (rule fs_ok_take [OF ok room])
  moreover show only: "sectors.only {} st st'" using ok by (simp add: sectors.only_def st' fs_ok_def)
  have "sectors.only (set (own_blocks st' d' (Suc m))) st st'" by (rule sectors.only_mono [OF only]) simp
  ultimately show "grown st d m st' d' (Suc m)"
    unfolding grown_def own fb using m by (auto simp: total_blocks_def d' st')
qed

text \<open>A new block that the indirect block lists.\<close>

lemma load_ints_zeroes: "load_ints False 256 zeroes = replicate 256 0"
  by (rule nth_equalityI) (simp_all add: load_zeroes)

lemma indirect_put:
  assumes "disk_ok st" and "b = unat (di_addrs d ! 12)" and "b < 100" and "length xs = 256"
  shows "indirect (put_blk b (concat (map (store32 False) xs)) st) d = xs"
proof -
  have "length (concat (map (store32 False) xs)) = 1024"
    using length_concat_same [of "store32 False" 4 xs] assms(4) by simp
  then have "blk (put_blk b (concat (map (store32 False) xs)) st) b = concat (map (store32 False) xs)"
    using assms(1,3) by (intro sectors.get_put_same) auto
  then show ?thesis using load_ints_store [OF assms(4), of False "[]"] assms(2) by (simp add: indirect_def)
qed

text \<open>
  Both when the indirect block is there and when it is new: \<open>st1\<close> and \<open>d1\<close> are the state after the
  indirect block has been looked up, \<open>ind\<close> its integers.
\<close>

lemma grown_indirect:
  assumes inv: "file_inv st d m" and ok: "fs_ok st" and m: "12 \<le> m" and room: "fb st + total_blocks (Suc m) \<le> 100 + total_blocks m"
    and d1: "d1 = (if m = 12 then d\<lparr>di_addrs := (di_addrs d)[12 := freeblock st]\<rparr> else d)"
    and st1: "st1 = (if m = 12 then st\<lparr>freeblock := freeblock st + 1\<rparr> else st)"
    and st': "st' = put_blk (unat (di_addrs d1 ! 12)) (concat (map (store32 False) ((indirect st1 d1)[m - 12 := freeblock st1])))
      (st1\<lparr>freeblock := freeblock st1 + 1\<rparr>)"
  shows "indirect st' d1 = (indirect st1 d1)[m - 12 := freeblock st1]" and "addr st' d1 m = fb st1"
    and "data_blocks st' d1 m = data_blocks st d m" and "grown st d m st' d1 (Suc m)"
    and "unat (di_addrs d1 ! 12) \<in> {46..<fb st1}" and "fb st1 < 100" and "indirect st1 d1 ! (m - 12) = 0"
    and "di_addrs d1 ! 12 \<noteq> 0" and "sectors.only {unat (di_addrs d1 ! 12)} st st'"
proof -
  have len: "length (di_addrs d) = 13" by (rule file_inv_own(1) [OF inv])
  have small: "m \<le> 54" by (rule file_inv_small(2) [OF inv ok])
  have fb1: "fb st1 = fb st + (if m = 12 then 1 else 0)" using fs_okD [OF ok] by (simp add: st1)
  show room1: "fb st1 < 100" using room m by (auto simp: fb1 total_blocks_def split: if_splits)
  have fb': "fb st' = fb st1 + 1" using room1 by (simp add: st')
  show ib: "unat (di_addrs d1 ! 12) \<in> {46..<fb st1}"
  proof (cases "m = 12")
    case True
    then show ?thesis using ok len by (auto simp: d1 fb1 fs_ok_def)
  next
    case False
    then show ?thesis using file_inv_indirect(1) [OF inv] m by (simp add: d1 fb1)
  qed
  then show "di_addrs d1 ! 12 \<noteq> 0" by auto
  have disk: "disk_ok st1" using fs_okD [OF ok] by (simp add: st1)
  have z: "\<forall>k. m - 12 \<le> k \<and> k < 256 \<longrightarrow> indirect st1 d1 ! k = 0"
  proof (cases "m = 12")
    case True
    then have "fb st < 100" using room1 by (simp add: fb1)
    then have "blk st (fb st) = zeroes" using ok by (simp add: fs_ok_def)
    then show ?thesis using True len by (simp add: indirect_def st1 d1 load_zeroes)
  next
    case False
    then show ?thesis using inv m by (simp add: file_inv_def st1 d1)
  qed
  then show "indirect st1 d1 ! (m - 12) = 0" using small by simp
  show ind: "indirect st' d1 = (indirect st1 d1)[m - 12 := freeblock st1]"
    unfolding st' using disk ib room1 by (intro indirect_put) auto
  show a: "addr st' d1 m = fb st1" using m small by (simp add: addr_def ind)
  show b: "data_blocks st' d1 m = data_blocks st d m"
    unfolding data_blocks_def
  proof (rule map_cong [OF refl])
    fix k assume "k \<in> set [0..<m]"
    moreover have "indirect st' d1 = (indirect st d)[m - 12 := freeblock st]" if "m \<noteq> 12"
      using ind that by (simp add: st1 d1)
    ultimately show "addr st' d1 k = addr st d k"
      using m by (cases "m = 12") (simp_all add: addr_def d1)
  qed
  have own: "own_blocks st' d1 (Suc m) = unat (di_addrs d1 ! 12) # data_blocks st d m @ [fb st1]"
    using m a b by (simp add: own_blocks_def data_blocks_Suc)
  have own0: "own_blocks st d m = (if m = 12 then [] else [unat (di_addrs d1 ! 12)]) @ data_blocks st d m"
    using m by (simp add: own_blocks_def d1)
  have new: "m = 12 \<Longrightarrow> unat (di_addrs d1 ! 12) = fb st" using len by (simp add: d1)
  have inv': "file_inv st' d1 (Suc m)"
    unfolding file_inv_def own
  proof (intro conjI)
    show "length (di_addrs d1) = 12 + 1" using len by (simp add: d1)
    show "set (unat (di_addrs d1 ! 12) # data_blocks st d m @ [fb st1]) \<subseteq> {46..<fb st'}"
      using ib file_inv_own(2) [OF inv] data_blocks_own [of st d m] ok by (auto simp: fb' fb1 fs_ok_def)
    show "distinct (unat (di_addrs d1 ! 12) # data_blocks st d m @ [fb st1])"
      using file_inv_own(3) [OF inv, unfolded own0] free_not_owned [OF inv, of "fb st1"] free_not_owned [OF inv, of "fb st"]
        data_blocks_own [of st d m] ib new
      by (cases "m = 12") (auto simp: fb1)
    show "\<forall>k. Suc m \<le> k \<and> k < 12 \<longrightarrow> di_addrs d1 ! k = 0" using m by auto
    show "if 12 < Suc m then \<forall>k. Suc m - 12 \<le> k \<and> k < 256 \<longrightarrow> indirect st' d1 ! k = 0 else di_addrs d1 ! 12 = 0"
      using m z by (auto simp: ind)
  qed
  have len': "length (concat (map (store32 False) ((indirect st1 d1)[m - 12 := freeblock st1]))) = 1024"
    using length_concat_same [of "store32 False" 4 "(indirect st1 d1)[m - 12 := freeblock st1]"] by simp
  have ok1: "fs_ok (st1\<lparr>freeblock := freeblock st1 + 1\<rparr>)"
    using ok room1 by (auto simp: fs_ok_def st1 split: if_splits)
  then have ok': "fs_ok st'" unfolding st' using ib room1 len' by (intro fs_ok_put_blk) auto
  have "sectors.only {unat (di_addrs d1 ! 12)} (st1\<lparr>freeblock := freeblock st1 + 1\<rparr>) st'"
    unfolding st' using ib room1 len' disk by (intro sectors.only_put) auto
  moreover have "sectors.only {} st (st1\<lparr>freeblock := freeblock st1 + 1\<rparr>)"
    using ok by (simp add: sectors.only_def st1 fs_ok_def)
  ultimately show only1: "sectors.only {unat (di_addrs d1 ! 12)} st st'"
    using sectors.only_trans by fastforce
  have only: "sectors.only (set (own_blocks st' d1 (Suc m))) st st'"
    unfolding own by (rule sectors.only_mono [OF only1]) simp
  have set: "set (own_blocks st' d1 (Suc m)) = set (own_blocks st d m) \<union> {fb st..<fb st'}"
    unfolding own own0 using new by (cases "m = 12") (auto simp: fb' fb1)
  have cnt: "fb st' + total_blocks m = fb st + total_blocks (Suc m)"
    using m by (auto simp: fb' fb1 total_blocks_def)
  have rest: "freeinode st' = freeinode st" "d1\<lparr>di_addrs := di_addrs d\<rparr> = d"
    by (simp_all add: st' st1 d1)
  show "grown st d m st' d1 (Suc m)"
    unfolding grown_def using ok' inv' cnt set only rest by simp
qed

text \<open>Taking the block after the last one, or dying on a block past the end of the image.\<close>

lemma file_data_grown:
  assumes grown: "grown st d m st' d' (Suc m)" and ok: "fs_ok st" and dat: "data_blocks st' d' m = data_blocks st d m"
    and only: "sectors.only I st st'" and I: "I \<inter> set (data_blocks st' d' (Suc m)) = {}" and new: "fb st \<le> addr st' d' m"
  shows "file_data st' d' (Suc m) = file_data st d m @ zeroes"
proof -
  have bound: "b < 100" if "b \<in> set (data_blocks st' d' (Suc m))" for b
    using grown that file_inv_own(2) [of st' d' "Suc m"] data_blocks_own [of st' d' "Suc m"] fs_okD(2) [of st']
    unfolding grown_def by fastforce
  have same: "map (blk st') (data_blocks st' d' (Suc m)) = map (blk st) (data_blocks st' d' (Suc m))"
    using bound I by (intro sectors.map_get_only [OF only]) auto
  have "addr st' d' m < 100" using bound by (simp add: data_blocks_Suc)
  then have "blk st (addr st' d' m) = zeroes" using ok new by (simp add: fs_ok_def)
  then show ?thesis unfolding file_data_def same by (simp add: data_blocks_Suc dat)
qed

lemma file_block_new:
  assumes inv: "file_inv st d m" and ok: "fs_ok st" and room: "fb st + total_blocks (Suc m) \<le> 100 + total_blocks m"
  shows "\<exists>x d' st'. file_block False m d st = Inr (x, d', st') \<and> unat x = addr st' d' m \<and> grown st d m st' d' (Suc m)
    \<and> file_data st' d' (Suc m) = file_data st d m @ zeroes"
proof (cases "m < 12")
  case True
  then have "fb st < 100" using room by (simp add: total_blocks_def)
  note new = file_block_direct [OF inv ok True this refl refl]
  show ?thesis
    using new(1,2,4) file_data_grown [OF new(4) ok new(3) new(5)] by (intro exI conjI) simp_all
next
  case False
  define d1 where d1: "d1 = (if m = 12 then d\<lparr>di_addrs := (di_addrs d)[12 := freeblock st]\<rparr> else d)"
  define st1 where st1: "st1 = (if m = 12 then st\<lparr>freeblock := freeblock st + 1\<rparr> else st)"
  define st' where st': "st' = put_blk (unat (di_addrs d1 ! 12)) (concat (map (store32 False) ((indirect st1 d1)[m - 12 := freeblock st1])))
      (st1\<lparr>freeblock := freeblock st1 + 1\<rparr>)"
  have m: "12 \<le> m" using False by simp
  note new = grown_indirect [OF inv ok m room d1 st1 st']
  have small: "m \<le> 54" by (rule file_inv_small(2) [OF inv ok])
  have disk: "disk_ok st1" using fs_okD [OF ok] by (simp add: st1)
  have slot: "slot False 12 d st = (d1, st1)"
  proof (cases "m = 12")
    case True
    then have "di_addrs d ! 12 = 0" using inv by (simp add: file_inv_def)
    then show ?thesis using True by (simp add: slot_def take_block_def d1 st1)
  next
    case False
    then show ?thesis using new(8) by (simp add: slot_def d1 st1)
  qed
  have ib: "unat (di_addrs d1 ! 12) < 100" using new(5,6) by simp
  have r: "rsect (di_addrs d1 ! 12) st1 = Inr (blk st1 (unat (di_addrs d1 ! 12)))"
    by (rule rsect_blk [OF disk ib])
  have w: "wsect (di_addrs d1 ! 12) (concat (map (store32 False) ((indirect st1 d1)[m - 12 := freeblock st1])))
      (st1\<lparr>freeblock := freeblock st1 + 1\<rparr>) = st'"
    unfolding st' using disk ib by (intro wsect_blk) auto
  have step: "file_block False m d st = Inr (freeblock st1, d1, st')"
    using False small slot r w new(7) by (simp add: file_block_def take_block_def Let_def flip: indirect_def)
  have "unat (di_addrs d1 ! 12) \<notin> set (data_blocks st' d1 (Suc m))"
    using file_inv_indirect(2) [of st' d1 "Suc m"] new(4) m by (simp add: grown_def)
  moreover have "fb st \<le> fb st1" using fs_okD [OF ok] by (simp add: st1)
  ultimately have "file_data st' d1 (Suc m) = file_data st d m @ zeroes"
    using new(2) by (intro file_data_grown [OF new(4) ok new(3) new(9)]) auto
  then show ?thesis using step new(2,4) by auto
qed

lemma file_block_full:
  assumes inv: "file_inv st d m" and ok: "fs_ok st" and full: "100 + total_blocks m < fb st + total_blocks (Suc m)"
  shows "file_block False m d st = Inl (Die ''read'')
    \<or> (\<exists>x d' st'. file_block False m d st = Inr (x, d', st') \<and> rsect x st' = Inl (Die ''read''))"
proof -
  have len: "length (di_addrs d) = 13" by (rule file_inv_own(1) [OF inv])
  have small: "m \<le> 54" by (rule file_inv_small(2) [OF inv ok])
  have fb: "fb st \<le> 100" "99 \<le> fb st" "m \<noteq> 12 \<Longrightarrow> fb st = 100"
    using fs_okD [OF ok] full by (auto simp: total_blocks_def split: if_splits)
  have nz: "freeblock st \<noteq> 0" using fb(2) by auto
  have die: "rsect x st' = Inl (Die ''read'')" if "unat x = 100" and "disk_ok st'" for x st'
    using that by (intro rsect_die) simp_all
  consider "m < 12" | "m = 12" "fb st = 100" | "m = 12" "fb st = 99" | "12 < m" using fb by linarith
  then show ?thesis
  proof cases
    case 1
    then have "di_addrs d ! m = 0" using inv by (simp add: file_inv_def)
    then show ?thesis using 1 len fb die fs_okD(1) [OF ok] by (simp add: file_block_def slot_def take_block_def)
  next
    case 2
    then have "di_addrs d ! 12 = 0" using inv by (simp add: file_inv_def)
    then show ?thesis using 2 len die fs_okD(1) [OF ok]
      by (simp add: file_block_def slot_def take_block_def Let_def)
  next
    case 3
    then have z: "di_addrs d ! 12 = 0" using inv by (simp add: file_inv_def)
    have "blk st 99 = zeroes" using ok 3 by (simp add: fs_ok_def)
    then have r: "rsect (freeblock st) (st\<lparr>freeblock := freeblock st + 1\<rparr>) = Inr zeroes"
      using 3 fs_okD(1) [OF ok] by (subst rsect_blk) simp_all
    let ?st' = "wsect (freeblock st) (concat (map (store32 False) ((load_ints False 256 zeroes)[0 := freeblock st + 1])))
      (st\<lparr>freeblock := freeblock st + 1 + 1\<rparr>)"
    have "disk_ok ?st'"
      using 3 fs_okD(1) [OF ok] length_concat_same [of "store32 False" 4 "(load_ints False 256 zeroes)[0 := freeblock st + 1]"]
      by (subst wsect_blk) (auto intro!: sectors.put_ok)
    then have "rsect (freeblock st + 1) ?st' = Inl (Die ''read'')" using 3 by (intro die) simp_all
    then show ?thesis using 3 z len r
      by (simp add: file_block_def slot_def take_block_def Let_def load_zeroes)
  next
    case 4
    then have f100: "fb st = 100" using fb(3) by simp
    have ib: "unat (di_addrs d ! 12) \<in> {46..<fb st}" using file_inv_indirect(1) [OF inv] 4 by simp
    then have nz: "di_addrs d ! 12 \<noteq> 0" by auto
    have b: "unat (di_addrs d ! 12) < 100" using ib f100 by simp
    have r: "rsect (di_addrs d ! 12) st = Inr (blk st (unat (di_addrs d ! 12)))"
      by (rule rsect_blk [OF fs_okD(1) [OF ok] b])
    have "indirect st d ! (m - 12) = 0" using inv 4 small by (simp add: file_inv_def)
    moreover have "disk_ok (wsect (di_addrs d ! 12) (concat (map (store32 False) ((indirect st d)[m - 12 := freeblock st])))
        (st\<lparr>freeblock := freeblock st + 1\<rparr>))"
      using b fs_okD(1) [OF ok] length_concat_same [of "store32 False" 4 "(indirect st d)[m - 12 := freeblock st]"]
      by (subst wsect_blk) (auto intro!: sectors.put_ok)
    moreover have "unat (freeblock st) = 100" by (rule f100)
    ultimately show ?thesis using 4 nz r small die
      by (simp add: file_block_def slot_def take_block_def Let_def flip: indirect_def)
  qed
qed

section \<open>Appending\<close>

lemma nblk_less: "0 < p \<Longrightarrow> n + p \<le> (n div 1024 + 1) * 1024 \<Longrightarrow> nblk (n + p) = n div 1024 + 1"
proof -
  assume "0 < p" and "n + p \<le> (n div 1024 + 1) * 1024"
  moreover have "n div 1024 * 1024 \<le> n" by simp
  ultimately have "(n div 1024 + 1) * 1024 \<le> n + p + 1023" "n + p + 1023 < (n div 1024 + 2) * 1024" by simp_all
  then have "(n + p + 1023) div 1024 = n div 1024 + 1" by (intro div_nat_eqI) simp_all
  then show ?thesis by (simp add: nblk_def)
qed

lemma nblk_at: "nblk n = (if n mod 1024 = 0 then n div 1024 else n div 1024 + 1)"
proof (cases "n mod 1024 = 0")
  case True
  then obtain q where "n = 1024 * q" by auto
  moreover have "(1024 * q + 1023) div 1024 = q" by simp
  ultimately show ?thesis by (simp add: nblk_def)
next
  case False
  moreover have "n mod 1024 < 1024" by simp
  ultimately have "n mod 1024 + 1023 < 2 * 1024" "1024 \<le> n mod 1024 + 1023" by linarith+
  then have "(n mod 1024 + 1023) div 1024 = 1" by (intro div_nat_eqI) simp_all
  moreover have "n + 1023 = n mod 1024 + 1023 + n div 1024 * 1024" by simp
  ultimately have "(n + 1023) div 1024 = n div 1024 + 1"
    using div_mult_self1 [of 1024 "n mod 1024 + 1023" "n div 1024"] by (metis add.commute mult.commute zero_neq_numeral)
  then show ?thesis using False by (simp add: nblk_def)
qed

lemma nblk_mono: "n \<le> n' \<Longrightarrow> nblk n \<le> nblk n'"
  by (simp add: nblk_def div_le_mono)

lemma nblk_bytes: "n \<le> nblk n * 1024"
  by (simp add: nblk_def)

lemma holds_small: "holds st d c \<Longrightarrow> fs_ok st \<Longrightarrow> length c \<le> 54 * 1024"
  using file_inv_small(2) [of st d "nblk (length c)"] nblk_bytes [of "length c"] by (auto simp: holds_def)

text \<open>The block at the end of the file, new if the last one is full.\<close>

lemma file_block_at:
  assumes h: "holds st d c" and ok: "fs_ok st" and k: "k = length c div 1024"
    and room: "fb st + total_blocks (Suc k) \<le> 100 + total_blocks (nblk (length c))"
  shows "\<exists>x d' st'. file_block False k d st = Inr (x, d', st') \<and> unat x = addr st' d' k
    \<and> grown st d (nblk (length c)) st' d' (Suc k)
    \<and> file_data st' d' (Suc k) = c @ replicate (Suc k * 1024 - length c) 0"
proof (cases "length c mod 1024 = 0")
  case True
  then have m: "nblk (length c) = k" by (simp add: nblk_at k)
  then have inv: "file_inv st d k" and dat: "file_data st d k = c"
    using h True k by (auto simp: holds_def)
  have "Suc k * 1024 - length c = 1024" using True k by auto
  then show ?thesis using file_block_new [OF inv ok] room unfolding m dat by (simp add: zeroes_def)
next
  case False
  then have m: "nblk (length c) = Suc k" by (simp add: nblk_at k)
  then have inv: "file_inv st d (Suc k)"
    and dat: "file_data st d (Suc k) = c @ replicate (Suc k * 1024 - length c) 0"
    using h by (simp_all add: holds_def)
  have "addr st d k < 2 ^ 32" using file_inv_addr [OF inv, of k] fs_okD(2) [OF ok] by simp
  then have "unat (of_nat (addr st d k) :: u32) = addr st d k" by (simp add: unat_of_nat)
  then show ?thesis
    unfolding m using file_block_old [OF inv ok, of k] dat grown_refl [OF ok inv] by simp
qed

lemma file_block_at_full:
  assumes h: "holds st d c" and ok: "fs_ok st" and k: "k = length c div 1024"
    and full: "100 + total_blocks (nblk (length c)) < fb st + total_blocks (Suc k)"
  shows "file_block False k d st = Inl (Die ''read'')
    \<or> (\<exists>x d' st'. file_block False k d st = Inr (x, d', st') \<and> rsect x st' = Inl (Die ''read''))"
proof -
  have m: "nblk (length c) = k" using full fs_okD(2) [OF ok] by (auto simp: nblk_at k split: if_splits)
  then have "file_inv st d k" using h by (simp add: holds_def)
  then show ?thesis using file_block_full [OF _ ok] full unfolding m by blast
qed

text \<open>Writing \<open>p\<close> at the end of the file, inside its last block.\<close>

lemma holds_write:
  assumes inv: "file_inv st d (Suc k)" and ok: "fs_ok st"
    and dat: "file_data st d (Suc k) = c @ replicate (Suc k * 1024 - length c) 0"
    and k: "k = length c div 1024" and p: "p \<noteq> []" "length p \<le> Suc k * 1024 - length c"
    and x: "x = addr st d k" and j: "j = length c - k * 1024"
    and st': "st' = put_blk x (take j (blk st x) @ p @ drop (j + length p) (blk st x)) st"
  shows "holds st' d (c @ p)" and "grown st d (Suc k) st' d (Suc k)"
proof -
  have kc: "k * 1024 \<le> length c" "length c < Suc k * 1024"
    using k dividend_less_times_div [of 1024 "length c"] by (simp_all add: algebra_simps)
  have xb: "x \<in> {46..<fb st}" unfolding x by (rule file_inv_addr [OF inv]) simp
  then have x100: "x < 100" using fs_okD(2) [OF ok] by simp
  have len: "length (blk st x) = 1024" using sectors.get_vals [OF fs_okD(1) [OF ok], of x] x100 by simp
  have lenk: "length (file_data st d k) = k * 1024"
  proof -
    have "length (blk st b) = 1024" if "b \<in> set (data_blocks st d k)" for b
    proof -
      have "b \<in> {46..<fb st}" using that file_inv_own(2) [OF inv] by (auto simp: own_blocks_def data_blocks_Suc split: if_splits)
      then show ?thesis using sectors.get_vals [OF fs_okD(1) [OF ok], of b] fs_okD(2) [OF ok] by simp
    qed
    then have "map (length \<circ> blk st) (data_blocks st d k) = replicate k 1024"
      by (intro nth_equalityI) simp_all
    then show ?thesis by (simp add: file_data_def length_concat sum_list_replicate)
  qed
  have split: "file_data st d k @ blk st x = c @ replicate (Suc k * 1024 - length c) 0"
    using dat by (simp add: file_data_Suc x)
  have dk: "file_data st d k = take (k * 1024) c"
    using arg_cong [OF split, of "take (k * 1024)"] lenk kc(1) by simp
  have bx: "blk st x = drop (k * 1024) c @ replicate (Suc k * 1024 - length c) 0"
    using arg_cong [OF split, of "drop (k * 1024)"] lenk kc(1) by simp
  let ?v = "take j (blk st x) @ p @ drop (j + length p) (blk st x)"
  have v: "?v = drop (k * 1024) c @ p @ replicate (Suc k * 1024 - length c - length p) 0"
    using kc(1) by (simp add: bx j)
  have vlen: "length ?v = 1024" using len p(2) kc by (simp add: j)
  have nx: "x \<notin> set (data_blocks st d k)" and nib: "12 < Suc k \<Longrightarrow> unat (di_addrs d ! 12) \<noteq> x"
    using file_inv_own(3) [OF inv] by (auto simp: own_blocks_def data_blocks_Suc x split: if_splits)
  have same: "blk st' b = blk st b" if "b \<noteq> x" "b < 100" for b
    unfolding st' using that x100 vlen fs_okD(1) [OF ok] by (intro sectors.get_put_other) auto
  have ind: "12 < Suc k \<Longrightarrow> blk st' (unat (di_addrs d ! 12)) = blk st (unat (di_addrs d ! 12))"
    using file_inv_indirect(1) [OF inv] fs_okD(2) [OF ok] nib by (intro same) auto
  have fb: "fb st' = fb st" "freeinode st' = freeinode st" by (simp_all add: st')
  have own: "own_blocks st' d (Suc k) = own_blocks st d (Suc k)" by (rule data_blocks_cong(2)) (rule ind)
  have blocks: "data_blocks st' d (Suc k) = data_blocks st d (Suc k)" by (rule data_blocks_cong(1)) (rule ind)
  have inv': "file_inv st' d (Suc k)" by (rule file_inv_cong [OF inv]) (simp_all add: ind fb)
  have ok': "fs_ok st'" unfolding st' using xb vlen by (intro fs_ok_put_blk [OF ok]) simp_all
  have "sectors.only {x} st st'" unfolding st' using fs_okD(1) [OF ok] x100 vlen by (intro sectors.only_put) simp_all
  moreover have "x \<in> set (own_blocks st' d (Suc k))" unfolding own by (simp add: own_blocks_def data_blocks_Suc x)
  ultimately have "sectors.only (set (own_blocks st' d (Suc k))) st st'" by (auto elim: sectors.only_mono)
  then show "grown st d (Suc k) st' d (Suc k)"
    unfolding grown_def using ok' inv' own fb by simp
  have "length (c @ p) \<le> (length c div 1024 + 1) * 1024" using p(2) kc(2) by (simp flip: k)
  then have m: "nblk (length (c @ p)) = Suc k" using nblk_less [of "length p" "length c"] p by (simp flip: k)
  have old: "map (blk st') (data_blocks st d k) = map (blk st) (data_blocks st d k)"
    using nx file_inv_own(2) [OF inv] fs_okD(2) [OF ok]
    by (intro map_cong [OF refl] same) (auto simp: own_blocks_def data_blocks_Suc split: if_splits)
  have new: "blk st' x = ?v" unfolding st' using fs_okD(1) [OF ok] x100 vlen by (intro sectors.get_put_same) simp_all
  have "file_data st' d (Suc k) = concat (map (blk st') (data_blocks st d k)) @ blk st' x"
    unfolding file_data_def blocks unfolding data_blocks_Suc x by simp
  then have "file_data st' d (Suc k) = file_data st d k @ ?v" unfolding old new file_data_def .
  then have "file_data st' d (Suc k) = take (k * 1024) c @ ?v" unfolding dk .
  then have "file_data st' d (Suc k) = c @ p @ replicate (Suc k * 1024 - length c - length p) 0" unfolding v by simp
  then show "holds st' d (c @ p)"
    unfolding holds_def m using inv' by simp
qed

text \<open>
  The loop of \<open>iappend\<close>: it appends if the image has room for the blocks it takes, and dies on a read past
  the end of the image otherwise.
\<close>

lemma iappend_loop_step:
  assumes "unat off div 1024 = k" and "k < 268" and "p \<noteq> []" and "file_block be k d st = Inr (x, d1, st1)"
    and "rsect x st1 = Inr buf" and "n1 = min (length p) (Suc k * 1024 - unat off)" and "j = unat off - k * 1024"
  shows "iappend_loop be p off d st =
    iappend_loop be (drop n1 p) (off + of_nat n1) d1 (wsect x (take j buf @ take n1 p @ drop (j + n1) buf) st1)"
  using assms by (subst iappend_loop.simps) (simp add: Let_def)

lemma iappend_loop_die:
  assumes "unat off div 1024 = k" and "k < 268" and "p \<noteq> []"
    and "file_block be k d st = Inl e \<or> (\<exists>x d1 st1. file_block be k d st = Inr (x, d1, st1) \<and> rsect x st1 = Inl e)"
  shows "iappend_loop be p off d st = Inl e"
  using assms by (subst iappend_loop.simps) (auto simp: Let_def)

lemma iappend_loop_appends:
  assumes "holds st d c" and "fs_ok st" and "off = of_nat (length c)"
  shows "if fb st + total_blocks (nblk (length (c @ p))) \<le> 100 + total_blocks (nblk (length c))
    then \<exists>d' st'. iappend_loop False p off d st = Inr (of_nat (length (c @ p)), d', st')
      \<and> holds st' d' (c @ p) \<and> grown st d (nblk (length c)) st' d' (nblk (length (c @ p)))
    else iappend_loop False p off d st = Inl (Die ''read'')"
  using assms
proof (induction p arbitrary: st d c off rule: length_induct)
  case (1 p)
  note h = 1(2) and ok = 1(3) and off = 1(4)
  show ?case
  proof (cases "p = []")
    case True
    then show ?thesis
      using h ok off fs_okD(2) [OF ok] grown_refl [OF ok]
      by (auto simp: iappend_loop.simps [of False "[]"] holds_def)
  next
    case False
    define k where k: "k = length c div 1024"
    have small: "length c \<le> 54 * 1024" by (rule holds_small [OF h ok])
    then have uoff: "unat off = length c" by (simp add: off unat_of_nat)
    have k268: "k < 268" using small k by (simp add: div_le_mono less_le_trans [of _ 55])
    define n1 where n1: "n1 = min (length p) (Suc k * 1024 - length c)"
    have kc: "k * 1024 \<le> length c" "length c < Suc k * 1024"
      using k dividend_less_times_div [of 1024 "length c"] by (simp_all add: algebra_simps)
    then have n1p: "0 < n1" "n1 \<le> length p" "n1 \<le> Suc k * 1024 - length c" using False by (auto simp: n1)
    have t: "length (take n1 p) = n1" using n1p(2) by simp
    have m1: "nblk (length (c @ take n1 p)) = Suc k"
      using nblk_less [of n1 "length c"] n1p kc(2) t by (simp flip: k)
    have cp: "(c @ take n1 p) @ drop n1 p = c @ p" by simp
    have mono: "total_blocks (Suc k) \<le> total_blocks (nblk (length (c @ p)))"
      using total_blocks_mono [OF nblk_mono [of "length (c @ take n1 p)" "length (c @ p)"]] m1 by simp
    show ?thesis
    proof (cases "fb st + total_blocks (Suc k) \<le> 100 + total_blocks (nblk (length c))")
      case False
      have "iappend_loop False p off d st = Inl (Die ''read'')"
        using file_block_at_full [OF h ok k] False uoff k k268 \<open>p \<noteq> []\<close>
        by (intro iappend_loop_die [where k = k]) auto
      then show ?thesis using False mono by simp
    next
      case True
      obtain x d1 st1 where fbk: "file_block False k d st = Inr (x, d1, st1)" and x: "unat x = addr st1 d1 k"
        and g1: "grown st d (nblk (length c)) st1 d1 (Suc k)"
        and dat: "file_data st1 d1 (Suc k) = c @ replicate (Suc k * 1024 - length c) 0"
        using file_block_at [OF h ok k True] by blast
      have ok1: "fs_ok st1" and inv1: "file_inv st1 d1 (Suc k)" using g1 by (simp_all add: grown_def)
      have x100: "unat x < 100" using file_inv_addr [OF inv1, of k] fs_okD(2) [OF ok1] by (simp add: x)
      define j where j: "j = length c - k * 1024"
      define st2 where st2: "st2 = put_blk (unat x) (take j (blk st1 (unat x)) @ take n1 p @ drop (j + n1) (blk st1 (unat x))) st1"
      have tp: "take n1 p \<noteq> []" "length (take n1 p) \<le> Suc k * 1024 - length c" using n1p False t by auto
      have h2: "holds st2 d1 (c @ take n1 p)" and g2: "grown st1 d1 (Suc k) st2 d1 (Suc k)"
        using holds_write [OF inv1 ok1 dat k tp x j, of st2] by (simp_all only: t st2)
      have g: "grown st d (nblk (length c)) st2 d1 (Suc k)" by (rule grown_trans [OF g1 g2])
      then have fb2: "fb st2 + total_blocks (nblk (length c)) = fb st + total_blocks (Suc k)" and ok2: "fs_ok st2"
        by (simp_all add: grown_def)
      have off2: "off + of_nat n1 = of_nat (length (c @ take n1 p))" using n1p(2) by (simp add: off min_absorb2)
      have step: "iappend_loop False p off d st = iappend_loop False (drop n1 p) (off + of_nat n1) d1 st2"
        using iappend_loop_step [OF _ k268 \<open>p \<noteq> []\<close> fbk rsect_blk [OF fs_okD(1) [OF ok1] x100] _ _, of off n1 j] uoff k
          wsect_blk [OF fs_okD(1) [OF ok1] x100]
        by (simp add: n1 j st2)
      have "length (drop n1 p) < length p" using n1p by simp
      then have IH: "if fb st2 + total_blocks (nblk (length (c @ p))) \<le> 100 + total_blocks (Suc k)
        then \<exists>d' st'. iappend_loop False (drop n1 p) (off + of_nat n1) d1 st2 = Inr (of_nat (length (c @ p)), d', st')
          \<and> holds st' d' (c @ p) \<and> grown st2 d1 (Suc k) st' d' (nblk (length (c @ p)))
        else iappend_loop False (drop n1 p) (off + of_nat n1) d1 st2 = Inl (Die ''read'')"
        using 1(1) h2 ok2 off2 unfolding cp [symmetric] m1 [symmetric] by blast
      have eq: "fb st2 + total_blocks (nblk (length (c @ p))) \<le> 100 + total_blocks (Suc k)
          \<longleftrightarrow> fb st + total_blocks (nblk (length (c @ p))) \<le> 100 + total_blocks (nblk (length c))"
        using fb2 by linarith
      show ?thesis
        using IH grown_trans [OF g] unfolding step eq by (auto split: if_splits)
    qed
  qed
qed

end
