(* ===== verification/MkfsSpec.thy ===== *)
theory MkfsSpec
  imports MkfsAppend
begin

text \<open>
  What mkfs promises: a file system as the list of its files, each with its type and content, inode
  \<open>i + 1\<close> being file \<open>i\<close>; the operations on such lists; and the proof that the operations of
  tools/mkfs/mkfs.c implement them, errors included, on a little endian host.
\<close>

section \<open>Results\<close>

abbreviation agree :: "('s \<Rightarrow> 'a \<Rightarrow> bool) \<Rightarrow> 's result \<Rightarrow> 'a result \<Rightarrow> bool" where
  "agree \<equiv> rel_sum (=)"

lemma agree_bindE:
  "agree R x a \<Longrightarrow> (\<And>s t. R s t \<Longrightarrow> agree S (f s) (g t)) \<Longrightarrow> agree S (bindE x f) (bindE a g)"
  by (auto elim!: rel_sum.cases)

section \<open>File systems\<close>

type_synonym afile = "u16 \<times> u8 list"

definition file_blocks :: "afile \<Rightarrow> nat" where
  "file_blocks f = total_blocks (nblk (length (snd f)))"

text \<open>The first free block.\<close>

definition used :: "afile list \<Rightarrow> nat" where
  "used fs = nmeta + sum_list (map file_blocks fs)"

definition a_append :: "nat \<Rightarrow> u8 list \<Rightarrow> afile list \<Rightarrow> afile list result" where
  "a_append i p fs =
     (let fs' = fs[i := (fst (fs ! i), snd (fs ! i) @ p)] in if used fs' \<le> FSSIZE then Inr fs' else Inl (Die ''read''))"

section \<open>Images of file systems\<close>

definition blocks_of :: "mkfs \<Rightarrow> afile list \<Rightarrow> nat \<Rightarrow> nat list" where
  "blocks_of st fs i = own_blocks st (inode st (i + 1)) (nblk (length (snd (fs ! i))))"

definition no_inode :: dinode where
  "no_inode = \<lparr>di_type = 0, di_major = 0, di_minor = 0, di_nlink = 0, di_size = 0, di_addrs = replicate 13 0\<rparr>"

definition inode_of :: "mkfs \<Rightarrow> dinode \<Rightarrow> afile \<Rightarrow> bool" where
  "inode_of st d f \<longleftrightarrow> holds st d (snd f) \<and> di_type d = fst f \<and> di_major d = 0 \<and> di_minor d = 0 \<and> di_nlink d = 1"

definition tree :: "mkfs \<Rightarrow> afile list \<Rightarrow> bool" where
  "tree st fs \<longleftrightarrow> fs_ok st \<and> length fs \<le> 207 \<and> freeinode st = of_nat (length fs + 1) \<and> fb st = used fs
     \<and> (\<forall>i<length fs. inode_of st (inode st (i + 1)) (fs ! i))
     \<and> (\<forall>i<length fs. \<forall>j<length fs. i \<noteq> j \<longrightarrow> set (blocks_of st fs i) \<inter> set (blocks_of st fs j) = {})
     \<and> (\<forall>i\<in>{0} \<union> {length fs + 1..<208}. inode st i = no_inode)
     \<and> blk st 1 = superblock_bytes False (sb False) @ replicate (BSIZE - 32) 0
     \<and> (\<forall>b\<in>{0} \<union> {2..<32}. blk st b = zeroes)"

definition sized :: "mkfs \<Rightarrow> afile list \<Rightarrow> bool" where
  "sized st fs \<longleftrightarrow> (\<forall>i<length fs. di_size (inode st (i + 1)) = of_nat (length (snd (fs ! i))))"

definition rep :: "mkfs \<Rightarrow> afile list \<Rightarrow> bool" where
  "rep st fs \<longleftrightarrow> tree st fs \<and> sized st fs"

lemma treeD:
  assumes "tree st fs"
  shows "fs_ok st" "length fs \<le> 207" "freeinode st = of_nat (length fs + 1)" "fb st = used fs"
    "\<And>i. i < length fs \<Longrightarrow> inode_of st (inode st (i + 1)) (fs ! i)"
    "\<And>i j. i < length fs \<Longrightarrow> j < length fs \<Longrightarrow> i \<noteq> j \<Longrightarrow> set (blocks_of st fs i) \<inter> set (blocks_of st fs j) = {}"
    "\<And>i. i = 0 \<or> length fs < i \<Longrightarrow> i < 208 \<Longrightarrow> inode st i = no_inode"
    "blk st 1 = superblock_bytes False (sb False) @ replicate 992 0"
    "\<And>b. b = 0 \<or> 2 \<le> b \<Longrightarrow> b < 32 \<Longrightarrow> blk st b = zeroes"
  using assms by (auto simp: tree_def)

lemma tree_blocks:
  assumes "tree st fs" and "i < length fs"
  shows "set (blocks_of st fs i) \<subseteq> {46..<fb st}" and "distinct (blocks_of st fs i)"
  using treeD(5) [OF assms] by (simp_all add: blocks_of_def inode_of_def holds_def file_inv_own)

text \<open>
  Inode \<open>i + 1\<close> is written, and blocks that belong to it or are new: the other files stay.
\<close>

lemma frame:
  assumes t: "tree st fs" and ok: "fs_ok st1" and only: "sectors.only I st st1"
    and I: "I \<subseteq> (if i < length fs then set (blocks_of st fs i) else {}) \<union> {fb st..<fb st1}"
    and mono: "fb st \<le> fb st1" and i: "i < 207" and d: "length (di_addrs d) = 13"
    and st': "st' = put_inode (i + 1) d st1"
  shows "\<And>j. j < 208 \<Longrightarrow> j \<noteq> i + 1 \<Longrightarrow> inode st' j = inode st j"
    and "\<And>j. j < length fs \<Longrightarrow> j \<noteq> i \<Longrightarrow> inode_of st' (inode st (j + 1)) (fs ! j)"
    and "\<And>j. j < length fs \<Longrightarrow> j \<noteq> i \<Longrightarrow> blocks_of st' fs j = blocks_of st fs j"
    and "fs_ok st'" and "blk st' 1 = blk st 1" and "\<And>b. b < 32 \<Longrightarrow> blk st' b = blk st b"
    and "\<And>b. 46 \<le> b \<Longrightarrow> b < 100 \<Longrightarrow> blk st' b = blk st1 b"
proof -
  have disk: "disk_ok st" "disk_ok st1" using treeD(1) [OF t] ok by (simp_all add: fs_okD)
  have fb46: "46 \<le> fb st" using treeD(1) [OF t] by (simp add: fs_ok_def)
  have I46: "I \<subseteq> {46..}"
  proof (cases "i < length fs")
    case True
    have "I \<subseteq> {46..<fb st} \<union> {fb st..<fb st1}" using I tree_blocks(1) [OF t True] True by auto
    then show ?thesis using fb46 by auto
  next
    case False
    then show ?thesis using I fb46 by auto
  qed
  have put: "sectors.only {32..<45} st1 st'"
    unfolding st' using disk(2) i d by (intro put_inode_only) simp_all
  show blk1: "blk st' b = blk st1 b" if "46 \<le> b" "b < 100" for b
    using sectors.only_get [OF put] that by simp
  show low: "blk st' b = blk st b" if "b < 32" for b
  proof -
    have "b \<notin> I" using I46 that by auto
    then have "blk st1 b = blk st b" using that by (intro sectors.only_get [OF only]) auto
    moreover have "blk st' b = blk st1 b" using that by (intro sectors.only_get [OF put]) auto
    ultimately show ?thesis by simp
  qed
  show "blk st' 1 = blk st 1" by (rule low) simp
  show other: "inode st' j = inode st j" if "j < 208" "j \<noteq> i + 1" for j
  proof -
    have "inode st' j = inode st1 j"
      unfolding st' using disk(2) i d that by (intro inodes.get_put_other) auto
    also have "\<dots> = inode st j" using I46 that by (intro inode_only [OF only]) auto
    finally show ?thesis .
  qed
  have frees: "freeblock st' = freeblock st1" by (simp add: st')
  show "fs_ok st'"
    using ok blk1 put unfolding fs_ok_def frees sectors.only_def by simp
  have keep: "blk st' b = blk st b" if "j < length fs" "j \<noteq> i" "b \<in> set (blocks_of st fs j)" for j b
  proof -
    have b: "b \<in> {46..<fb st}" using tree_blocks(1) [OF t that(1)] that(3) by blast
    then have b100: "b < 100" using fs_okD(2) [OF treeD(1) [OF t]] by simp
    have "b \<notin> I"
    proof (cases "i < length fs")
      case True
      then have "b \<notin> set (blocks_of st fs i)" using treeD(6) [OF t that(1) True that(2)] that(3) by blast
      then show ?thesis using I b True by auto
    next
      case False
      then show ?thesis using I b by auto
    qed
    then have "blk st1 b = blk st b" using sectors.only_get [OF only] b100 by simp
    then show ?thesis using blk1 b b100 by simp
  qed
  have le: "fb st \<le> fb st'" using mono frees by simp
  show "inode_of st' (inode st (j + 1)) (fs ! j)" "blocks_of st' fs j = blocks_of st fs j" if "j < length fs" "j \<noteq> i" for j
  proof -
    have "holds st (inode st (j + 1)) (snd (fs ! j))" using treeD(5) [OF t that(1)] by (simp add: inode_of_def)
    note same = holds_cong [OF this keep [OF that, unfolded blocks_of_def] le]
    show "inode_of st' (inode st (j + 1)) (fs ! j)" using treeD(5) [OF t that(1)] same(1) by (simp add: inode_of_def)
    have "inode st' (j + 1) = inode st (j + 1)" using other that treeD(2) [OF t] by simp
    then show "blocks_of st' fs j = blocks_of st fs j" using same(2) by (simp add: blocks_of_def)
  qed
qed

section \<open>The operations\<close>

lemma used_alloc: "used (fs @ [(t, [])]) = used fs"
  by (simp add: used_def file_blocks_def nblk_def total_blocks_def)

lemma used_update:
  assumes "i < length fs"
  shows "used (fs[i := f]) + file_blocks (fs ! i) = used fs + file_blocks f"
proof -
  have "sum_list (map file_blocks (fs[i := f])) = sum_list (map file_blocks fs) + file_blocks f - file_blocks (fs ! i)"
    using assms by (simp add: map_update sum_list_update)
  moreover have "file_blocks (fs ! i) \<le> sum_list (map file_blocks fs)" using assms by (simp add: member_le_sum_list)
  ultimately show ?thesis by (simp add: used_def)
qed

lemma inode_number: "n \<le> 207 \<Longrightarrow> unat (of_nat (n + 1) :: u32) = n + 1"
  unfolding unat_of_nat by simp

lemma holds_empty: "di_addrs d = replicate 13 0 \<Longrightarrow> holds st d []"
  by (simp add: holds_def file_inv_def nblk_def file_data_def data_blocks_def own_blocks_def nth_replicate)

lemma ialloc_adds:
  assumes r: "rep st fs" and room: "length fs < 207"
  shows "\<exists>st'. ialloc False t st = Inr (of_nat (length fs + 1), st') \<and> rep st' (fs @ [(t, [])])"
proof -
  define st1 where st1: "st1 = st\<lparr>freeinode := freeinode st + 1\<rparr>"
  define din where din: "din = \<lparr>di_type = t, di_major = 0, di_minor = 0, di_nlink = 1, di_size = 0, di_addrs = replicate 13 0\<rparr>"
  define st' where st': "st' = put_inode (length fs + 1) din st1"
  have t: "tree st fs" and s: "sized st fs" using r by (simp_all add: rep_def)
  have ok: "fs_ok st" and free: "freeinode st = of_nat (length fs + 1)" using treeD(1,3) [OF t] by simp_all
  have ok1: "fs_ok st1" using ok by (simp add: st1 fs_ok_def)
  have un: "unat (freeinode st) = length fs + 1" unfolding free using room by (intro inode_number) simp
  have only: "sectors.only {} st st1" using ok by (simp add: sectors.only_def st1 fs_ok_def)
  have len: "length (di_addrs din) = 13" by (simp add: din)
  have fb: "fb st \<le> fb st1" by (simp add: st1)
  note fr = frame [OF t ok1 only _ fb room len st', simplified]
  have new: "inode st' (length fs + 1) = din"
    unfolding st' using fs_okD(1) [OF ok1] room len by (intro inodes.get_put_same) auto
  have old: "inode st' (Suc j) = inode st (Suc j)" if "j < length fs" for j using fr(1) [of "Suc j"] that room by simp
  have il: "ialloc False t st = Inr (of_nat (length fs + 1), st')"
    using winode_inode [OF fs_okD(1) [OF ok1], of "freeinode st" din] un room
    by (simp add: ialloc_def Let_def st' din st1 flip: free) (simp add: free)
  let ?fs = "fs @ [(t, [])]"
  have blocks: "blocks_of st' ?fs j = (if j < length fs then blocks_of st fs j else [])" if "j < length ?fs" for j
    using that fr(3) [of j]
    by (auto simp: blocks_of_def nth_append nblk_def own_blocks_def data_blocks_def less_Suc_eq)
  have files: "inode_of st' (inode st' (j + 1)) (?fs ! j)" if "j < length ?fs" for j
  proof (cases "j < length fs")
    case True
    then show ?thesis using fr(2) [of j] old [of j] by (simp add: nth_append)
  next
    case False
    then have "j = length fs" using that by simp
    then show ?thesis using new by (simp add: inode_of_def holds_empty din)
  qed
  have "tree st' ?fs"
    unfolding tree_def
  proof (intro conjI ballI allI impI)
    show "fs_ok st'" by (rule fr(4))
    show "length ?fs \<le> 207" using room by simp
    show "freeinode st' = of_nat (length ?fs + 1)" by (simp add: st' st1 free)
    show "fb st' = used ?fs" using treeD(4) [OF t] by (simp add: used_alloc st' st1)
    show "inode_of st' (inode st' (j + 1)) (?fs ! j)" if "j < length ?fs" for j using that by (rule files)
    show "set (blocks_of st' ?fs j) \<inter> set (blocks_of st' ?fs k) = {}" if "j < length ?fs" "k < length ?fs" "j \<noteq> k" for j k
      using blocks [OF that(1)] blocks [OF that(2)] treeD(6) [OF t, of j k] that(3) by auto
    show "inode st' j = no_inode" if "j \<in> {0} \<union> {length ?fs + 1..<208}" for j
      using that fr(1) [of j] treeD(7) [OF t, of j] by auto
    show "blk st' 1 = superblock_bytes False (sb False) @ replicate (1024 - 32) 0" using fr(5) treeD(8) [OF t] by simp
    show "blk st' b = zeroes" if "b \<in> {0} \<union> {2..<32}" for b using that fr(6) [of b] treeD(9) [OF t, of b] by auto
  qed
  moreover have "sized st' ?fs"
    unfolding sized_def
  proof (intro allI impI)
    fix j assume "j < length ?fs"
    then show "di_size (inode st' (j + 1)) = of_nat (length (snd (?fs ! j)))"
      using s old [of j] new by (cases "j < length fs") (auto simp: sized_def nth_append din less_Suc_eq)
  qed
  ultimately show ?thesis using il by (auto simp: rep_def)
qed

lemma size_free [simp]:
  "holds st (d\<lparr>di_size := n\<rparr>) c = holds st d c" "own_blocks st (d\<lparr>di_size := n\<rparr>) m = own_blocks st d m"
proof -
  have "indirect st (d\<lparr>di_size := n\<rparr>) = indirect st d" by (simp add: indirect_def)
  then have a: "data_blocks st (d\<lparr>di_size := n\<rparr>) m = data_blocks st d m" for m by (simp add: data_blocks_def addr_def)
  then show o: "own_blocks st (d\<lparr>di_size := n\<rparr>) m = own_blocks st d m" for m by (simp add: own_blocks_def)
  show "holds st (d\<lparr>di_size := n\<rparr>) c = holds st d c"
    by (simp add: holds_def file_inv_def file_data_def a o indirect_def)
qed

lemma iappend_appends:
  assumes r: "rep st fs" and i: "i < length fs"
  shows "agree rep (iappend False (of_nat (i + 1)) p st) (a_append i p fs)"
proof -
  have t: "tree st fs" and s: "sized st fs" using r by (simp_all add: rep_def)
  have ok: "fs_ok st" and l: "length fs \<le> 207" using treeD(1,2) [OF t] by simp_all
  obtain ty c where f: "fs ! i = (ty, c)" by (cases "fs ! i")
  define d where d: "d = inode st (i + 1)"
  define fs' where fs': "fs' = fs[i := (ty, c @ p)]"
  have un: "unat (of_nat (i + 1) :: u32) = i + 1" using i l by (intro inode_number) simp
  have rd: "rinode False (of_nat (i + 1)) st = Inr d"
    using rinode_inode [OF fs_okD(1) [OF ok], of "of_nat (i + 1)"] i l unfolding un d by simp
  have h: "holds st d c" and attrs: "di_type d = ty" "di_major d = 0" "di_minor d = 0" "di_nlink d = 1"
    using treeD(5) [OF t i] f by (simp_all add: inode_of_def d)
  have size: "di_size d = of_nat (length c)" using s i f by (simp add: sized_def d)
  have usedeq: "used fs' + total_blocks (nblk (length c)) = fb st + total_blocks (nblk (length (c @ p)))"
    using used_update [OF i, of "(ty, c @ p)"] treeD(4) [OF t] f by (simp add: fs' file_blocks_def)
  note loop = iappend_loop_appends [OF h ok refl, of p]
  have abs: "a_append i p fs = (if used fs' \<le> 100 then Inr fs' else Inl (Die ''read''))"
    by (simp add: a_append_def fs' f Let_def)
  show ?thesis
  proof (cases "used fs' \<le> 100")
    case False
    then have "iappend_loop False p (of_nat (length c)) d st = Inl (Die ''read'')"
      using loop usedeq by (simp split: if_splits)
    then show ?thesis using False rd size by (simp add: iappend_def abs)
  next
    case True
    then obtain d1 st1 where step: "iappend_loop False p (of_nat (length c)) d st = Inr (of_nat (length (c @ p)), d1, st1)"
      and h1: "holds st1 d1 (c @ p)" and g: "grown st d (nblk (length c)) st1 d1 (nblk (length (c @ p)))"
      using loop usedeq by (auto split: if_splits)
    have ok1: "fs_ok st1" using g by (simp add: grown_def)
    define d2 where d2: "d2 = d1\<lparr>di_size := of_nat (length (c @ p))\<rparr>"
    define st' where st': "st' = put_inode (i + 1) d2 st1"
    have i208: "i + 1 < 208" using i l by simp
    have ia: "iappend False (of_nat (i + 1)) p st = Inr st'"
      using winode_inode [OF fs_okD(1) [OF ok1], of "of_nat (i + 1)" d2] i208
      by (simp only: un iappend_def rd bindE.simps size xint_le step prod.case st' d2)
    have fb1: "fb st \<le> fb st1"
    proof -
      have "total_blocks (nblk (length c)) \<le> total_blocks (nblk (length (c @ p)))"
        by (intro total_blocks_mono nblk_mono) simp
      then show ?thesis using g unfolding grown_def by linarith
    qed
    have own1: "set (own_blocks st1 d1 (nblk (length (c @ p)))) = set (blocks_of st fs i) \<union> {fb st..<fb st1}"
      using g unfolding grown_def blocks_of_def f d by simp
    have only: "sectors.only (set (own_blocks st1 d1 (nblk (length (c @ p))))) st st1"
      using g unfolding grown_def by blast
    have len: "length (di_addrs d2) = 13" using h1 by (simp add: holds_def file_inv_def d2)
    have i207: "i < 207" using i208 by simp
    note fr = frame [OF t ok1 only _ fb1 i207 len st', unfolded own1, simplified i if_True, OF order_refl]
    have eqblk: "blk st' b = blk st1 b" if "b \<in> set (own_blocks st1 d2 (nblk (length (c @ p))))" for b
    proof -
      have "file_inv st1 d1 (nblk (length (c @ p)))" using h1 by (simp add: holds_def)
      then have "set (own_blocks st1 d1 (nblk (length (c @ p)))) \<subseteq> {46..<fb st1}" by (rule file_inv_own(2))
      then have "b \<in> {46..<fb st1}" using that unfolding d2 size_free by blast
      then show ?thesis using fr(7) [of b] fs_okD(2) [OF ok1] by simp
    qed
    have "holds st1 d2 (c @ p)" using h1 by (simp add: d2)
    moreover have "fb st1 \<le> fb st'" by (simp add: st')
    ultimately have h2: "holds st' d2 (c @ p)"
      "own_blocks st' d2 (nblk (length (c @ p))) = own_blocks st1 d2 (nblk (length (c @ p)))"
      using holds_cong [of st1 d2 "c @ p" st'] eqblk by blast+
    have new: "inode st' (i + 1) = d2"
      unfolding st' using fs_okD(1) [OF ok1] i208 len by (intro inodes.get_put_same) auto
    have attrs2: "di_type d2 = ty" "di_major d2 = 0" "di_minor d2 = 0" "di_nlink d2 = 1"
    proof -
      have e: "d1\<lparr>di_addrs := di_addrs d\<rparr> = d" using g unfolding grown_def by blast
      show "di_type d2 = ty" "di_major d2 = 0" "di_minor d2 = 0" "di_nlink d2 = 1"
        using attrs arg_cong [OF e, of di_type] arg_cong [OF e, of di_major] arg_cong [OF e, of di_minor]
          arg_cong [OF e, of di_nlink] by (simp_all add: d2)
    qed
    have old: "inode st' (j + 1) = inode st (j + 1)" if "j < length fs" "j \<noteq> i" for j
      using fr(1) [of "j + 1"] that l by simp
    have blocks: "set (blocks_of st' fs' j) = (if j = i then set (blocks_of st fs i) \<union> {fb st..<fb st1} else set (blocks_of st fs j))"
      if "j < length fs'" for j
    proof (cases "j = i")
      case True
      then show ?thesis using h2(2) new i own1 by (simp add: blocks_of_def fs' d2)
    next
      case False
      then show ?thesis using fr(3) [of j] that by (simp add: blocks_of_def fs')
    qed
    have "tree st' fs'"
      unfolding tree_def
    proof (intro conjI ballI allI impI)
      show "fs_ok st'" by (rule fr(4))
      show "length fs' \<le> 207" using l by (simp add: fs')
      show "freeinode st' = of_nat (length fs' + 1)" using g treeD(3) [OF t] by (simp add: st' grown_def fs')
      show "fb st' = used fs'" using g usedeq by (simp add: st' grown_def)
      show "inode_of st' (inode st' (j + 1)) (fs' ! j)" if "j < length fs'" for j
      proof (cases "j = i")
        case True
        then show ?thesis using h2(1) new attrs2 i by (simp add: inode_of_def fs')
      next
        case False
        then show ?thesis using fr(2) [of j] old [of j] that by (simp add: fs')
      qed
      show "set (blocks_of st' fs' j) \<inter> set (blocks_of st' fs' k) = {}"
        if "j < length fs'" "k < length fs'" "j \<noteq> k" for j k
      proof -
        have "j < length fs" "k < length fs" using that by (simp_all add: fs')
        then have "set (blocks_of st fs j) \<inter> set (blocks_of st fs k) = {}"
          "set (blocks_of st fs j) \<subseteq> {46..<fb st}" "set (blocks_of st fs k) \<subseteq> {46..<fb st}"
          using treeD(6) [OF t] tree_blocks(1) [OF t] that(3) by blast+
        then show ?thesis
          unfolding blocks [OF that(1)] blocks [OF that(2)] using that(3) by (cases "j = i"; cases "k = i") auto
      qed
      show "inode st' j = no_inode" if "j \<in> {0} \<union> {length fs' + 1..<208}" for j
        using that fr(1) [of j] treeD(7) [OF t, of j] i by (auto simp: fs')
      show "blk st' 1 = superblock_bytes False (sb False) @ replicate (1024 - 32) 0" using fr(5) treeD(8) [OF t] by simp
      show "blk st' b = zeroes" if "b \<in> {0} \<union> {2..<32}" for b using that fr(6) [of b] treeD(9) [OF t, of b] by auto
    qed
    moreover have "sized st' fs'"
      unfolding sized_def
    proof (intro allI impI)
      fix j assume "j < length fs'"
      then show "di_size (inode st' (j + 1)) = of_nat (length (snd (fs' ! j)))"
        using s new old [of j] by (cases "j = i") (auto simp: sized_def fs' d2)
    qed
    ultimately have "rep st' fs'" by (simp add: rep_def)
    then show ?thesis using ia True by (simp add: abs)
  qed
qed

end
