(* ===== verification/MkfsImage.thy ===== *)
theory MkfsImage
  imports MkfsSpec
begin

text \<open>
  The whole run of mkfs, \<open>main\<close> of tools/mkfs/mkfs.c, on a little endian host: the file system it
  describes, the images it writes, and when it fails.
\<close>

section \<open>The program on lists of files\<close>

definition short_name :: "string \<Rightarrow> string" where
  "short_name arg = strip_underscore (strip_user arg)"

definition a_add :: "host \<Rightarrow> string \<Rightarrow> afile list \<Rightarrow> afile list result" where
  "a_add h arg fs =
     (if CHR ''/'' \<in> set (strip_user arg) then Inl (Assertion ''index(shortname, '/') == 0'')
      else case read_file h arg of
        None \<Rightarrow> Inl (Die arg)
      | Some chunks \<Rightarrow>
          bindE (a_append 0 (entry False (of_nat (length fs + 1)) (short_name arg)) (fs @ [(T_FILE, [])]))
            (foldE (a_append (length fs)) chunks))"

definition dots :: "u8 list" where
  "dots = entry False 1 ''.'' @ entry False 1 ''..''"

definition a_files :: "host \<Rightarrow> string list \<Rightarrow> afile list result" where
  "a_files h files = foldE (a_add h) files [(T_DIR, dots)]"

section \<open>The files\<close>

lemma agree_foldE:
  assumes "R s t" and "\<And>x s t. x \<in> set xs \<Longrightarrow> R s t \<Longrightarrow> agree R (f x s) (g x t)"
  shows "agree R (foldE f xs s) (foldE g xs t)"
  using assms
proof (induction xs arbitrary: s t)
  case (Cons x xs)
  have "agree R (f x s) (g x t)" using Cons.prems by simp
  then show ?case
    unfolding foldE.simps by (rule agree_bindE) (use Cons in simp)
qed simp

lemma a_append_length: "a_append i p fs = Inr fs' \<Longrightarrow> length fs' = length fs"
  by (auto simp: a_append_def Let_def split: if_splits)

lemma foldE_length: "foldE (a_append i) ps fs = Inr fs' \<Longrightarrow> length fs' = length fs"
  by (induction ps arbitrary: fs) (auto dest: a_append_length elim!: bindE.elims split: sum.splits)

lemma bindE_Inr: "bindE x f = Inr y \<longleftrightarrow> (\<exists>z. x = Inr z \<and> f z = Inr y)"
  by (cases x) simp_all

lemma add_file_adds:
  assumes r: "rep st fs" and room: "length fs < 207" and one: "0 < length fs"
  shows "agree (\<lambda>st' fs'. rep st' fs' \<and> length fs' = length fs + 1) (add_file False h arg st) (a_add h arg fs)"
proof (cases "CHR ''/'' \<in> set (strip_user arg)")
  case True
  then show ?thesis by (simp add: add_file_def a_add_def require_def Let_def)
next
  case False
  show ?thesis
  proof (cases "read_file h arg")
    case None
    then show ?thesis using False by (simp add: add_file_def a_add_def require_def Let_def)
  next
    case (Some chunks)
    let ?n = "length fs + 1" and ?fs = "fs @ [(T_FILE, [])]"
    let ?R = "\<lambda>st' fs'. rep st' fs' \<and> length fs' = ?n"
    obtain st1 where st1: "ialloc False T_FILE st = Inr (of_nat ?n, st1)" and r1: "rep st1 ?fs"
      using ialloc_adds [OF r room] by blast
    have append: "agree ?R (iappend False (of_nat (i + 1)) p s) (a_append i p t)" if "i < ?n" "?R s t" for i p s t
    proof -
      have "agree rep (iappend False (of_nat (i + 1)) p s) (a_append i p t)"
        using that by (intro iappend_appends) simp_all
      then show ?thesis
        using a_append_length [of i p t] that by (cases "a_append i p t") (auto elim!: rel_sum.cases)
    qed
    have "agree ?R (iappend False (of_nat (0 + 1)) (entry False (of_nat ?n) (short_name arg)) st1)
        (a_append 0 (entry False (of_nat ?n) (short_name arg)) ?fs)"
      using one r1 by (intro append) simp_all
    then have "agree ?R (bindE (iappend False 1 (entry False (of_nat ?n) (short_name arg)) st1) (foldE (iappend False (of_nat ?n)) chunks))
        (bindE (a_append 0 (entry False (of_nat ?n) (short_name arg)) ?fs) (foldE (a_append (length fs)) chunks))"
      by (intro agree_bindE agree_foldE append) simp_all
    then show ?thesis
      using False Some st1 by (simp add: add_file_def a_add_def require_def Let_def short_name_def)
  qed
qed

lemma files_added:
  assumes "rep st fs" and "0 < length fs" and "length fs + length files \<le> 207"
  shows "agree rep (foldE (add_file False h) files st) (foldE (a_add h) files fs)"
  using assms
proof (induction files arbitrary: st fs)
  case (Cons arg files)
  have "agree (\<lambda>st' fs'. rep st' fs' \<and> length fs' = length fs + 1) (add_file False h arg st) (a_add h arg fs)"
    using Cons.prems by (intro add_file_adds) simp_all
  then show ?case
    unfolding foldE.simps
    by (rule agree_bindE) (rule Cons.IH, use Cons.prems in auto)
qed simp

section \<open>The empty file system\<close>

lemma zero_image:
  "n \<le> 100 \<Longrightarrow> fold (\<lambda>i. wsect (of_nat i) zeroes) [0..<n] \<lparr>img = [], freeinode = i, freeblock = b\<rparr>
    = \<lparr>img = replicate n zeroes, freeinode = i, freeblock = b\<rparr>"
proof (induction n)
  case (Suc n)
  have "unat (of_nat n :: u32) = n" using Suc.prems unfolding unat_of_nat by simp
  then have "sector (of_nat n) = n" using Suc.prems sector_small [of "of_nat n"] by simp
  then show ?case using Suc by (simp add: wsect_def replicate_append_same)
qed simp

lemma no_inode_zeroes: "k + 64 \<le> 1024 \<Longrightarrow> load_dinode False (take 64 (drop k zeroes)) = no_inode"
proof -
  assume k: "k + 64 \<le> 1024"
  have "dinode_bytes False no_inode = replicate 64 0"
    by (simp add: dinode_bytes_def no_inode_def store16_def store32_def le16_def le32_def eval_nat_numeral)
  moreover have "take 64 (drop k zeroes) = replicate 64 0" using k by (simp add: zeroes_def)
  ultimately show ?thesis using load_dinode_bytes [of no_inode False "[]"] by (simp add: no_inode_def)
qed

definition blank :: mkfs where
  "blank = put_blk 1 (superblock_bytes False (sb False) @ replicate 992 0)
     \<lparr>img = replicate 100 zeroes, freeinode = 1, freeblock = 46\<rparr>"

lemma superblock_length: "length (superblock_bytes be s) = 32"
  by (simp add: superblock_bytes_def)

lemma blank_rep: "rep blank []"
proof -
  have blk: "blk blank b = (if b = 1 then superblock_bytes False (sb False) @ replicate 992 0 else zeroes)" if "b < 100" for b
    using that by (simp add: blank_def put_blk_def blk_def nth_list_update)
  have "disk_ok blank"
    using superblock_length by (auto simp: disk_ok_def blank_def put_blk_def nth_list_update zeroes_def)
  moreover have "inode blank i = no_inode" if "i < 208" for i
    using that blk [of "32 + i div 16"] by (simp add: inode_def no_inode_zeroes)
  ultimately show ?thesis
    using blk by (simp add: rep_def tree_def sized_def fs_ok_def used_def) (simp add: blank_def)
qed

lemma make_root_makes: "\<exists>st. make_root False = Inr st \<and> rep st [(T_DIR, dots)]"
proof -
  have blank: "wsect 1 (superblock_bytes False (sb False) @ replicate (1024 - 32) 0)
      (fold (\<lambda>i. wsect (of_nat i) zeroes) [0..<100] \<lparr>img = [], freeinode = 1, freeblock = of_nat nmeta\<rparr>) = blank"
    unfolding zero_image [OF order_refl] blank_def by (subst wsect_blk) (simp_all add: disk_ok_def zeroes_def)
  obtain st1 where st1: "ialloc False T_DIR blank = Inr (1, st1)" and r1: "rep st1 [(T_DIR, [])]"
    using ialloc_adds [OF blank_rep, of T_DIR] by auto
  have len: "length (entry False i n) = 16" for i n by (simp add: entry_def dirent_bytes_def)
  have *: "agree rep (iappend False 1 (entry False 1 ''.'') st1) (a_append 0 (entry False 1 ''.'') [(T_DIR, [])])"
    using iappend_appends [OF r1, of 0] by simp
  have "a_append 0 (entry False 1 ''.'') [(T_DIR, [])] = Inr [(T_DIR, entry False 1 ''.'')]"
    by (simp add: a_append_def used_def file_blocks_def len nblk_def total_blocks_def)
  then obtain st2 where st2: "iappend False 1 (entry False 1 ''.'') st1 = Inr st2" and r2: "rep st2 [(T_DIR, entry False 1 ''.'')]"
    using * by (auto elim: rel_sum.cases)
  have *: "agree rep (iappend False 1 (entry False 1 ''..'') st2) (a_append 0 (entry False 1 ''..'') [(T_DIR, entry False 1 ''.'')])"
    using iappend_appends [OF r2, of 0] by simp
  have "a_append 0 (entry False 1 ''..'') [(T_DIR, entry False 1 ''.'')] = Inr [(T_DIR, dots)]"
    by (simp add: a_append_def used_def file_blocks_def len nblk_def total_blocks_def dots_def)
  then obtain st3 where "iappend False 1 (entry False 1 ''..'') st2 = Inr st3" and "rep st3 [(T_DIR, dots)]"
    using * by (auto elim: rel_sum.cases)
  then show ?thesis
    using st1 st2 unfolding make_root_def Let_def blank by (simp add: require_def)
qed

section \<open>The bitmap\<close>

lemma bitmap_loop_Suc:
  "bitmap_loop (Suc n) = (bitmap_loop n)[n div 8 := (bitmap_loop n ! (n div 8)) OR push_bit (n mod 8) 1]"
  by (simp add: bitmap_loop_def)

lemma bitmap_loop_length [simp]: "length (bitmap_loop n) = 1024"
  by (induction n) (simp_all add: bitmap_loop_Suc, simp add: bitmap_loop_def)

lemma bitmap_loop_bits: "n \<le> 8192 \<Longrightarrow> b < 8192 \<Longrightarrow> bit (bitmap_loop n ! (b div 8)) (b mod 8) \<longleftrightarrow> b < n"
proof (induction n)
  case 0
  then show ?case by (simp add: bitmap_loop_def)
next
  case (Suc n)
  have n: "n div 8 < 1024" using Suc.prems by (simp add: div_less_iff_less_mult)
  have "b = n \<longleftrightarrow> b div 8 = n div 8 \<and> b mod 8 = n mod 8" by (metis div_mult_mod_eq)
  then show ?case
    using Suc n by (auto simp: bitmap_loop_Suc nth_list_update bit_or_iff bit_exp_iff possible_bit_word less_Suc_eq)
qed

section \<open>The finished image\<close>

definition rounded :: "nat \<Rightarrow> nat" where
  "rounded n = (n div BSIZE + 1) * BSIZE"

definition image_of :: "mkfs \<Rightarrow> afile list \<Rightarrow> bool" where
  "image_of st fs \<longleftrightarrow> tree st fs
     \<and> di_size (inode st 1) = of_nat (rounded (length (snd (fs ! 0))))
     \<and> (\<forall>i. 0 < i \<and> i < length fs \<longrightarrow> di_size (inode st (i + 1)) = of_nat (length (snd (fs ! i))))
     \<and> blk st 45 = bitmap_loop (used fs)"

lemma fix_root_size_fixes:
  assumes r: "rep st fs" and one: "0 < length fs"
  shows "\<exists>st'. fix_root_size False st = Inr st' \<and> tree st' fs \<and> freeblock st' = freeblock st
    \<and> di_size (inode st' 1) = of_nat (rounded (length (snd (fs ! 0))))
    \<and> (\<forall>i. 0 < i \<and> i < length fs \<longrightarrow> di_size (inode st' (i + 1)) = of_nat (length (snd (fs ! i))))"
proof -
  have t: "tree st fs" and s: "sized st fs" using r by (simp_all add: rep_def)
  have ok: "fs_ok st" and l: "length fs \<le> 207" using treeD(1,2) [OF t] by simp_all
  let ?c = "snd (fs ! 0)"
  define d where d: "d = inode st 1"
  define d' where d': "d' = d\<lparr>di_size := of_nat (rounded (length ?c))\<rparr>"
  define st' where st': "st' = put_inode (0 + 1) d' st"
  have size: "di_size d = of_nat (length ?c)" using s one by (simp add: sized_def d)
  have root: "inode_of st d (fs ! 0)" using treeD(5) [OF t one] by (simp add: d)
  then have small: "length ?c \<le> 54 * 1024" by (intro holds_small [of st d, OF _ ok]) (simp add: inode_of_def)
  have un: "unat (of_nat (length ?c) :: u32) = length ?c" using small unfolding unat_of_nat by simp
  have "length ?c div 1024 \<le> 54" using div_le_mono [OF small, of 1024] by simp
  then have "unat (of_nat (length ?c div 1024) :: u32) = length ?c div 1024" unfolding unat_of_nat by simp
  then have "(of_nat (length ?c) div 1024 :: u32) = of_nat (length ?c div 1024)"
    using un by (simp add: word_unat_eq_iff unat_div)
  then have round: "(of_nat (length ?c) div of_nat 1024 + 1) * of_nat 1024 = (of_nat (rounded (length ?c)) :: u32)"
    unfolding rounded_def by simp
  have rd: "rinode False 1 st = Inr d" using rinode_inode [OF fs_okD(1) [OF ok], of 1] by (simp add: d)
  have wr: "winode False 1 d' st = Inr st'" using winode_inode [OF fs_okD(1) [OF ok], of 1 d'] by (simp add: st')
  have fixed: "fix_root_size False st = Inr st'"
    unfolding fix_root_size_def rd bindE.simps Let_def xint_le size round by (rule wr [unfolded d'])
  have len: "length (di_addrs d') = 13" using root by (simp add: inode_of_def holds_def file_inv_def d')
  have "sectors.only {} st st" using fs_okD(1) [OF ok] by (rule sectors.only_refl)
  note fr = frame [OF t ok this _ order_refl _ len st', simplified]
  have new: "inode st' 1 = d'"
    using inodes.get_put_same [OF fs_okD(1) [OF ok], of 1 d'] len by (simp add: st')
  have old: "inode st' (j + 1) = inode st (j + 1)" if "j < length fs" "j \<noteq> 0" for j
    using fr(1) [of "j + 1"] that l by simp
  have eqblk: "blk st' b = blk st b" if "b \<in> set (blocks_of st fs j)" "j < length fs" for b j
  proof -
    have "b \<in> {46..<fb st}" using tree_blocks(1) [OF t that(2)] that(1) by blast
    then show ?thesis using fr(7) [of b] fs_okD(2) [OF ok] by simp
  qed
  have le: "fb st \<le> fb st'" by (simp add: st')
  have b0: "blocks_of st fs 0 = own_blocks st d (nblk (length ?c))" by (simp add: blocks_of_def d)
  then have eq0: "\<And>b. b \<in> set (own_blocks st d (nblk (length ?c))) \<Longrightarrow> blk st' b = blk st b" using eqblk [OF _ one] by simp
  have "holds st d ?c" using root by (simp add: inode_of_def)
  then have "holds st' d ?c" "own_blocks st' d (nblk (length ?c)) = own_blocks st d (nblk (length ?c))"
    using holds_cong [OF _ eq0 le] by blast+
  then have root': "inode_of st' (inode st' 1) (fs ! 0)" and rootb: "blocks_of st' fs 0 = blocks_of st fs 0"
    using root new by (simp_all add: b0) (simp_all add: inode_of_def blocks_of_def d')
  have blocks: "blocks_of st' fs j = blocks_of st fs j" if "j < length fs" for j
    using fr(3) [of j] rootb that by (cases j) auto
  have "tree st' fs"
    unfolding tree_def
  proof (intro conjI ballI allI impI)
    show "fs_ok st'" by (rule fr(4))
    show "length fs \<le> 207" by (rule l)
    show "freeinode st' = of_nat (length fs + 1)" "fb st' = used fs" using treeD(3,4) [OF t] by (simp_all add: st')
    show "inode_of st' (inode st' (j + 1)) (fs ! j)" if "j < length fs" for j
      using fr(2) [of j] old [of j] root' that by (cases j) auto
    show "set (blocks_of st' fs j) \<inter> set (blocks_of st' fs k) = {}" if "j < length fs" "k < length fs" "j \<noteq> k" for j k
      using treeD(6) [OF t that] blocks that by simp
    show "inode st' j = no_inode" if "j \<in> {0} \<union> {length fs + 1..<208}" for j
      using that fr(1) [of j] treeD(7) [OF t, of j] one by (cases "j = 1") auto
    show "blk st' 1 = superblock_bytes False (sb False) @ replicate (1024 - 32) 0" using fr(5) treeD(8) [OF t] by simp
    show "blk st' b = zeroes" if "b \<in> {0} \<union> {2..<32}" for b using that fr(6) [of b] treeD(9) [OF t, of b] by auto
  qed
  moreover have "di_size (inode st' 1) = of_nat (rounded (length ?c))" unfolding new d' by simp
  moreover have "di_size (inode st' (j + 1)) = of_nat (length (snd (fs ! j)))" if "0 < j \<and> j < length fs" for j
    using old [of j] s that by (simp add: sized_def)
  moreover have "freeblock st' = freeblock st" by (simp add: st')
  ultimately show ?thesis using fixed by blast
qed

lemma balloc_writes:
  assumes t: "tree st fs"
  shows "balloc False (freeblock st) st = Inr (put_blk 45 (bitmap_loop (used fs)) st)"
    and "tree (put_blk 45 (bitmap_loop (used fs)) st) fs"
    and "blk (put_blk 45 (bitmap_loop (used fs)) st) 45 = bitmap_loop (used fs)"
    and "i < 208 \<Longrightarrow> inode (put_blk 45 (bitmap_loop (used fs)) st) i = inode st i"
proof -
  let ?st' = "put_blk 45 (bitmap_loop (used fs)) st"
  have ok: "fs_ok st" using treeD(1) [OF t] .
  then have disk: "disk_ok st" and fb: "fb st \<le> 100" by (rule fs_okD)+
  have un: "unat (freeblock st) = used fs" by (rule treeD(4) [OF t])
  have "uint (freeblock st) = int (used fs)" unfolding uint_nat un ..
  moreover have "used fs < 2 ^ 31" using fb un by simp
  ultimately have "sint (freeblock st) = int (used fs)"
    unfolding sint_uint by (simp add: signed_take_bit_int_eq_self)
  then show "balloc False (freeblock st) st = Inr ?st'"
    using wsect_blk [OF disk, of 45 "bitmap_loop (used fs)"] fb un
    by (simp add: balloc_def require_def sb_def)
  have only: "sectors.only {45} st ?st'" using disk by (intro sectors.only_put) simp_all
  have blk: "blk ?st' b = blk st b" if "b < 100" "b \<noteq> 45" for b using sectors.only_get [OF only] that by simp
  show "blk ?st' 45 = bitmap_loop (used fs)" using disk by (intro sectors.get_put_same) simp_all
  show inode: "inode ?st' i = inode st i" if "i < 208" for i by (rule inode_only [OF only _ that]) simp
  have ok': "fs_ok ?st'" using fb ok by (intro fs_ok_put_blk) (auto simp: fs_ok_def)
  have kept: "inode_of ?st' (inode st (j + 1)) (fs ! j)" "blocks_of ?st' fs j = blocks_of st fs j" if "j < length fs" for j
  proof -
    have f: "inode_of st (inode st (j + 1)) (fs ! j)" by (rule treeD(5) [OF t that])
    have "blk ?st' b = blk st b" if "b \<in> set (blocks_of st fs j)" for b
    proof -
      have "b \<in> {46..<fb st}" using tree_blocks(1) [OF t \<open>j < length fs\<close>] that by blast
      then show ?thesis using blk [of b] fb by simp
    qed
    then have "holds ?st' (inode st (j + 1)) (snd (fs ! j))"
      "own_blocks ?st' (inode st (j + 1)) (nblk (length (snd (fs ! j)))) = blocks_of st fs j"
      using holds_cong [of st "inode st (j + 1)" "snd (fs ! j)" ?st'] f by (simp_all add: blocks_of_def inode_of_def)
    then show "inode_of ?st' (inode st (j + 1)) (fs ! j)" "blocks_of ?st' fs j = blocks_of st fs j"
      using f inode [of "j + 1"] that treeD(2) [OF t] by (simp_all add: inode_of_def blocks_of_def)
  qed
  show "tree ?st' fs"
    unfolding tree_def
  proof (intro conjI ballI allI impI)
    show "fs_ok ?st'" by (rule ok')
    show "length fs \<le> 207" "freeinode ?st' = of_nat (length fs + 1)" "fb ?st' = used fs" using treeD(2,3,4) [OF t] by simp_all
    show "inode_of ?st' (inode ?st' (j + 1)) (fs ! j)" if "j < length fs" for j
      using kept(1) [OF that] inode [of "j + 1"] that treeD(2) [OF t] by simp
    show "set (blocks_of ?st' fs j) \<inter> set (blocks_of ?st' fs k) = {}" if "j < length fs" "k < length fs" "j \<noteq> k" for j k
      using treeD(6) [OF t that] kept(2) that by simp
    show "inode ?st' j = no_inode" if "j \<in> {0} \<union> {length fs + 1..<208}" for j
      using that inode [of j] treeD(7) [OF t, of j] by auto
    show "blk ?st' 1 = superblock_bytes False (sb False) @ replicate (1024 - 32) 0" using blk [of 1] treeD(8) [OF t] by simp
    show "blk ?st' b = zeroes" if "b \<in> {0} \<union> {2..<32}" for b using that blk [of b] treeD(9) [OF t, of b] by auto
  qed
qed

lemma a_files_length: "foldE (a_add h) files fs = Inr fs' \<Longrightarrow> length fs' = length fs + length files"
proof (induction files arbitrary: fs)
  case (Cons f files)
  then obtain fs1 where "a_add h f fs = Inr fs1" and "foldE (a_add h) files fs1 = Inr fs'" by (auto simp: bindE_Inr)
  moreover from this have "length fs1 = length fs + 1"
    by (auto simp: a_add_def bindE_Inr split: if_splits option.splits dest!: a_append_length foldE_length)
  ultimately show ?case using Cons.IH by simp
qed simp

lemma mkfs_main_agrees:
  assumes "can_create h path" and "length files \<le> 206"
  shows "agree image_of (mkfs_main False h (path # files)) (a_files h files)"
proof -
  obtain st where root: "make_root False = Inr st" and r: "rep st [(T_DIR, dots)]"
    using make_root_makes by blast
  have "agree rep (foldE (add_file False h) files st) (a_files h files)"
    unfolding a_files_def using assms(2) by (intro files_added [OF r]) simp_all
  then consider e where "foldE (add_file False h) files st = Inl e" "a_files h files = Inl e"
    | st1 fs where "foldE (add_file False h) files st = Inr st1" "a_files h files = Inr fs" "rep st1 fs"
    by (auto elim: rel_sum.cases)
  then show ?thesis
  proof cases
    case 1
    then show ?thesis using assms(1) root by (simp add: mkfs_main_def)
  next
    case 2
    have l: "length fs = 1 + length files" using a_files_length [of h files] 2(2) by (simp add: a_files_def)
    then have one: "0 < length fs" by simp
    obtain st2 where fixed: "fix_root_size False st1 = Inr st2" and t2: "tree st2 fs"
      and sizes: "di_size (inode st2 1) = of_nat (rounded (length (snd (fs ! 0))))"
        "\<And>i. 0 < i \<and> i < length fs \<Longrightarrow> di_size (inode st2 (i + 1)) = of_nat (length (snd (fs ! i)))"
      using fix_root_size_fixes [OF 2(3) one] by blast
    have "image_of (put_blk 45 (bitmap_loop (used fs)) st2) fs"
      unfolding image_of_def
      using balloc_writes(2-4) [OF t2] sizes assms(2) l by simp
    then show ?thesis
      using balloc_writes(1) [OF t2] assms(1) root 2 fixed by (simp add: mkfs_main_def)
  qed
qed

section \<open>The files of an image, in one equation\<close>

definition usable :: "host \<Rightarrow> string \<Rightarrow> bool" where
  "usable h f \<longleftrightarrow> CHR ''/'' \<notin> set (strip_user f) \<and> read_file h f \<noteq> None"

definition entries :: "nat \<Rightarrow> string list \<Rightarrow> u8 list" where
  "entries n files = concat (map (\<lambda>(i, f). entry False (of_nat i) (short_name f)) (zip [n..<n + length files] files))"

definition listing :: "host \<Rightarrow> string list \<Rightarrow> afile list" where
  "listing h files = (T_DIR, dots @ entries 2 files) # map (\<lambda>f. (T_FILE, concat (the (read_file h f)))) files"

lemma entries_snoc: "entries n (files @ [f]) = entries n files @ entry False (of_nat (n + length files)) (short_name f)"
  by (simp add: entries_def)

lemma listing_length [simp]: "length (listing h files) = length files + 1"
  by (simp add: listing_def)

lemma file_blocks_mono: "length (snd f) \<le> length (snd g) \<Longrightarrow> file_blocks f \<le> file_blocks g"
  by (simp add: file_blocks_def total_blocks_mono nblk_mono)

lemma used_grow:
  assumes "i < length fs" and "length (snd (fs ! i)) \<le> length (snd f)"
  shows "used fs \<le> used (fs[i := f])"
  using used_update [OF assms(1), of f] file_blocks_mono [OF assms(2)] by simp

lemma appends:
  assumes "i < length fs" and "used fs \<le> 100"
  shows "foldE (a_append i) ps fs =
    (let fs' = fs[i := (fst (fs ! i), snd (fs ! i) @ concat ps)] in if used fs' \<le> 100 then Inr fs' else Inl (Die ''read''))"
  using assms
proof (induction ps arbitrary: fs)
  case (Cons p ps)
  let ?fs1 = "fs[i := (fst (fs ! i), snd (fs ! i) @ p)]" and ?fs' = "fs[i := (fst (fs ! i), snd (fs ! i) @ concat (p # ps))]"
  have "used ?fs1 \<le> used (?fs1[i := (fst (fs ! i), snd (fs ! i) @ concat (p # ps))])"
    using Cons.prems(1) by (intro used_grow) simp_all
  then have "used ?fs1 \<le> used ?fs'" by simp
  then show ?case
    using Cons.IH [of ?fs1] Cons.prems(1) by (simp add: a_append_def Let_def)
qed simp

lemma listing_snoc:
  assumes u: "usable h f" and fits: "used (listing h files) \<le> 100"
  shows "a_add h f (listing h files) =
    (if used (listing h (files @ [f])) \<le> 100 then Inr (listing h (files @ [f])) else Inl (Die ''read''))"
proof -
  obtain chunks where r: "read_file h f = Some chunks" and s: "CHR ''/'' \<notin> set (strip_user f)"
    using u by (auto simp: usable_def)
  let ?n = "length files + 1"
  define p where p: "p = entry False (of_nat (?n + 1)) (short_name f)"
  define fs1 where fs1: "fs1 = (T_DIR, dots @ entries 2 (files @ [f])) # map (\<lambda>f. (T_FILE, concat (the (read_file h f)))) files @ [(T_FILE, [])]"
  have first: "a_append 0 p (listing h files @ [(T_FILE, [])]) = (if used fs1 \<le> 100 then Inr fs1 else Inl (Die ''read''))"
    by (simp add: a_append_def listing_def entries_snoc fs1 p add.commute)
  have last: "fs1[?n := (fst (fs1 ! ?n), snd (fs1 ! ?n) @ concat chunks)] = listing h (files @ [f])"
    by (simp add: fs1 listing_def r nth_append list_update_append)
  have "used fs1 \<le> used (fs1[?n := (fst (fs1 ! ?n), snd (fs1 ! ?n) @ concat chunks)])"
    by (intro used_grow) (simp_all add: fs1)
  then have le: "used fs1 \<le> used (listing h (files @ [f]))" unfolding last .
  have step: "a_add h f (listing h files) = bindE (a_append 0 p (listing h files @ [(T_FILE, [])])) (foldE (a_append ?n) chunks)"
    using s r by (simp add: a_add_def p)
  show ?thesis
  proof (cases "used fs1 \<le> 100")
    case True
    have "?n < length fs1" by (simp add: fs1)
    then show ?thesis
      using appends [OF _ True, of ?n chunks] True unfolding step first last by (simp add: Let_def)
  next
    case False
    then show ?thesis using le unfolding step first by simp
  qed
qed

lemma used_listing_mono: "used (listing h files) \<le> used (listing h (files @ gs))"
proof (induction gs rule: rev_induct)
  case (snoc g gs)
  have "file_blocks (T_DIR, dots @ entries 2 (files @ gs)) \<le> file_blocks (T_DIR, dots @ entries 2 ((files @ gs) @ [g]))"
    unfolding entries_snoc by (rule file_blocks_mono) simp
  then show ?case using snoc by (simp add: used_def listing_def)
qed simp

lemma foldE_append: "foldE f (xs @ ys) s = bindE (foldE f xs s) (foldE f ys)"
proof (induction xs arbitrary: s)
  case (Cons x xs)
  then show ?case by (cases "f x s") simp_all
qed simp

lemma a_files_listing:
  assumes "\<forall>f\<in>set files. usable h f"
  shows "a_files h files = (if used (listing h files) \<le> 100 then Inr (listing h files) else Inl (Die ''read''))"
  using assms
proof (induction files rule: rev_induct)
  case Nil
  have "length (entry False i n) = 16" for i n by (simp add: entry_def dirent_bytes_def)
  then have "used (listing h []) \<le> 100"
    by (simp add: used_def listing_def file_blocks_def dots_def entries_def nblk_def total_blocks_def)
  then show ?case by (simp add: a_files_def listing_def entries_def)
next
  case (snoc f files)
  show ?case
  proof (cases "used (listing h files) \<le> 100")
    case True
    then show ?thesis
      using snoc listing_snoc [of h f files] by (simp add: a_files_def foldE_append)
  next
    case False
    then show ?thesis using snoc used_listing_mono [of h files "[f]"] by (simp add: a_files_def foldE_append)
  qed
qed

text \<open>The first file that cannot be used ends the run.\<close>

lemma a_files_unusable:
  assumes "\<forall>f\<in>set files. usable h f" and "\<not> usable h f"
  shows "a_files h (files @ f # rest) = Inl
    (if \<not> used (listing h files) \<le> 100 then Die ''read''
     else if CHR ''/'' \<in> set (strip_user f) then Assertion ''index(shortname, '/') == 0'' else Die f)"
  using a_files_listing [OF assms(1)] assms(2) by (auto simp: a_files_def foldE_append a_add_def usable_def)

end
