(* ===== verification/MkfsProps.thy ===== *)
theory MkfsProps
  imports MkfsImage
begin

text \<open>
  The theorems about tools/mkfs/mkfs.c: what the image of a run holds, how its blocks are accounted for,
  which runs fail, and where the program goes wrong (more than 207 inodes, a big endian host).
\<close>

section \<open>A small run\<close>

definition sample_host :: host where
  "sample_host = \<lparr>can_create = (\<lambda>_. True), read_file = (\<lambda>f. if f = ''user/_sh'' then Some [[1, 2], [3]] else None)\<rparr>"

lemma entry_length [simp]: "length (entry be i n) = 16"
  by (simp add: entry_def dirent_bytes_def)

lemma entries_length [simp]: "length (entries n files) = 16 * length files"
  by (induction files rule: rev_induct) (simp_all add: entries_snoc, simp add: entries_def)

lemma dots_length [simp]: "length dots = 32"
  by (simp add: dots_def)

lemma sample_used: "used (listing sample_host [''user/_sh'']) = 48"
  by (simp add: used_def listing_def file_blocks_def sample_host_def nblk_def total_blocks_def)

lemma sample_usable: "\<forall>f\<in>set [''user/_sh'']. usable sample_host f"
  by (simp add: usable_def sample_host_def strip_user_def)

section \<open>The image\<close>

lemma mkfs_main_runs:
  assumes "can_create h path" and "length files \<le> 206" and "\<forall>f\<in>set files. usable h f"
  shows "if used (listing h files) \<le> 100 then \<exists>st. mkfs_main False h (path # files) = Inr st \<and> image_of st (listing h files)
    else mkfs_main False h (path # files) = Inl (Die ''read'')"
  using mkfs_main_agrees [OF assms(1,2)] a_files_listing [OF assms(3)] by (auto elim: rel_sum.cases)

lemma mkfs_main_unusable:
  assumes "can_create h path" and "length (files @ f # rest) \<le> 206" and "\<forall>f\<in>set files. usable h f" and "\<not> usable h f"
  shows "mkfs_main False h (path # files @ f # rest) = Inl
    (if 100 < used (listing h files) then Die ''read''
     else if CHR ''/'' \<in> set (strip_user f) then Assertion ''index(shortname, '/') == 0'' else Die f)"
  using mkfs_main_agrees [OF assms(1,2)] a_files_unusable [OF assms(3,4), of rest] by (auto elim: rel_sum.cases)

lemma split_unusable: "\<not> (\<forall>f\<in>set files. usable h f) \<Longrightarrow> \<exists>pre f rest. files = pre @ f # rest \<and> (\<forall>f\<in>set pre. usable h f) \<and> \<not> usable h f"
  using split_list_first_prop [of files "\<lambda>f. \<not> usable h f"] by blast

text \<open>What follows from success.\<close>

lemma mkfs_main_success:
  assumes "mkfs_main False h (path # files) = Inr st" and "length files \<le> 206"
  shows "\<forall>f\<in>set files. usable h f" and "used (listing h files) \<le> 100" and "image_of st (listing h files)"
proof -
  have c: "can_create h path" using assms(1) by (auto simp: mkfs_main_def split: if_splits)
  show u: "\<forall>f\<in>set files. usable h f"
  proof (rule ccontr)
    assume "\<not> (\<forall>f\<in>set files. usable h f)"
    then obtain pre f rest where "files = pre @ f # rest" "\<forall>f\<in>set pre. usable h f" "\<not> usable h f"
      using split_unusable by blast
    then show False using mkfs_main_unusable [OF c, of pre f rest] assms by simp
  qed
  show "used (listing h files) \<le> 100" "image_of st (listing h files)"
    using mkfs_main_runs [OF c assms(2) u] assms(1) by (auto split: if_splits)
qed

text \<open>
  C1: On a little endian host a run over usable files fails with a read past the end of the image exactly
  when their blocks do not fit it; otherwise the image holds the root directory and every file, in
  different blocks, with the superblock, the bitmap and all other inodes and blocks as they should be.
\<close>

theorem mkfs_main_image:
  assumes "can_create h path" and "length files \<le> 206" and "\<forall>f\<in>set files. usable h f"
  shows "if used (listing h files) \<le> 100 then \<exists>st. mkfs_main False h (path # files) = Inr st \<and> image_of st (listing h files)
    else mkfs_main False h (path # files) = Inl (Die ''read'')"
  by (rule mkfs_main_runs [OF assms])

theorem mkfs_main_image_witness:
  "\<exists>st. mkfs_main False sample_host [''fs.img'', ''user/_sh''] = Inr st \<and> image_of st (listing sample_host [''user/_sh''])"
  using mkfs_main_image [OF _ _ sample_usable, of "''fs.img''"] sample_used by (simp add: sample_host_def)

text \<open>C26: The first file that has a slash in its short name, or cannot be opened, ends the run, unless the image was full before.\<close>

theorem mkfs_main_rejects:
  assumes "can_create h path" and "length (files @ f # rest) \<le> 206" and "\<forall>f\<in>set files. usable h f" and "\<not> usable h f"
  shows "mkfs_main False h (path # files @ f # rest) = Inl
    (if 100 < used (listing h files) then Die ''read''
     else if CHR ''/'' \<in> set (strip_user f) then Assertion ''index(shortname, '/') == 0'' else Die f)"
  by (rule mkfs_main_unusable [OF assms])

theorem mkfs_main_rejects_witness:
  "mkfs_main False sample_host [''fs.img'', ''user/_sh'', ''user/a/b'', ''user/_sh''] = Inl (Assertion ''index(shortname, '/') == 0'')
   \<and> mkfs_main False sample_host [''fs.img'', ''user/_sh'', ''user/_ls''] = Inl (Die ''user/_ls'')"
proof -
  have u: "\<not> usable sample_host ''user/a/b''" "\<not> usable sample_host ''user/_ls''"
    by (simp_all add: usable_def sample_host_def strip_user_def)
  have c: "can_create sample_host ''fs.img''" by (simp add: sample_host_def)
  show ?thesis
    using mkfs_main_rejects [OF c _ sample_usable u(1), of "[''user/_sh'']"] mkfs_main_rejects [OF c _ sample_usable u(2), of "[]"]
      sample_used by (simp add: strip_user_def)
qed

section \<open>Reading back\<close>

text \<open>The bytes of a file as a reader finds them: the size in the inode, and the blocks it lists.\<close>

definition file_bytes :: "mkfs \<Rightarrow> nat \<Rightarrow> u8 list" where
  "file_bytes st i = (let d = inode st i; n = unat (di_size d) in take n (file_data st d (nblk n)))"

lemma file_bytes_sized:
  assumes "holds st (inode st i) c" and "di_size (inode st i) = of_nat (length c)" and "fs_ok st"
  shows "file_bytes st i = c"
proof -
  have "unat (of_nat (length c) :: u32) = length c"
    using holds_small [OF assms(1,3)] unfolding unat_of_nat by simp
  then show ?thesis using assms(1,2) by (simp add: file_bytes_def holds_def Let_def)
qed

lemma root_bytes:
  assumes im: "image_of st fs" and fs: "fs \<noteq> []" and small: "length (snd (fs ! 0)) < 12 * 1024"
  shows "file_bytes st 1 = snd (fs ! 0) @ replicate (rounded (length (snd (fs ! 0))) - length (snd (fs ! 0))) 0"
proof -
  let ?c = "snd (fs ! 0)" and ?d = "inode st 1"
  have t: "tree st fs" using im by (simp add: image_of_def)
  have h: "holds st ?d ?c" using treeD(5) [OF t, of 0] fs by (simp add: inode_of_def)
  have "rounded (length ?c) \<le> 12 * 1024" using small by (simp add: rounded_def div_less_iff_less_mult Suc_le_eq)
  then have n: "unat (di_size ?d) = rounded (length ?c)"
    using im unfolding image_of_def unat_of_nat by (simp add: unat_of_nat)
  have nb: "nblk (rounded (length ?c)) = length ?c div 1024 + 1" by (simp add: nblk_at rounded_def)
  have dat: "file_data st ?d (length ?c div 1024 + 1) = ?c @ replicate (rounded (length ?c) - length ?c) 0"
  proof (cases "length ?c mod 1024 = 0")
    case True
    let ?m = "length ?c div 1024"
    have m: "nblk (length ?c) = ?m" using True by (simp add: nblk_at)
    have m12: "?m < 12" using small by (simp add: div_less_iff_less_mult)
    have d: "file_data st ?d ?m = ?c" and inv: "file_inv st ?d ?m" using h True m by (auto simp: holds_def)
    have "di_addrs ?d ! ?m = 0" using inv m12 by (simp add: file_inv_def)
    then have "blk st (addr st ?d ?m) = zeroes" using treeD(9) [OF t, of 0] m12 by (simp add: addr_def)
    moreover have "rounded (length ?c) - length ?c = 1024" using True by (auto simp: rounded_def)
    ultimately show ?thesis using d by (simp add: file_data_Suc zeroes_def)
  next
    case False
    then have "nblk (length ?c) = length ?c div 1024 + 1" by (simp add: nblk_at)
    then show ?thesis using h by (simp add: holds_def rounded_def)
  qed
  have "length ?c \<le> rounded (length ?c)" using dividend_less_times_div [of 1024 "length ?c"] by (simp add: rounded_def algebra_simps)
  then show ?thesis unfolding file_bytes_def Let_def n nb dat by simp
qed

lemma image_files:
  assumes "image_of st fs" and "0 < i" and "i < length fs"
  shows "file_bytes st (i + 1) = snd (fs ! i)" and "di_type (inode st (i + 1)) = fst (fs ! i)"
proof -
  have t: "tree st fs" using assms(1) by (simp add: image_of_def)
  have f: "inode_of st (inode st (i + 1)) (fs ! i)" by (rule treeD(5) [OF t assms(3)])
  then show "di_type (inode st (i + 1)) = fst (fs ! i)" by (simp add: inode_of_def)
  have "di_size (inode st (i + 1)) = of_nat (length (snd (fs ! i)))" using assms by (simp add: image_of_def)
  then show "file_bytes st (i + 1) = snd (fs ! i)"
    using f treeD(1) [OF t] by (intro file_bytes_sized) (simp_all add: inode_of_def)
qed

text \<open>
  C6: In an image that mkfs wrote on a little endian host, the root directory reads as the entries \<open>.\<close> and \<open>..\<close>, one entry
  with the short name and the inode number for each file, in order, and zeros up to the rounded size;
  and inode \<open>k + 2\<close> is an ordinary file that reads as the content of the \<open>k\<close>-th file.
\<close>

theorem mkfs_reads_back:
  assumes "mkfs_main False h (path # files) = Inr st" and "length files \<le> 206"
  shows "file_bytes st 1 = dots @ entries 2 files @ replicate (rounded (16 * (length files + 2)) - 16 * (length files + 2)) 0
    \<and> (\<forall>k<length files. di_type (inode st (k + 2)) = T_FILE \<and> read_file h (files ! k) \<noteq> None
      \<and> file_bytes st (k + 2) = concat (the (read_file h (files ! k))))"
proof (intro conjI allI impI)
  note ok = mkfs_main_success [OF assms]
  show "file_bytes st 1 = dots @ entries 2 files @ replicate (rounded (16 * (length files + 2)) - 16 * (length files + 2)) 0"
    using root_bytes [OF ok(3)] assms(2) by (simp add: listing_def)
  fix k assume k: "k < length files"
  have "usable h (files ! k)" using ok(1) k by simp
  moreover have "listing h files ! (k + 1) = (T_FILE, concat (the (read_file h (files ! k))))"
    using k by (simp add: listing_def)
  ultimately show "di_type (inode st (k + 2)) = T_FILE" "read_file h (files ! k) \<noteq> None"
    "file_bytes st (k + 2) = concat (the (read_file h (files ! k)))"
    using image_files [OF ok(3), of "k + 1"] k by (simp_all add: usable_def numeral_2_eq_2)
qed

theorem mkfs_reads_back_witness:
  "\<exists>st. mkfs_main False sample_host [''fs.img'', ''user/_sh''] = Inr st
     \<and> file_bytes st 1 = dots @ entry False 2 ''sh'' @ replicate 976 0
     \<and> di_type (inode st 2) = T_FILE \<and> file_bytes st 2 = [1, 2, 3]"
proof -
  obtain st where st: "mkfs_main False sample_host [''fs.img'', ''user/_sh''] = Inr st"
    using mkfs_main_runs [OF _ _ sample_usable, of "''fs.img''"] sample_used by (auto simp: sample_host_def)
  have "entries 2 [''user/_sh''] = entry False 2 ''sh''"
    by (simp add: entries_def short_name_def strip_user_def strip_underscore_def)
  then show ?thesis
    using mkfs_reads_back [OF st] st by (auto simp: rounded_def sample_host_def numeral_2_eq_2)
qed

section \<open>Blocks\<close>

lemma blocks_of_length: "length (blocks_of st fs i) = file_blocks (fs ! i)"
  by (simp add: blocks_of_def file_blocks_def own_blocks_length)

text \<open>No block between the bitmap and the first free block is lost.\<close>

lemma all_blocks_owned:
  assumes t: "tree st fs"
  shows "(\<Union>i\<in>{..<length fs}. set (blocks_of st fs i)) = {46..<used fs}"
proof (rule card_subset_eq)
  show "(\<Union>i\<in>{..<length fs}. set (blocks_of st fs i)) \<subseteq> {46..<used fs}"
    using tree_blocks(1) [OF t] treeD(4) [OF t] by fastforce
  have "card (\<Union>i\<in>{..<length fs}. set (blocks_of st fs i)) = (\<Sum>i\<in>{..<length fs}. card (set (blocks_of st fs i)))"
    using treeD(6) [OF t] by (intro card_UN_disjoint) auto
  also have "\<dots> = (\<Sum>i\<in>{..<length fs}. file_blocks (fs ! i))"
    using tree_blocks(2) [OF t] by (intro sum.cong) (simp_all add: distinct_card blocks_of_length)
  also have "\<dots> = sum_list (map file_blocks fs)" by (simp add: sum_list_sum_nth lessThan_atLeast0)
  finally show "card (\<Union>i\<in>{..<length fs}. set (blocks_of st fs i)) = card {46..<used fs}" by (simp add: used_def)
qed simp

text \<open>
  C7: The bitmap of an image that mkfs wrote on a little endian host marks a block exactly when it is one of the 46 of the
  layout or belongs to a file, and no block belongs to two files or twice to a file.
\<close>

theorem mkfs_bitmap_exact:
  assumes "mkfs_main False h (path # files) = Inr st" and "length files \<le> 206"
  shows "(\<forall>b<8192. bit (blk st 45 ! (b div 8)) (b mod 8)
      \<longleftrightarrow> b < 46 \<or> (\<exists>i<length files + 1. b \<in> set (blocks_of st (listing h files) i)))
    \<and> (\<forall>i<length files + 1. distinct (blocks_of st (listing h files) i)
      \<and> (\<forall>j<i. set (blocks_of st (listing h files) i) \<inter> set (blocks_of st (listing h files) j) = {}))"
proof -
  note ok = mkfs_main_success [OF assms]
  have t: "tree st (listing h files)" and m: "blk st 45 = bitmap_loop (used (listing h files))"
    using ok(3) by (simp_all add: image_of_def)
  have "bit (blk st 45 ! (b div 8)) (b mod 8)
      \<longleftrightarrow> b < 46 \<or> (\<exists>i<length files + 1. b \<in> set (blocks_of st (listing h files) i))" if "b < 8192" for b
  proof -
    have "bit (blk st 45 ! (b div 8)) (b mod 8) \<longleftrightarrow> b < used (listing h files)"
      unfolding m using ok(2) that by (intro bitmap_loop_bits) simp_all
    also have "\<dots> \<longleftrightarrow> b < 46 \<or> b \<in> {46..<used (listing h files)}" by (auto simp: used_def)
    also have "b \<in> {46..<used (listing h files)} \<longleftrightarrow> (\<exists>i<length files + 1. b \<in> set (blocks_of st (listing h files) i))"
      unfolding all_blocks_owned [OF t, symmetric] by auto
    finally show ?thesis .
  qed
  moreover have "distinct (blocks_of st (listing h files) i)
      \<and> (\<forall>j<i. set (blocks_of st (listing h files) i) \<inter> set (blocks_of st (listing h files) j) = {})"
    if "i < length files + 1" for i
    using tree_blocks(2) [OF t, of i] treeD(6) [OF t, of i] that by simp
  ultimately show ?thesis by blast
qed

theorem mkfs_bitmap_exact_witness:
  "\<exists>st. mkfs_main False sample_host [''fs.img'', ''user/_sh''] = Inr st
     \<and> bit (blk st 45 ! 5) 5 \<and> distinct (blocks_of st (listing sample_host [''user/_sh'']) 1)"
proof -
  obtain st where st: "mkfs_main False sample_host [''fs.img'', ''user/_sh''] = Inr st"
    using mkfs_main_runs [OF _ _ sample_usable, of "''fs.img''"] sample_used by (auto simp: sample_host_def)
  have "bit (blk st 45 ! 5) 5" using mkfs_bitmap_exact [OF st, THEN conjunct1, rule_format, of 45] by simp
  moreover have "distinct (blocks_of st (listing sample_host [''user/_sh'']) 1)"
    using mkfs_bitmap_exact [OF st, THEN conjunct2, rule_format, of 1] by simp
  ultimately show ?thesis using st by blast
qed

section \<open>Operations\<close>

text \<open>
  C8: On an image that represents a file system, \<open>iappend\<close> appends the bytes to the file of the inode and changes no other
  file, or dies on a read past the end of the image when the new blocks do not fit it.
\<close>

theorem iappend_refines:
  assumes "rep st fs" and "i < length fs"
  shows "agree rep (iappend False (of_nat (i + 1)) p st) (a_append i p fs)"
  by (rule iappend_appends [OF assms])

theorem iappend_refines_witness:
  "\<exists>st st'. make_root False = Inr st \<and> iappend False 1 [7] st = Inr st' \<and> rep st' [(T_DIR, dots @ [7])]"
proof -
  obtain st where st: "make_root False = Inr st" and r: "rep st [(T_DIR, dots)]" using make_root_makes by blast
  have "a_append 0 [7] [(T_DIR, dots)] = Inr [(T_DIR, dots @ [7])]"
    by (simp add: a_append_def used_def file_blocks_def nblk_def total_blocks_def)
  then show ?thesis using iappend_refines [OF r, of 0 "[7]"] st by (auto elim: rel_sum.cases)
qed

text \<open>C32: What \<open>winode\<close> writes \<open>rinode\<close> reads, and every other inode reads as before.\<close>

theorem inode_roundtrip:
  assumes "disk_ok st" and "unat i < 208" and "length (di_addrs d) = 13"
  shows "\<exists>st'. winode False i d st = Inr st' \<and> disk_ok st' \<and> rinode False i st' = Inr d
    \<and> (\<forall>j. unat j < 208 \<and> j \<noteq> i \<longrightarrow> rinode False j st' = rinode False j st)"
proof -
  let ?st' = "put_inode (unat i) d st"
  have i: "unat i \<in> {..<208}" "d \<in> {d. length (di_addrs d) = 13}" using assms by simp_all
  have ok: "disk_ok ?st'" by (rule inodes.put_ok [OF assms(1) i])
  have "rinode False j ?st' = rinode False j st" if "unat j < 208" "j \<noteq> i" for j
    using inodes.get_put_other [OF assms(1) i, of "unat j"] that rinode_inode [OF ok that(1)] rinode_inode [OF assms(1) that(1)]
    by (simp add: word_unat_eq_iff)
  then show ?thesis
    using winode_inode [OF assms(1,2)] rinode_inode [OF ok assms(2)] inodes.get_put_same [OF assms(1) i] ok by auto
qed

theorem inode_roundtrip_witness:
  "\<exists>st'. winode False 5 no_inode blank = Inr st' \<and> rinode False 5 st' = Inr no_inode"
proof -
  have "disk_ok blank" using blank_rep by (simp add: rep_def tree_def fs_ok_def)
  then show ?thesis using inode_roundtrip [of blank 5 no_inode] by (auto simp: no_inode_def)
qed

text \<open>
  Every number of the super block is in the sector in little endian order whatever the host, except
  the magic number, which is in the order of the host.
\<close>

theorem superblock_layout:
  "superblock_bytes be (sb be) =
    (if be then rev (le32 FSMAGIC) else le32 FSMAGIC) @ concat (map le32 [100, 54, 200, 30, 2, 32, 45])"
  by (simp add: superblock_bytes_def sb_def store32_def [of _ "0x10203040"])

section \<open>Too many inodes\<close>

lemma bitmap_type:
  assumes "16 \<le> n" and "n \<le> 8192"
  shows "di_type (load_dinode False (take 64 (bitmap_loop n))) = 0xFFFF"
proof (rule bit_word_eqI)
  fix k assume k: "k < LENGTH(16)"
  have "(0xFFFF :: u16) = - 1" by simp
  then have all: "bit (0xFFFF :: u16) k" using k by (simp only: bit_minus_1_iff possible_bit_word)
  have "bit (bitmap_loop n ! (k div 8)) (k mod 8)" using bitmap_loop_bits [OF assms(2), of k] k assms(1) by simp
  moreover consider "k < 8" | "8 \<le> k" "k < 16" using k by fastforce
  then have "k div 8 = 0 \<and> k mod 8 = k \<or> k div 8 = 1 \<and> k mod 8 = k - 8 \<and> 8 \<le> k"
    by cases (auto simp: div_eq_dividend_iff le_mod_geq le_div_geq)
  ultimately show "bit (di_type (load_dinode False (take 64 (bitmap_loop n)))) k = bit (0xFFFF :: u16) k"
    using k all
    by (auto simp: load_dinode_def load16_def of_le16_def bit_or_iff bit_push_bit_iff bit_ucast_iff)
qed

text \<open>
  C34: Nothing limits the number of files: the 208th inode is allocated in the sector of the bitmap, and
  \<open>balloc\<close> erases it, leaving a file of type 65535.
\<close>

theorem ialloc_past_inodes:
  assumes "disk_ok st" and "freeinode st = 208" and "46 \<le> sint n" and "sint n < 8192"
  shows "\<exists>st1 st2 d. ialloc False t st = Inr (208, st1) \<and> rinode False 208 st1 = Inr d \<and> di_type d = t
    \<and> balloc False n st1 = Inr st2 \<and> rinode False 208 st2 = Inr (load_dinode False (take 64 (bitmap_loop (nat (sint n)))))
    \<and> di_type (load_dinode False (take 64 (bitmap_loop (nat (sint n))))) = 0xFFFF"
proof -
  define st0 where st0: "st0 = st\<lparr>freeinode := freeinode st + 1\<rparr>"
  define din where din: "din = \<lparr>di_type = t, di_major = 0, di_minor = 0, di_nlink = 1, di_size = 0, di_addrs = replicate 13 0\<rparr>"
  define v where v: "v = dinode_bytes False din @ drop 64 (blk st0 45)"
  define st1 where st1: "st1 = put_blk 45 v st0"
  have b: "iblock False 208 = 45" by (simp add: iblock_def sb_def)
  have ok0: "disk_ok st0" using assms(1) by (simp add: st0)
  have len: "length (blk st0 45) = 1024" using sectors.get_vals [OF ok0, of 45] by simp
  have dl: "length (dinode_bytes False din) = 64" by (simp add: dinode_bytes_length din)
  have vl: "length v = 1024" using len dl by (simp add: v)
  have ok1: "disk_ok st1" unfolding st1 using ok0 vl by (intro sectors.put_ok) simp_all
  have b1: "blk st1 45 = v" unfolding st1 using ok0 vl by (intro sectors.get_put_same) simp_all
  have w: "winode False 208 din st0 = Inr st1"
    using rsect_blk [OF ok0, of 45] wsect_blk [OF ok0, of 45] by (simp add: winode_def Let_def b v st1)
  then have al: "ialloc False t st = Inr (208, st1)"
    using assms(2) by (simp add: ialloc_def Let_def st0 din)
  have "take 64 v = dinode_bytes False din" using dl by (simp add: v)
  then have rd: "rinode False 208 st1 = Inr din"
    using rsect_blk [OF ok1, of 45] load_dinode_bytes [of din False "[]"] by (simp add: rinode_def Let_def b b1 din)
  define bm where bm: "bm = bitmap_loop (nat (sint n))"
  define st2 where st2: "st2 = put_blk 45 bm st1"
  have ba: "balloc False n st1 = Inr st2"
    using assms(4) wsect_blk [OF ok1, of 45] by (simp add: balloc_def require_def sb_def st2 bm)
  have ok2: "disk_ok st2" unfolding st2 bm using ok1 by (intro sectors.put_ok) simp_all
  have b2: "blk st2 45 = bm" unfolding st2 bm using ok1 by (intro sectors.get_put_same) simp_all
  have rd2: "rinode False 208 st2 = Inr (load_dinode False (take 64 bm))"
    using rsect_blk [OF ok2, of 45] by (simp add: rinode_def Let_def b b2)
  have "16 \<le> nat (sint n)" "nat (sint n) \<le> 8192" using assms(3,4) by simp_all
  then have "di_type (load_dinode False (take 64 bm)) = 0xFFFF" unfolding bm by (rule bitmap_type)
  then show ?thesis using al rd ba rd2 by (auto simp: bm din)
qed

theorem ialloc_past_inodes_witness:
  "\<exists>st1 st2. ialloc False T_FILE (blank\<lparr>freeinode := 208\<rparr>) = Inr (208, st1) \<and> balloc False 46 st1 = Inr st2
     \<and> rinode False 208 st2 = Inr (load_dinode False (take 64 (bitmap_loop 46)))"
proof -
  have "disk_ok (blank\<lparr>freeinode := 208\<rparr>)" using blank_rep by (simp add: rep_def tree_def fs_ok_def)
  from ialloc_past_inodes [OF this, of 46 T_FILE] show ?thesis by auto
qed

section \<open>Big endian hosts\<close>

lemma sector_wraps: "unat (s :: u32) < 2 ^ 20 \<Longrightarrow> sector (s + 0x20000000) = unat s"
proof -
  assume s: "unat s < 2 ^ 20"
  have eq: "(s + 0x20000000) * of_nat 1024 = s * 1024" by (simp add: distrib_right)
  have "unat (s * 1024) = unat s * 1024" using s by (simp add: unat_word_ariths)
  then show ?thesis unfolding sector_def eq by simp
qed

lemma bitmap_tail: "n \<le> 512 \<Longrightarrow> take 64 (drop 64 (bitmap_loop n)) = replicate 64 0"
proof (rule nth_equalityI)
  fix k assume n: "n \<le> 512" and "k < length (take 64 (drop 64 (bitmap_loop n)))"
  then have k: "k < 64" by simp
  have "bitmap_loop n ! (64 + k) = 0"
  proof (rule bit_word_eqI)
    fix j assume j: "j < LENGTH(8)"
    have "(8 * a + j) div 8 = a \<and> (8 * a + j) mod 8 = j" for a using j by simp
    then show "bit (bitmap_loop n ! (64 + k)) j = bit (0 :: u8) j"
      using bitmap_loop_bits [of n "8 * (64 + k) + j"] n k j by (simp only: len_num0 len_of_numeral_defs) simp
  qed
  then show "take 64 (drop 64 (bitmap_loop n)) ! k = replicate 64 0 ! k" using k by simp
qed simp

lemma no_inode_bytes: "load_dinode be (replicate 64 0) = no_inode"
proof -
  have "dinode_bytes be no_inode = replicate 64 0"
    by (cases be) (simp_all add: dinode_bytes_def no_inode_def store16_def store32_def le16_def le32_def eval_nat_numeral)
  then show ?thesis using load_dinode_bytes [of no_inode be "[]"] by (simp add: no_inode_def)
qed

text \<open>
  C35: On a big endian host the sectors of the inodes and of the bitmap are computed from numbers of the super block that were
  already converted: inode \<open>i\<close> is in sector \<open>i div 16\<close>, the boot block for the root directory, and the
  bitmap is written to sector 0, which leaves the root directory unallocated.
\<close>

theorem big_endian_misplaces:
  assumes "length (img st) = 100" and "0 \<le> sint n" and "sint n \<le> 512" and "unat i < 1000"
  shows "sector (iblock True i) = unat i div 16
    \<and> (\<exists>st'. balloc True n st = Inr st' \<and> img st' ! 0 = bitmap_loop (nat (sint n)) \<and> rinode True ROOTINO st' = Inr no_inode)"
proof
  have x: "xint True 32 = 0x20000000" "xint True 45 = 0x2D000000" by (simp_all add: xint_def load32_def of_le32_def)
  have ib: "iblock True j = j div 16 + 0x20000000" for j by (simp add: iblock_def sb_def x)
  show "sector (iblock True i) = unat i div 16"
    unfolding ib using assms(4) sector_wraps [of "i div 16"] by (simp add: unat_div)
  have s0: "sector (iblock True 1) = 0" unfolding ib by (simp add: sector_def)
  have b0: "sector (sb_bmapstart (sb True)) = 0" by (simp add: sb_def x sector_def)
  let ?bm = "bitmap_loop (nat (sint n))"
  let ?st' = "st\<lparr>img := (img st)[0 := ?bm]\<rparr>"
  have ne: "0 < length (img st)" using assms(1) by simp
  have "balloc True n st = Inr ?st'"
    using assms(3) ne b0 by (simp add: balloc_def require_def wsect_def)
  moreover have "img ?st' ! 0 = ?bm" using ne by simp
  moreover have "take 64 (drop 64 ?bm) = replicate 64 0" using assms(2,3) by (intro bitmap_tail) simp
  then have "rinode True 1 ?st' = Inr no_inode"
    using ne s0 by (simp add: rinode_def rsect_def no_inode_bytes)
  ultimately show "\<exists>st'. balloc True n st = Inr st' \<and> img st' ! 0 = ?bm \<and> rinode True 1 st' = Inr no_inode" by blast
qed

theorem big_endian_misplaces_witness:
  "sector (iblock True 17) = 1
   \<and> (\<exists>st'. balloc True 47 blank = Inr st' \<and> rinode True ROOTINO st' = Inr no_inode)"
proof -
  have "length (img blank) = 100" by (simp add: blank_def put_blk_def)
  from big_endian_misplaces [OF this, of 47 17] show ?thesis by auto
qed

end
