(* ===== verification/Kernel.thy ===== *)
theory Kernel
  imports Prelude "HOL-Library.Monad_Syntax"
begin

text \<open>
  The part of the kernel the user programs rest on: the process queues and the scheduler of src/plix/schedule.d,
  the processes of proc.d, the system calls of syscall.d and the timer interrupt of trap.d, on one core.

  A process is known by its \<open>pid\<close>. A \<open>pid\<close> does not wrap in the model, and the memory of a freed process, by whose
  address the kernel knows a parent, is not used for another. A queue is the list of its processes from the front. What a process would do in user mode,
  and with the result of a system call, is \<open>prog\<close>, a function of its registers; what the file
  system answers is \<open>files\<close>; a write to descriptor 1 is taken to reach the console, whatever its answer, since every process starts with
  the console there and writes from its own memory. The use of a process that has been freed is \<open>None\<close>. Interrupts are off in the kernel, so everything between two switches is one step. Processes share the
  time of one core; the messages of the kernel on the console are left out.
\<close>

section \<open>Processes and queues\<close>

type_synonym pid = int

datatype pstate = Runnable | Blocked | Exited

datatype queue = Runq | Exitq | Ticksq | Waitq

text \<open>Where a process goes on when it is switched to: in user mode, or in the loop of \<open>sys_wait\<close> or \<open>sys_usleep\<close>.\<close>

datatype resume = ToUser | InWait | InSleep nat nat

record 'u proc =
  user :: 'u
  resume :: resume
  parent :: "pid option"
  children :: nat
  pstate :: pstate
  wq :: "queue option"

record 'u kernel =
  procs :: "pid \<Rightarrow> 'u proc option"
  next_pid :: pid
  queues :: "queue \<Rightarrow> pid list"
  current :: "pid option"
  now :: nat
  console :: "(pid \<times> string) list"

text \<open>An argument of a system call: a number, or a pointer, by the text it points to.\<close>

datatype arg = Num u64 | Ptr string

text \<open>
  What a process does next in user mode: a system call, after which it goes on with the result and the bytes the call has stored,
  a loop without end, or an access the kernel kills it for.
\<close>

datatype 'u uop = Ecall u64 "arg list" "u64 \<Rightarrow> string \<Rightarrow> 'u" | Spin | Fault

definition set_proc :: "pid \<Rightarrow> 'u proc option \<Rightarrow> 'u kernel \<Rightarrow> 'u kernel" where
  "set_proc p x k = k\<lparr>procs := (procs k)(p := x)\<rparr>"

definition push_front :: "queue \<Rightarrow> pid \<Rightarrow> 'u kernel \<Rightarrow> 'u kernel" where
  "push_front q p k = k\<lparr>queues := (queues k)(q := p # queues k q)\<rparr>"

definition remove_proc :: "queue \<Rightarrow> pid \<Rightarrow> 'u kernel \<Rightarrow> 'u kernel" where
  "remove_proc q p k = k\<lparr>queues := (queues k)(q := remove1 p (queues k q))\<rparr>"

definition pop_back :: "queue \<Rightarrow> 'u kernel \<Rightarrow> (pid \<times> 'u kernel) option" where
  "pop_back q k = (if queues k q = [] then None else let p = last (queues k q) in Some (p, remove_proc q p k))"

definition wake :: "queue \<Rightarrow> pid \<Rightarrow> 'u kernel \<Rightarrow> 'u kernel option" where
  "wake q p k = do {
     x \<leftarrow> procs k p;
     if pstate x \<noteq> Blocked then None
     else Some (push_front Runq p (set_proc p (Some (x\<lparr>pstate := Runnable\<rparr>)) (remove_proc q p k)))
   }"

text \<open>\<open>wake_all\<close> wakes the front until the queue is empty.\<close>

definition wake_all :: "queue \<Rightarrow> 'u kernel \<Rightarrow> 'u kernel option" where
  "wake_all q k = foldM (wake q) (queues k q) k"

text \<open>\<open>Proc.wait\<close>, behind \<open>block\<close> and \<open>exit\<close>, and \<open>Proc.yield\<close> with what \<open>schedule\<close> does after it.\<close>

definition proc_wait :: "queue \<Rightarrow> pstate \<Rightarrow> pid \<Rightarrow> 'u proc \<Rightarrow> 'u kernel \<Rightarrow> 'u kernel" where
  "proc_wait q st p x k = push_front q p (set_proc p (Some (x\<lparr>pstate := st, wq := Some q\<rparr>)) k)"

definition yield_proc :: "pid \<Rightarrow> 'u kernel \<Rightarrow> 'u kernel option" where
  "yield_proc p k = do {
     x \<leftarrow> procs k p;
     let k = k\<lparr>current := None\<rparr>;
     Some (if pstate x = Runnable then push_front Runq p k else k)
   }"

text \<open>Return to user mode with a result.\<close>

definition return_user :: "pid \<Rightarrow> 'u proc \<Rightarrow> 'u \<Rightarrow> 'u kernel \<Rightarrow> 'u kernel" where
  "return_user p x u k = set_proc p (Some (x\<lparr>user := u, resume := ToUser\<rparr>)) k"

section \<open>System calls\<close>

text \<open>Whether there is memory for a new process, and for its pages.\<close>

datatype memory = Enough | No_proc | No_pages

abbreviation nomem :: int where "nomem \<equiv> - 12"

abbreviation no_child :: int where "no_child \<equiv> - 10"

abbreviation nosys :: int where "nosys \<equiv> - 38"

definition sys_fork :: "memory \<Rightarrow> pid \<Rightarrow> 'u proc \<Rightarrow> (u64 \<Rightarrow> 'u) \<Rightarrow> 'u kernel \<Rightarrow> 'u kernel" where
  "sys_fork mem p x ret k =
     (let c = next_pid k in
      case mem of
        No_proc \<Rightarrow> return_user p x (ret (word_of_int nomem)) k
      | No_pages \<Rightarrow> return_user p x (ret (word_of_int nomem)) (k\<lparr>next_pid := c + 1\<rparr>)
      | Enough \<Rightarrow>
          let child = \<lparr>user = ret 0, resume = ToUser, parent = Some p, children = 0, pstate = Runnable, wq = None\<rparr>;
              k = set_proc c (Some child) (k\<lparr>next_pid := c + 1\<rparr>)
          in return_user p (x\<lparr>children := children x + 1\<rparr>) (ret (word_of_int c)) (push_front Runq c k))"

text \<open>The search of \<open>exit_queue\<close> for a child.\<close>

definition zombie_of :: "pid \<Rightarrow> 'u kernel \<Rightarrow> pid option" where
  "zombie_of p k = find (\<lambda>z. case procs k z of None \<Rightarrow> False | Some y \<Rightarrow> parent y = Some p) (queues k Exitq)"

definition wait_loop :: "pid \<Rightarrow> 'u proc \<Rightarrow> (u64 \<Rightarrow> 'u) \<Rightarrow> 'u kernel \<Rightarrow> 'u kernel option" where
  "wait_loop p x ret k =
     (case zombie_of p k of
        Some z \<Rightarrow> Some (return_user p (x\<lparr>children := children x - 1\<rparr>) (ret (word_of_int z)) (set_proc z None (remove_proc Exitq z k)))
      | None \<Rightarrow> yield_proc p (proc_wait Waitq Blocked p (x\<lparr>resume := InWait\<rparr>) k))"

definition sys_wait :: "pid \<Rightarrow> 'u proc \<Rightarrow> (u64 \<Rightarrow> 'u) \<Rightarrow> 'u kernel \<Rightarrow> 'u kernel option" where
  "sys_wait p x ret k =
     (if children x = 0 then Some (return_user p x (ret (word_of_int no_child)) k) else wait_loop p x ret k)"

definition sleep_loop :: "nat \<Rightarrow> nat \<Rightarrow> pid \<Rightarrow> 'u proc \<Rightarrow> (u64 \<Rightarrow> 'u) \<Rightarrow> 'u kernel \<Rightarrow> 'u kernel option" where
  "sleep_loop start us p x ret k =
     (if us \<le> now k - start then Some (return_user p x (ret 0) k)
      else yield_proc p (proc_wait Ticksq Blocked p (x\<lparr>resume := InSleep start us\<rparr>) k))"

definition sys_usleep :: "nat \<Rightarrow> pid \<Rightarrow> 'u proc \<Rightarrow> (u64 \<Rightarrow> 'u) \<Rightarrow> 'u kernel \<Rightarrow> 'u kernel option" where
  "sys_usleep us p x ret k = sleep_loop (now k) us p x ret k"

text \<open>The parent may have been freed before its child exits; it is read nevertheless.\<close>

definition wake_parent :: "'u proc \<Rightarrow> 'u kernel \<Rightarrow> 'u kernel option" where
  "wake_parent x k =
     (case parent x of
        None \<Rightarrow> Some k
      | Some q \<Rightarrow> do {
          y \<leftarrow> procs k q;
          if pstate y = Blocked \<and> wq y = Some Waitq then wake Waitq q k else Some k
        })"

definition sys_exit :: "pid \<Rightarrow> 'u proc \<Rightarrow> 'u kernel \<Rightarrow> 'u kernel option" where
  "sys_exit p x k = do {
     k \<leftarrow> wake_parent x k;
     yield_proc p (proc_wait Exitq Exited p x k)
   }"

definition num_arg :: "arg list \<Rightarrow> nat \<Rightarrow> u64" where
  "num_arg args i = (if i < length args then case args ! i of Num w \<Rightarrow> w | Ptr _ \<Rightarrow> 0 else 0)"

definition ptr_arg :: "arg list \<Rightarrow> nat \<Rightarrow> string" where
  "ptr_arg args i = (if i < length args then case args ! i of Num _ \<Rightarrow> '''' | Ptr s \<Rightarrow> s else '''')"

text \<open>\<open>Sys\<close>: the numbers of the calls.\<close>

abbreviation Sys_write :: u64 where "Sys_write \<equiv> 0"
abbreviation Sys_getpid :: u64 where "Sys_getpid \<equiv> 1"
abbreviation Sys_exit :: u64 where "Sys_exit \<equiv> 2"
abbreviation Sys_fork :: u64 where "Sys_fork \<equiv> 3"
abbreviation Sys_wait :: u64 where "Sys_wait \<equiv> 4"
abbreviation Sys_sbrk :: u64 where "Sys_sbrk \<equiv> 5"
abbreviation Sys_usleep :: u64 where "Sys_usleep \<equiv> 6"

text \<open>The calls that the file system answers: \<open>read\<close>, \<open>open\<close>, \<open>dup\<close>, \<open>close\<close>, \<open>fstat\<close> and \<open>chdir\<close>.\<close>

definition file_call :: "u64 \<Rightarrow> bool" where
  "file_call n \<longleftrightarrow> n \<in> {7, 8, 9, 10, 11, 14}"

type_synonym files = "u64 \<Rightarrow> arg list \<Rightarrow> u64 \<times> string"

definition syscall_handler ::
  "files \<Rightarrow> memory \<Rightarrow> pid \<Rightarrow> 'u proc \<Rightarrow> u64 \<Rightarrow> arg list \<Rightarrow> (u64 \<Rightarrow> string \<Rightarrow> 'u) \<Rightarrow> 'u kernel \<Rightarrow> 'u kernel option" where
  "syscall_handler files mem p x n args cont k =
     (let ret = (\<lambda>w. cont w '''') in
      if file_call n then let (w, stored) = files n args in Some (return_user p x (cont w stored) k)
      else if n = Sys_write
      then let k = (if (ucast (num_arg args 0) :: u32) = 1 then k\<lparr>console := console k @ [(p, take (unat (num_arg args 2)) (ptr_arg args 1))]\<rparr> else k)
        in Some (return_user p x (ret (fst (files n args))) k)
      else if n = Sys_getpid then Some (return_user p x (ret (word_of_int p)) k)
      else if n = Sys_exit then sys_exit p x k
      else if n = Sys_fork then Some (sys_fork mem p x ret k)
      else if n = Sys_wait then sys_wait p x ret k
      else if n = Sys_sbrk then Some (return_user p x (ret (- 1)) k)
      else if n = Sys_usleep then sys_usleep (unat (num_arg args 0)) p x ret k
      else Some (return_user p x (ret (word_of_int nosys)) k))"

section \<open>The scheduler\<close>

text \<open>
  What happens next: the scheduler takes a process off the run queue, the running process goes on to its next
  switch or return to user mode, the timer interrupts, or time passes. The timer waits while the kernel runs
  a process.
\<close>

datatype event = Dispatch | Run memory | Tick | Elapse nat

definition dispatch :: "'u kernel \<Rightarrow> 'u kernel" where
  "dispatch k =
     (case current k of
        Some _ \<Rightarrow> k
      | None \<Rightarrow> (case pop_back Runq k of None \<Rightarrow> k | Some (p, k) \<Rightarrow> k\<lparr>current := Some p\<rparr>))"

definition run_proc :: "('u \<Rightarrow> 'u uop) \<Rightarrow> files \<Rightarrow> memory \<Rightarrow> pid \<Rightarrow> 'u proc \<Rightarrow> 'u kernel \<Rightarrow> 'u kernel option" where
  "run_proc prog files mem p x k =
     (case prog (user x) of
        Fault \<Rightarrow> sys_exit p x k
      | Spin \<Rightarrow> Some k
      | Ecall n args cont \<Rightarrow>
          (case resume x of
             ToUser \<Rightarrow> syscall_handler files mem p x n args cont k
           | InWait \<Rightarrow> wait_loop p x (\<lambda>w. cont w '''') k
           | InSleep start us \<Rightarrow> sleep_loop start us p x (\<lambda>w. cont w '''') k))"

definition irq_handler :: "'u kernel \<Rightarrow> 'u kernel option" where
  "irq_handler k =
     (case current k of
        None \<Rightarrow> wake_all Ticksq k
      | Some p \<Rightarrow> do {
          x \<leftarrow> procs k p;
          if resume x = ToUser then do { k \<leftarrow> wake_all Ticksq k; yield_proc p k } else Some k
        })"

definition kernel_step :: "('u \<Rightarrow> 'u uop) \<Rightarrow> files \<Rightarrow> event \<Rightarrow> 'u kernel \<Rightarrow> 'u kernel option" where
  "kernel_step prog files ev k =
     (case ev of
        Dispatch \<Rightarrow> Some (dispatch k)
      | Run mem \<Rightarrow> (case current k of None \<Rightarrow> Some k | Some p \<Rightarrow> do { x \<leftarrow> procs k p; run_proc prog files mem p x k })
      | Tick \<Rightarrow> irq_handler k
      | Elapse t \<Rightarrow> Some (k\<lparr>now := now k + t\<rparr>))"

definition run_kernel :: "('u \<Rightarrow> 'u uop) \<Rightarrow> files \<Rightarrow> event list \<Rightarrow> 'u kernel \<Rightarrow> 'u kernel option" where
  "run_kernel prog files evs k = foldM (kernel_step prog files) evs k"

text \<open>The first process, which the kernel loads and puts on the run queue.\<close>

definition boot :: "'u \<Rightarrow> 'u kernel" where
  "boot u = \<lparr>procs = [0 \<mapsto> \<lparr>user = u, resume = ToUser, parent = None, children = 0, pstate = Runnable, wq = None\<rparr>],
     next_pid = 1, queues = (\<lambda>q. if q = Runq then [0] else []), current = None, now = 0, console = []\<rparr>"

end
