(* ===== verification/UserLib.thy ===== *)
theory UserLib
  imports Kernel
begin

text \<open>
  The system call stubs, user/syslib/syscall.h and syslib.c. A stub is what the process does next, given how it goes on
  with the result; the results of \<open>int\<close> stubs are the low 32 bits of the register.
\<close>

section \<open>syscall.h\<close>

definition syscall_0 :: "u64 \<Rightarrow> (u64 \<Rightarrow> 'u) \<Rightarrow> 'u uop" where
  "syscall_0 sysno ret = Ecall sysno [] (\<lambda>w _. ret w)"

definition syscall_1 :: "u64 \<Rightarrow> arg \<Rightarrow> (u64 \<Rightarrow> 'u) \<Rightarrow> 'u uop" where
  "syscall_1 sysno arg0 ret = Ecall sysno [arg0] (\<lambda>w _. ret w)"

definition syscall_2 :: "u64 \<Rightarrow> arg \<Rightarrow> arg \<Rightarrow> (u64 \<Rightarrow> string \<Rightarrow> 'u) \<Rightarrow> 'u uop" where
  "syscall_2 sysno arg0 arg1 ret = Ecall sysno [arg0, arg1] ret"

definition syscall_3 :: "u64 \<Rightarrow> arg \<Rightarrow> arg \<Rightarrow> arg \<Rightarrow> (u64 \<Rightarrow> string \<Rightarrow> 'u) \<Rightarrow> 'u uop" where
  "syscall_3 sysno arg0 arg1 arg2 ret = Ecall sysno [arg0, arg1, arg2] ret"

abbreviation SYS_WRITE :: u64 where "SYS_WRITE \<equiv> 0"
abbreviation SYS_GETPID :: u64 where "SYS_GETPID \<equiv> 1"
abbreviation SYS_EXIT :: u64 where "SYS_EXIT \<equiv> 2"
abbreviation SYS_FORK :: u64 where "SYS_FORK \<equiv> 3"
abbreviation SYS_WAIT :: u64 where "SYS_WAIT \<equiv> 4"
abbreviation SYS_SBRK :: u64 where "SYS_SBRK \<equiv> 5"
abbreviation SYS_USLEEP :: u64 where "SYS_USLEEP \<equiv> 6"
abbreviation SYS_READ :: u64 where "SYS_READ \<equiv> 7"
abbreviation SYS_OPEN :: u64 where "SYS_OPEN \<equiv> 8"
abbreviation SYS_FSTAT :: u64 where "SYS_FSTAT \<equiv> 11"

section \<open>syslib.c\<close>

definition c_int :: "u64 \<Rightarrow> int" where
  "c_int w = sint (ucast w :: s32)"

text \<open>\<open>_open\<close> hands the kernel its third argument, not the flags.\<close>

definition lib_open :: "string \<Rightarrow> int \<Rightarrow> int \<Rightarrow> (int \<Rightarrow> 'u) \<Rightarrow> 'u uop" where
  "lib_open name oflags mode ret = syscall_2 SYS_OPEN (Ptr name) (Num (word_of_int mode)) (\<lambda>w _. ret (c_int w))"

definition mstat :: "int \<Rightarrow> (int \<Rightarrow> string \<Rightarrow> 'u) \<Rightarrow> 'u uop" where
  "mstat fd ret = syscall_2 SYS_FSTAT (Num (word_of_int fd)) (Ptr '''') (\<lambda>w stored. ret (c_int w) stored)"

definition lib_read :: "int \<Rightarrow> int \<Rightarrow> (int \<Rightarrow> string \<Rightarrow> 'u) \<Rightarrow> 'u uop" where
  "lib_read fd len ret =
     syscall_3 SYS_READ (Num (word_of_int fd)) (Ptr '''') (Num (word_of_int len)) (\<lambda>w stored. ret (c_int w) stored)"

definition lib_write :: "int \<Rightarrow> string \<Rightarrow> (int \<Rightarrow> 'u) \<Rightarrow> 'u uop" where
  "lib_write fd s ret =
     syscall_3 SYS_WRITE (Num (word_of_int fd)) (Ptr s) (Num (word_of_int (int (length s)))) (\<lambda>w _. ret (c_int w))"

definition lib_fork :: "(int \<Rightarrow> 'u) \<Rightarrow> 'u uop" where
  "lib_fork ret = syscall_0 SYS_FORK (\<lambda>w. ret (c_int w))"

definition lib_wait :: "(int \<Rightarrow> 'u) \<Rightarrow> 'u uop" where
  "lib_wait ret = syscall_0 SYS_WAIT (\<lambda>w. ret (c_int w))"

definition lib_getpid :: "(int \<Rightarrow> 'u) \<Rightarrow> 'u uop" where
  "lib_getpid ret = syscall_0 SYS_GETPID (\<lambda>w. ret (c_int w))"

definition lib_usleep :: "u64 \<Rightarrow> (int \<Rightarrow> 'u) \<Rightarrow> 'u uop" where
  "lib_usleep us ret = syscall_1 SYS_USLEEP (Num us) (\<lambda>w. ret (c_int w))"

definition lib_sbrk :: "int \<Rightarrow> (u64 \<Rightarrow> 'u) \<Rightarrow> 'u uop" where
  "lib_sbrk incr ret = syscall_1 SYS_SBRK (Num (word_of_int incr)) ret"

text \<open>\<open>_exit\<close> goes on with its \<open>while (1)\<close> loop.\<close>

definition lib_exit :: "'u \<Rightarrow> 'u uop" where
  "lib_exit spinning = syscall_0 SYS_EXIT (\<lambda>_. spinning)"

text \<open>
  The stubs that make no call and answer with a constant; \<open>_fstat\<close> also stores the mode of a terminal. \<open>_close\<close> is one of them, so
  the kernel's own \<open>close\<close> is never reached.
\<close>

abbreviation S_IFCHR :: u32 where "S_IFCHR \<equiv> 0x2000"

definition lib_execve :: "string \<Rightarrow> string list \<Rightarrow> string list \<Rightarrow> int" where
  "lib_execve name argv env = - 1"

definition lib_close :: "int \<Rightarrow> int" where
  "lib_close file = - 1"

definition lib_fstat :: "int \<Rightarrow> u32 \<times> int" where
  "lib_fstat file = (S_IFCHR, 0)"

definition lib_isatty :: "int \<Rightarrow> int" where
  "lib_isatty file = 1"

definition lib_lseek :: "int \<Rightarrow> int \<Rightarrow> int \<Rightarrow> int" where
  "lib_lseek file p dir = 0"

definition lib_unlink :: "string \<Rightarrow> int" where
  "lib_unlink name = - 1"

definition lib_times :: "nat list \<Rightarrow> int" where
  "lib_times buf = - 1"

lemmas stub_defs = syscall_0_def syscall_1_def syscall_2_def syscall_3_def lib_open_def mstat_def lib_read_def lib_write_def lib_fork_def
  lib_wait_def lib_getpid_def lib_usleep_def lib_sbrk_def lib_exit_def

lemma c_int_of_int: "0 \<le> i \<Longrightarrow> i < 2 ^ 31 \<Longrightarrow> c_int (word_of_int i) = i"
  by (simp add: c_int_def ucast_eq sint_uint uint_word_of_int signed_take_bit_int_eq_self)

end
