(* ===== verification/KernelInv.thy ===== *)
theory KernelInv
  imports Kernel
begin

text \<open>
  The invariant of the kernel: every process is in the queue its state names, the number of its children is right, and a
  process that waits has a child and none that has exited. No program can break it, so no exit is missed.
\<close>

section \<open>The invariant\<close>

definition kids :: "'u kernel \<Rightarrow> pid \<Rightarrow> pid set" where
  "kids k p = {q. \<exists>y. procs k q = Some y \<and> parent y = Some p}"

definition zombie_kid :: "'u kernel \<Rightarrow> pid \<Rightarrow> bool" where
  "zombie_kid k p \<longleftrightarrow> (\<exists>z y. procs k z = Some y \<and> parent y = Some p \<and> pstate y = Exited)"

text \<open>The queue a process is in, none for the running one.\<close>

definition location :: "pid option \<Rightarrow> pid \<Rightarrow> 'u proc \<Rightarrow> queue option" where
  "location c p x =
     (case pstate x of
        Runnable \<Rightarrow> if c = Some p then None else Some Runq
      | Blocked \<Rightarrow> wq x
      | Exited \<Rightarrow> Some Exitq)"

definition queue_inv :: "'u kernel \<Rightarrow> bool" where
  "queue_inv k \<longleftrightarrow>
     (\<forall>q. distinct (queues k q) \<and> (\<forall>p. p \<in> set (queues k q) \<longleftrightarrow> (\<exists>x. procs k p = Some x \<and> location (current k) p x = Some q)))
   \<and> (\<forall>p. current k = Some p \<longrightarrow> (\<exists>x. procs k p = Some x \<and> pstate x = Runnable))"

text \<open>A process in the loop of \<open>sys_wait\<close> has a child, and none that has exited while it is blocked.\<close>

definition proc_inv :: "'u kernel \<Rightarrow> pid \<Rightarrow> 'u proc \<Rightarrow> bool" where
  "proc_inv k p x \<longleftrightarrow>
     p < next_pid k \<and> children x = card (kids k p) \<and> (\<forall>q. parent x = Some q \<longrightarrow> q < p)
   \<and> (resume x = InWait \<longrightarrow> 0 < children x)
   \<and> (pstate x = Blocked \<longrightarrow> wq x = Some Ticksq \<or> wq x = Some Waitq \<and> resume x = InWait \<and> \<not> zombie_kid k p)"

definition kernel_inv :: "'u kernel \<Rightarrow> bool" where
  "kernel_inv k \<longleftrightarrow> queue_inv k \<and> finite (dom (procs k)) \<and> (\<forall>p x. procs k p = Some x \<longrightarrow> proc_inv k p x)"

lemma kernel_invD:
  assumes "kernel_inv k"
  shows "queue_inv k" and "finite (dom (procs k))" and "procs k p = Some x \<Longrightarrow> proc_inv k p x"
  using assms by (auto simp: kernel_inv_def)

lemma finite_kids: "finite (dom (procs k)) \<Longrightarrow> finite (kids k p)"
  by (rule finite_subset [of _ "dom (procs k)"]) (auto simp: kids_def)

lemma boot_inv: "kernel_inv (boot u)"
  by (auto simp: kernel_inv_def queue_inv_def proc_inv_def boot_def location_def kids_def)

text \<open>One process changes its registers, its state or its queue, not its family.\<close>

lemma move_inv:
  assumes k: "kernel_inv k" and x: "procs k p = Some x" and k': "procs k' = (procs k)(p \<mapsto> x')" "next_pid k' = next_pid k"
    and same: "parent x' = parent x" "children x' = children x" and queues: "queue_inv k'"
    and waits: "resume x' = InWait \<Longrightarrow> 0 < children x"
      "pstate x' = Blocked \<Longrightarrow> wq x' = Some Ticksq \<or> wq x' = Some Waitq \<and> resume x' = InWait \<and> \<not> zombie_kid k p"
    and exits: "\<And>q y. pstate x' = Exited \<Longrightarrow> pstate x \<noteq> Exited \<Longrightarrow> parent x = Some q \<Longrightarrow> procs k q = Some y \<Longrightarrow>
      pstate y = Blocked \<Longrightarrow> wq y \<noteq> Some Waitq"
  shows "kernel_inv k'"
proof -
  have px: "proc_inv k p x" by (rule kernel_invD(3) [OF k x])
  have kids: "kids k' q = kids k q" for q using x k'(1) same(1) by (auto simp: kids_def)
  have zombies: "zombie_kid k q \<or> (pstate x' = Exited \<and> pstate x \<noteq> Exited \<and> parent x = Some q)" if "zombie_kid k' q" for q
    using that x k'(1) same(1) by (auto simp: zombie_kid_def split: if_splits)
  have own: "parent x \<noteq> Some p" using px by (auto simp: proc_inv_def)
  have "proc_inv k' q y" if y: "procs k' q = Some y" for q y
  proof (cases "q = p")
    case True
    then have "y = x'" using y k'(1) by simp
    then show ?thesis using px waits zombies [of p] own True by (auto simp: proc_inv_def kids k'(2) same)
  next
    case False
    then have y: "procs k q = Some y" using y k'(1) by simp
    then have "proc_inv k q y" by (rule kernel_invD(3) [OF k])
    then show ?thesis using zombies [of q] exits [OF _ _ _ y] by (auto simp: proc_inv_def kids k'(2))
  qed
  moreover have "finite (dom (procs k'))" using kernel_invD(2) [OF k] k'(1) by simp
  ultimately show ?thesis using queues by (simp add: kernel_inv_def)
qed

lemma return_user_inv:
  assumes k: "kernel_inv k" and x: "procs k p = Some x" "pstate x = Runnable"
  shows "kernel_inv (return_user p x u k)"
proof (rule move_inv [OF k x(1), where x' = "x\<lparr>user := u, resume := ToUser\<rparr>"])
  show "queue_inv (return_user p x u k)" using kernel_invD(1) [OF k] x
    by (auto simp: queue_inv_def return_user_def set_proc_def location_def)
qed (use x in \<open>auto simp: return_user_def set_proc_def\<close>)

lemma wake_inv:
  assumes k: "kernel_inv k" and x: "procs k p = Some x" "pstate x = Blocked" "wq x = Some q"
  shows "\<exists>k'. wake q p k = Some k' \<and> kernel_inv k' \<and> procs k' = (procs k)(p \<mapsto> x\<lparr>pstate := Runnable\<rparr>)
    \<and> queues k' = (queues k)(q := remove1 p (queues k q), Runq := p # queues k Runq) \<and> current k' = current k \<and> next_pid k' = next_pid k
    \<and> console k' = console k"
proof -
  let ?k = "push_front Runq p (set_proc p (Some (x\<lparr>pstate := Runnable\<rparr>)) (remove_proc q p k))"
  have px: "proc_inv k p x" by (rule kernel_invD(3) [OF k x(1)])
  then have q: "q = Ticksq \<or> q = Waitq" using x by (auto simp: proc_inv_def)
  then have qs: "queues ?k = (queues k)(q := remove1 p (queues k q), Runq := p # queues k Runq)"
    by (auto simp: push_front_def set_proc_def remove_proc_def fun_eq_iff)
  have c: "current k \<noteq> Some p" using kernel_invD(1) [OF k] x by (auto simp: queue_inv_def)
  have "kernel_inv ?k"
  proof (rule move_inv [OF k x(1), where x' = "x\<lparr>pstate := Runnable\<rparr>"])
    have ps: "procs ?k = (procs k)(p \<mapsto> x\<lparr>pstate := Runnable\<rparr>)" "current ?k = current k"
      by (simp_all add: push_front_def set_proc_def remove_proc_def)
    show "queue_inv ?k" using kernel_invD(1) [OF k] x c q unfolding queue_inv_def qs ps
      by (auto simp: location_def)
  qed (use px in \<open>auto simp: push_front_def set_proc_def remove_proc_def proc_inv_def\<close>)
  then show ?thesis using x qs by (auto simp: wake_def push_front_def set_proc_def remove_proc_def)
qed


text \<open>The running process leaves the processor.\<close>

lemma leave_inv:
  assumes k: "kernel_inv k" and c: "current k = Some p" and x: "procs k p = Some x"
    and q: "(q, st) \<in> {(Exitq, Exited), (Ticksq, Blocked), (Waitq, Blocked)}"
    and waits: "q = Waitq \<Longrightarrow> r = InWait \<and> \<not> zombie_kid k p" "r = InWait \<Longrightarrow> 0 < children x"
    and exits: "\<And>q' y. q = Exitq \<Longrightarrow> parent x = Some q' \<Longrightarrow> procs k q' = Some y \<Longrightarrow> pstate y = Blocked \<Longrightarrow> wq y \<noteq> Some Waitq"
  shows "\<exists>k'. yield_proc p (proc_wait q st p (x\<lparr>resume := r\<rparr>) k) = Some k' \<and> kernel_inv k'
    \<and> procs k' = (procs k)(p \<mapsto> x\<lparr>resume := r, pstate := st, wq := Some q\<rparr>) \<and> next_pid k' = next_pid k
    \<and> console k' = console k"
proof -
  let ?x = "x\<lparr>resume := r, pstate := st, wq := Some q\<rparr>"
  let ?k = "(proc_wait q st p (x\<lparr>resume := r\<rparr>) k)\<lparr>current := None\<rparr>"
  have f: "procs ?k = (procs k)(p \<mapsto> ?x)" "queues ?k = (queues k)(q := p # queues k q)" "current ?k = None" "next_pid ?k = next_pid k"
    "console ?k = console k"
    by (simp_all add: proc_wait_def push_front_def set_proc_def)
  have run: "pstate x = Runnable" using kernel_invD(1) [OF k] c x by (auto simp: queue_inv_def)
  have "kernel_inv ?k"
  proof (rule move_inv [OF k x, where x' = ?x])
    show "queue_inv ?k" using kernel_invD(1) [OF k] c x run q unfolding queue_inv_def f
      by (auto simp: location_def)
  qed (use f q waits exits in auto)
  moreover have "yield_proc p (proc_wait q st p (x\<lparr>resume := r\<rparr>) k) = Some ?k"
    using q by (auto simp: yield_proc_def proc_wait_def push_front_def set_proc_def)
  ultimately show ?thesis using f by auto
qed

lemma sleeping:
  assumes "kernel_inv k" and "p \<in> set (queues k Ticksq)"
  shows "\<exists>x. procs k p = Some x \<and> pstate x = Blocked \<and> wq x = Some Ticksq"
proof -
  obtain x where "procs k p = Some x" "location (current k) p x = Some Ticksq"
    using kernel_invD(1) [OF assms(1)] assms(2) by (auto simp: queue_inv_def)
  then show ?thesis by (cases "pstate x") (auto simp: location_def split: if_splits)
qed

lemma preempt_inv:
  assumes k: "kernel_inv k" and c: "current k = Some p"
  shows "\<exists>k'. yield_proc p k = Some k' \<and> kernel_inv k' \<and> procs k' = procs k \<and> next_pid k' = next_pid k
    \<and> console k' = console k"
proof -
  obtain x where x: "procs k p = Some x" "pstate x = Runnable" using kernel_invD(1) [OF k] c by (auto simp: queue_inv_def)
  let ?k = "push_front Runq p (k\<lparr>current := None\<rparr>)"
  have px: "proc_inv k p x" by (rule kernel_invD(3) [OF k x(1)])
  have "kernel_inv ?k"
  proof (rule move_inv [OF k x(1), where x' = x])
    show "queue_inv ?k" using kernel_invD(1) [OF k] c x unfolding queue_inv_def
      by (auto simp: location_def push_front_def)
  qed (use x px in \<open>auto simp: push_front_def proc_inv_def\<close>)
  then show ?thesis using x by (auto simp: yield_proc_def push_front_def)
qed

lemma dispatch_inv:
  assumes k: "kernel_inv k"
  shows "kernel_inv (dispatch k)"
proof (cases "current k = None \<and> queues k Runq \<noteq> []")
  case False
  then show ?thesis using k by (auto simp: dispatch_def pop_back_def split: option.splits)
next
  case True
  define p where p: "p = last (queues k Runq)"
  let ?k = "(remove_proc Runq p k)\<lparr>current := Some p\<rparr>"
  have d: "dispatch k = ?k" using True by (simp add: dispatch_def pop_back_def p Let_def)
  have "p \<in> set (queues k Runq)" using True by (simp add: p)
  then obtain x where x: "procs k p = Some x" "location None p x = Some Runq"
    using kernel_invD(1) [OF k] True by (auto simp: queue_inv_def)
  have px: "proc_inv k p x" by (rule kernel_invD(3) [OF k x(1)])
  have run: "pstate x = Runnable" using x(2) px by (auto simp: location_def proc_inv_def split: pstate.splits)
  show ?thesis unfolding d
  proof (rule move_inv [OF k x(1), where x' = x])
    show "queue_inv ?k" using kernel_invD(1) [OF k] True x run unfolding queue_inv_def
      by (auto simp: location_def remove_proc_def split: if_splits)
  qed (use x run px in \<open>auto simp: remove_proc_def proc_inv_def\<close>)
qed

lemma wake_all_inv:
  assumes "kernel_inv k" and "distinct ts"
    and "\<And>p. p \<in> set ts \<Longrightarrow> \<exists>x. procs k p = Some x \<and> pstate x = Blocked \<and> wq x = Some Ticksq"
  shows "\<exists>k'. foldM (wake Ticksq) ts k = Some k' \<and> kernel_inv k' \<and> current k' = current k \<and> next_pid k' = next_pid k
    \<and> console k' = console k \<and> (\<forall>p. procs k' p = map_option (\<lambda>x. if p \<in> set ts then x\<lparr>pstate := Runnable\<rparr> else x) (procs k p))"
  using assms
proof (induction ts arbitrary: k)
  case Nil
  then show ?case by (auto simp: option.map_ident)
next
  case (Cons t ts)
  obtain x where x: "procs k t = Some x" "pstate x = Blocked" "wq x = Some Ticksq" using Cons.prems(3) [of t] by auto
  obtain k1 where k1: "wake Ticksq t k = Some k1" "kernel_inv k1" "procs k1 = (procs k)(t \<mapsto> x\<lparr>pstate := Runnable\<rparr>)"
    "current k1 = current k" "next_pid k1 = next_pid k" "console k1 = console k"
    using wake_inv [OF Cons.prems(1) x] by blast
  have "\<exists>y. procs k1 p = Some y \<and> pstate y = Blocked \<and> wq y = Some Ticksq" if "p \<in> set ts" for p
    using Cons.prems(2) Cons.prems(3) [of p] that by (auto simp: k1(3))
  then obtain k' where "foldM (wake Ticksq) ts k1 = Some k'" "kernel_inv k'" "current k' = current k1" "next_pid k' = next_pid k1" "console k' = console k1"
    "\<forall>p. procs k' p = map_option (\<lambda>x. if p \<in> set ts then x\<lparr>pstate := Runnable\<rparr> else x) (procs k1 p)"
    using Cons.IH [OF k1(2)] Cons.prems(2) by auto
  then show ?case using k1 x Cons.prems(2) by (auto simp: fun_eq_iff)
qed


lemma fork_inv:
  assumes k: "kernel_inv k" and c: "current k = Some p" and x: "procs k p = Some x"
  shows "kernel_inv (sys_fork mem p x ret k)"
proof -
  have run: "pstate x = Runnable" using kernel_invD(1) [OF k] c x by (auto simp: queue_inv_def)
  note px = kernel_invD(3) [OF k x]
  show ?thesis
  proof (cases mem)
    case No_proc
    then show ?thesis using return_user_inv [OF k x run] by (simp add: sys_fork_def)
  next
    case No_pages
    have "kernel_inv (k\<lparr>next_pid := next_pid k + 1\<rparr>)" using k
      by (fastforce simp: kernel_inv_def queue_inv_def proc_inv_def kids_def zombie_kid_def)
    then show ?thesis using return_user_inv [of "k\<lparr>next_pid := next_pid k + 1\<rparr>" p x] x run No_pages by (simp add: sys_fork_def)
  next
    case Enough
    define n where n: "n = next_pid k"
    define y where y: "y = \<lparr>user = ret 0, resume = ToUser, parent = Some p, children = 0, pstate = Runnable, wq = None\<rparr>"
    define x' where x': "x' = x\<lparr>children := children x + 1, user := ret (word_of_int n), resume := ToUser\<rparr>"
    let ?k = "sys_fork mem p x ret k"
    have old: "q < n" if "procs k q = Some z" for q z using kernel_invD(3) [OF k that] by (simp add: proc_inv_def n)
    have fresh: "procs k n = None" using old [of n] by (cases "procs k n") auto
    have pn: "p < n" by (rule old [OF x])
    have f: "procs ?k = (procs k)(n \<mapsto> y, p \<mapsto> x')" "queues ?k = (queues k)(Runq := n # queues k Runq)" "current ?k = current k"
      "next_pid ?k = n + 1"
      using Enough by (simp_all add: sys_fork_def return_user_def set_proc_def push_front_def Let_def n y x' fun_upd_twist)
    have noparent: "parent z \<noteq> Some n" if "procs k q = Some z" for q z
      using kernel_invD(3) [OF k that] by (auto simp: proc_inv_def n)
    have kids: "kids ?k q = (if q = p then insert n (kids k p) else kids k q)" for q
      using x pn fresh by (auto simp: kids_def f y x')
    have kn: "kids k n = {}" using noparent by (auto simp: kids_def)
    have "n \<notin> kids k p" using fresh by (simp add: kids_def)
    then have card: "card (kids ?k p) = children x + 1"
      using px finite_kids [OF kernel_invD(2) [OF k]] by (simp add: kids proc_inv_def)
    have zombies: "zombie_kid ?k q \<Longrightarrow> zombie_kid k q" for q
      using x run by (auto simp: zombie_kid_def f y x' split: if_splits)
    have "proc_inv ?k q z" if z: "procs ?k q = Some z" for q z
    proof -
      consider "q = p" "z = x'" | "q = n" "z = y" | "q \<noteq> p" "q \<noteq> n" "procs k q = Some z" using z by (auto simp: f split: if_splits)
      then show ?thesis
      proof cases
        case 1
        then show ?thesis using px card pn run by (auto simp: proc_inv_def f x')
      next
        case 2
        then show ?thesis using pn kn by (auto simp: proc_inv_def f y kids)
      next
        case 3
        then show ?thesis using kernel_invD(3) [OF k 3(3)] zombies [of q] by (auto simp: proc_inv_def f kids n)
      qed
    qed
    moreover have "queue_inv ?k"
    proof -
      have "n \<notin> set (queues k q)" for q using kernel_invD(1) [OF k] fresh by (simp add: queue_inv_def)
      moreover have "location c' p x' = location c' p x" for c' by (simp add: location_def x' split: pstate.splits)
      moreover have "current k \<noteq> Some n" using c pn by simp
      ultimately show ?thesis using kernel_invD(1) [OF k] c x run pn fresh unfolding queue_inv_def f
        by (auto simp: location_def y x')
    qed
    ultimately show ?thesis using kernel_invD(2) [OF k] unfolding kernel_inv_def by (auto simp: f)
  qed
qed

lemma zombie_of_Some:
  assumes "zombie_of p k = Some z" and k: "kernel_inv k"
  shows "\<exists>y. procs k z = Some y \<and> parent y = Some p \<and> pstate y = Exited"
proof -
  have z: "z \<in> set (queues k Exitq)" "case procs k z of None \<Rightarrow> False | Some y \<Rightarrow> parent y = Some p"
    using assms(1) by (auto simp: zombie_of_def find_Some_iff in_set_conv_nth)
  then obtain y where y: "procs k z = Some y" "parent y = Some p" "location (current k) z y = Some Exitq"
    using kernel_invD(1) [OF k] by (auto simp: queue_inv_def split: option.splits)
  then show ?thesis using kernel_invD(3) [OF k y(1)] by (auto simp: location_def proc_inv_def split: pstate.splits if_splits)
qed

lemma zombie_of_None:
  assumes "zombie_of p k = None" and k: "kernel_inv k"
  shows "\<not> zombie_kid k p"
proof
  assume "zombie_kid k p"
  then obtain z y where z: "procs k z = Some y" "parent y = Some p" "pstate y = Exited" by (auto simp: zombie_kid_def)
  then have "z \<in> set (queues k Exitq)" using kernel_invD(1) [OF k] by (auto simp: queue_inv_def location_def)
  then show False using assms(1) z by (auto simp: zombie_of_def find_None_iff)
qed

lemma reap_inv:
  assumes k: "kernel_inv k" and c: "current k = Some p" and x: "procs k p = Some x" and z: "zombie_of p k = Some z"
  shows "kernel_inv (return_user p (x\<lparr>children := children x - 1\<rparr>) u (set_proc z None (remove_proc Exitq z k)))"
proof -
  define k' where k': "k' = return_user p (x\<lparr>children := children x - 1\<rparr>) u (set_proc z None (remove_proc Exitq z k))"
  have run: "pstate x = Runnable" using kernel_invD(1) [OF k] c x by (auto simp: queue_inv_def)
  note px = kernel_invD(3) [OF k x]
  obtain y where y: "procs k z = Some y" "parent y = Some p" "pstate y = Exited" using zombie_of_Some [OF z k] by blast
  have zp: "z \<noteq> p" using y x run by auto
  define x' where x': "x' = x\<lparr>children := children x - 1, user := u, resume := ToUser\<rparr>"
  have f: "procs k' = (procs k)(z := None, p \<mapsto> x')" "queues k' = (queues k)(Exitq := remove1 z (queues k Exitq))"
    "current k' = current k" "next_pid k' = next_pid k"
    by (simp_all add: k' return_user_def set_proc_def remove_proc_def x')
  have kids: "kids k' q = (if q = p then kids k p - {z} else kids k q)" for q
    using x y zp by (auto simp: kids_def f x')
  have "z \<in> kids k p" using y by (simp add: kids_def)
  then have card: "card (kids k' p) = children x - 1"
    using px finite_kids [OF kernel_invD(2) [OF k]] by (simp add: kids proc_inv_def)
  have zombies: "zombie_kid k' q \<Longrightarrow> zombie_kid k q" for q
    using x run by (auto simp: zombie_kid_def f x' split: if_splits)
  have "proc_inv k' q w" if w: "procs k' q = Some w" for q w
  proof (cases "q = p")
    case True
    then show ?thesis using w px card run by (auto simp: proc_inv_def f x')
  next
    case False
    then have "procs k q = Some w" using w by (auto simp: f split: if_splits)
    then show ?thesis using kernel_invD(3) [OF k, of q w] False zombies [of q] by (auto simp: proc_inv_def f kids)
  qed
  moreover have "queue_inv k'" using kernel_invD(1) [OF k] x y run zp unfolding queue_inv_def f
    by (auto simp: location_def x')
  ultimately have "kernel_inv k'" using kernel_invD(2) [OF k] unfolding kernel_inv_def by (auto simp: f)
  then show ?thesis unfolding k' .
qed


section \<open>Steps\<close>

text \<open>An exiting process reads its parent, which may be gone.\<close>

definition parent_gone :: "'u kernel \<Rightarrow> bool" where
  "parent_gone k \<longleftrightarrow> (\<exists>p x q. current k = Some p \<and> procs k p = Some x \<and> parent x = Some q \<and> procs k q = None)"

definition step_ok :: "'u kernel \<Rightarrow> 'u kernel option \<Rightarrow> bool" where
  "step_ok k r \<longleftrightarrow> (case r of None \<Rightarrow> parent_gone k | Some k' \<Rightarrow> kernel_inv k')"

lemma step_ok_simps [simp]: "step_ok k (Some k') = kernel_inv k'" "step_ok k None = parent_gone k"
  by (simp_all add: step_ok_def)

lemma wake_parent_inv:
  assumes k: "kernel_inv k" and c: "current k = Some p" and x: "procs k p = Some x" and alive: "\<not> parent_gone k"
  shows "\<exists>k1. wake_parent x k = Some k1 \<and> kernel_inv k1 \<and> current k1 = Some p \<and> procs k1 p = Some x
    \<and> next_pid k1 = next_pid k \<and> console k1 = console k
    \<and> (procs k1 = procs k \<or> (\<exists>q y. procs k q = Some y \<and> procs k1 = (procs k)(q \<mapsto> y\<lparr>pstate := Runnable\<rparr>)))
    \<and> (\<forall>q y. parent x = Some q \<longrightarrow> procs k1 q = Some y \<longrightarrow> pstate y = Blocked \<longrightarrow> wq y \<noteq> Some Waitq)"
proof (cases "parent x")
  case None
  then show ?thesis using k c x by (auto simp: wake_parent_def)
next
  case (Some q)
  then obtain y where y: "procs k q = Some y" using alive c x by (auto simp: parent_gone_def)
  show ?thesis
  proof (cases "pstate y = Blocked \<and> wq y = Some Waitq")
    case True
    then obtain k1 where k1: "wake Waitq q k = Some k1" "kernel_inv k1" "procs k1 = (procs k)(q \<mapsto> y\<lparr>pstate := Runnable\<rparr>)"
      "current k1 = current k" "next_pid k1 = next_pid k" "console k1 = console k"
      using wake_inv [OF k y] by blast
    have "q \<noteq> p" using kernel_invD(3) [OF k x] Some by (auto simp: proc_inv_def)
    moreover have "wake_parent x k = Some k1" using Some y True k1(1) by (simp add: wake_parent_def)
    ultimately show ?thesis using k1(2-6) c x y Some by auto
  next
    case False
    then show ?thesis using k c x y Some by (auto simp: wake_parent_def)
  qed
qed

lemma exit_inv:
  assumes k: "kernel_inv k" and c: "current k = Some p" and x: "procs k p = Some x"
  shows "step_ok k (sys_exit p x k)"
proof (cases "parent_gone k")
  case True
  then show ?thesis using c x by (auto simp: parent_gone_def sys_exit_def wake_parent_def)
next
  case False
  then obtain k1 where k1: "wake_parent x k = Some k1" "kernel_inv k1" "current k1 = Some p" "procs k1 p = Some x"
    "\<forall>q y. parent x = Some q \<longrightarrow> procs k1 q = Some y \<longrightarrow> pstate y = Blocked \<longrightarrow> wq y \<noteq> Some Waitq"
    using wake_parent_inv [OF assms] by auto
  have "\<exists>k'. yield_proc p (proc_wait Exitq Exited p x k1) = Some k' \<and> kernel_inv k'"
    using leave_inv [OF k1(2-4), of Exitq Exited "resume x"] k1(5) kernel_invD(3) [OF k1(2,4)] by (auto simp: proc_inv_def)
  then show ?thesis using k1(1) by (auto simp: sys_exit_def)
qed

lemma wait_loop_inv:
  assumes k: "kernel_inv k" and c: "current k = Some p" and x: "procs k p = Some x" "0 < children x"
  shows "step_ok k (wait_loop p x ret k)"
proof (cases "zombie_of p k")
  case None
  then show ?thesis using leave_inv [OF k c x(1), of Waitq Blocked InWait] zombie_of_None [OF None k] x(2) by (auto simp: wait_loop_def)
next
  case (Some z)
  then show ?thesis using reap_inv [OF k c x(1) Some] by (simp add: wait_loop_def)
qed

lemma sleep_loop_inv:
  assumes k: "kernel_inv k" and c: "current k = Some p" and x: "procs k p = Some x"
  shows "step_ok k (sleep_loop start us p x ret k)"
proof -
  have "pstate x = Runnable" using kernel_invD(1) [OF k] c x by (auto simp: queue_inv_def)
  then show ?thesis using leave_inv [OF k c x, of Ticksq Blocked "InSleep start us"] return_user_inv [OF k x] by (auto simp: sleep_loop_def)
qed

lemma console_inv: "kernel_inv (k\<lparr>console := out\<rparr>) \<longleftrightarrow> kernel_inv k"
  by (simp add: kernel_inv_def queue_inv_def proc_inv_def kids_def zombie_kid_def)

lemma now_inv: "kernel_inv (k\<lparr>now := t\<rparr>) \<longleftrightarrow> kernel_inv k"
  by (simp add: kernel_inv_def queue_inv_def proc_inv_def kids_def zombie_kid_def)

lemma handler_inv:
  assumes k: "kernel_inv k" and c: "current k = Some p" and x: "procs k p = Some x"
  shows "step_ok k (syscall_handler files mem p x n args cont k)"
proof -
  have run: "pstate x = Runnable" using kernel_invD(1) [OF k] c x by (auto simp: queue_inv_def)
  note ret = return_user_inv [OF k x run]
  have "kernel_inv (return_user p x u (k\<lparr>console := out\<rparr>))" for u out
    by (rule return_user_inv) (use k x run in \<open>simp_all add: console_inv\<close>)
  then show ?thesis
    using ret exit_inv [OF assms] fork_inv [OF k c x] wait_loop_inv [OF k c x] sleep_loop_inv [OF k c x]
    by (simp add: syscall_handler_def sys_wait_def sys_usleep_def split_beta Let_def)
qed

lemma step_inv:
  assumes k: "kernel_inv k"
  shows "step_ok k (kernel_step prog files ev k)"
proof (cases ev)
  case Dispatch
  then show ?thesis using dispatch_inv [OF k] by (simp add: kernel_step_def)
next
  case (Elapse t)
  then show ?thesis using k by (simp add: kernel_step_def now_inv)
next
  case (Run mem)
  show ?thesis
  proof (cases "current k")
    case None
    then show ?thesis using k Run by (simp add: kernel_step_def)
  next
    case (Some p)
    then obtain x where x: "procs k p = Some x" using kernel_invD(1) [OF k] by (auto simp: queue_inv_def)
    have kids: "resume x = InWait \<Longrightarrow> 0 < children x" using kernel_invD(3) [OF k x] by (simp add: proc_inv_def)
    show ?thesis
    proof (cases "prog (user x)")
      case (Ecall n args cont)
      then show ?thesis using Run Some x kids handler_inv [OF k Some x] wait_loop_inv [OF k Some x] sleep_loop_inv [OF k Some x]
        by (cases "resume x") (simp_all add: kernel_step_def run_proc_def)
    next
      case Spin
      then show ?thesis using Run Some x k by (simp add: kernel_step_def run_proc_def)
    next
      case Fault
      then show ?thesis using Run Some x exit_inv [OF k Some x] by (simp add: kernel_step_def run_proc_def)
    qed
  qed
next
  case Tick
  have "distinct (queues k Ticksq)" using kernel_invD(1) [OF k] by (simp add: queue_inv_def)
  then obtain k1 where k1: "wake_all Ticksq k = Some k1" "kernel_inv k1" "current k1 = current k"
    using wake_all_inv [OF k _ sleeping [OF k]] unfolding wake_all_def by blast
  show ?thesis
  proof (cases "current k")
    case None
    then show ?thesis using Tick k1 by (simp add: kernel_step_def irq_handler_def)
  next
    case (Some p)
    then obtain x where "procs k p = Some x" using kernel_invD(1) [OF k] by (auto simp: queue_inv_def)
    then show ?thesis using Tick Some k k1 preempt_inv [of k1 p] by (auto simp: kernel_step_def irq_handler_def)
  qed
qed

text \<open>The wait queue is empty when nothing runs or sleeps: a process in it has a child that has not exited, with a greater \<open>pid\<close>.\<close>

lemma no_deadlock:
  assumes k: "kernel_inv k" and idle: "current k = None" "queues k Runq = []" "queues k Ticksq = []"
  shows "procs k p = Some x \<Longrightarrow> pstate x = Exited"
proof -
  have blocked: "pstate y = Blocked \<and> wq y = Some Waitq" if y: "procs k q = Some y" "pstate y \<noteq> Exited" for q y
  proof -
    have "location None q y \<noteq> Some Runq" "location None q y \<noteq> Some Ticksq"
      using kernel_invD(1) [OF k] idle y(1) by (auto simp: queue_inv_def) (metis empty_iff list.set(1))+
    then show ?thesis using y(2) kernel_invD(3) [OF k y(1)] by (auto simp: location_def proc_inv_def split: pstate.splits)
  qed
  let ?W = "{q. \<exists>y. procs k q = Some y \<and> pstate y \<noteq> Exited}"
  have fin: "finite ?W" by (rule finite_subset [OF _ kernel_invD(2) [OF k]]) auto
  have "?W = {}"
  proof (rule ccontr)
    assume ne: "?W \<noteq> {}"
    then obtain y where y: "procs k (Max ?W) = Some y" "pstate y \<noteq> Exited" using Max_in [OF fin ne] by auto
    note py = kernel_invD(3) [OF k y(1)]
    have "0 < card (kids k (Max ?W))" "\<not> zombie_kid k (Max ?W)" using py blocked [OF y] by (auto simp: proc_inv_def)
    then obtain z w where z: "procs k z = Some w" "parent w = Some (Max ?W)" "pstate w \<noteq> Exited"
      by (auto simp: kids_def zombie_kid_def card_gt_0_iff)
    then have "Max ?W < z" using kernel_invD(3) [OF k z(1)] by (simp add: proc_inv_def)
    moreover have "z \<le> Max ?W" using fin z by (intro Max_ge) auto
    ultimately show False by simp
  qed
  then show "procs k p = Some x \<Longrightarrow> pstate x = Exited" by blast
qed

section \<open>Runs\<close>

lemma run_kernel_snoc: "run_kernel prog files (evs @ [ev]) k = Option.bind (run_kernel prog files evs k) (kernel_step prog files ev)"
  unfolding run_kernel_def by (induction evs arbitrary: k) (simp_all split: option.splits)

lemma run_kernel_append: "run_kernel prog files (evs @ evs') k = Option.bind (run_kernel prog files evs k) (run_kernel prog files evs')"
  unfolding run_kernel_def by (induction evs arbitrary: k) (simp_all split: option.splits)

lemma run_inv: "run_kernel prog files evs (boot u) = Some k \<Longrightarrow> kernel_inv k"
proof (induction evs arbitrary: k rule: rev_induct)
  case Nil
  then show ?case using boot_inv by (auto simp: run_kernel_def)
next
  case (snoc ev evs)
  then obtain k1 where "run_kernel prog files evs (boot u) = Some k1" "kernel_step prog files ev k1 = Some k"
    unfolding run_kernel_snoc by (auto simp: bind_eq_Some_iff)
  then show ?case using snoc.IH step_inv [of k1 prog files ev] by simp
qed

text \<open>
  C9: whatever the processes do and however they are interleaved with the timer, the system calls cannot deadlock: when no
  process runs, can run or sleeps, every process has exited. In particular no exit is missed by a waiting parent.
\<close>

theorem kernel_no_deadlock:
  assumes "run_kernel prog files evs (boot u) = Some k" and "current k = None" and "queues k Runq = []" and "queues k Ticksq = []"
  shows "procs k p = Some x \<Longrightarrow> pstate x = Exited"
  using run_inv [OF assms(1)] assms(2-4) by (rule no_deadlock)

text \<open>A parent and a child.\<close>

fun fork_wait_prog :: "nat \<Rightarrow> nat uop" where
  "fork_wait_prog n =
     (if n = 0 then Ecall 3 [] (\<lambda>w _. if w = 0 then 2 else 1)
      else if n = 1 then Ecall 4 [] (\<lambda>_ _. 2)
      else Ecall 2 [] (\<lambda>_ _. 2))"

definition no_files :: files where
  "no_files n args = (- 1, '''')"

theorem kernel_no_deadlock_witness:
  "\<exists>k x. run_kernel fork_wait_prog no_files [Dispatch, Run Enough, Run Enough, Dispatch, Run Enough, Dispatch, Run Enough, Run Enough] (boot 0) = Some k
    \<and> procs k 0 = Some x \<and> pstate x = Exited"
proof -
  let ?evs = "[Dispatch, Run Enough, Run Enough, Dispatch, Run Enough, Dispatch, Run Enough, Run Enough]"
  define r where r: "r = run_kernel fork_wait_prog no_files ?evs (boot 0)"
  have "case r of None \<Rightarrow> False | Some k \<Rightarrow> current k = None \<and> queues k Runq = [] \<and> queues k Ticksq = [] \<and> procs k 0 \<noteq> None"
    unfolding r by code_simp
  then obtain k x where k: "r = Some k" "current k = None" "queues k Runq = []" "queues k Ticksq = []" "procs k 0 = Some x"
    by (auto split: option.splits)
  then show ?thesis using kernel_no_deadlock [of fork_wait_prog no_files ?evs 0 k 0 x] unfolding r by blast
qed

text \<open>A process, its child and its grandchild: the child exits first.\<close>

fun orphan_prog :: "nat \<Rightarrow> nat uop" where
  "orphan_prog n =
     (if n = 0 then Ecall 3 [] (\<lambda>w _. if w = 0 then 3 else 1)
      else if n = 1 then Ecall 4 [] (\<lambda>_ _. 2)
      else if n = 2 then Ecall 6 [Num 1] (\<lambda>_ _. 2)
      else if n = 3 then Ecall 3 [] (\<lambda>_ _. 4)
      else Ecall 2 [] (\<lambda>_ _. 4))"

text \<open>
  C24: the kernel fails only when a process exits whose parent was freed before, because \<open>sys_exit\<close> reads the parent;
  and that happens, to a process whose parent exits and is waited for first.
\<close>

theorem exit_reads_freed_parent:
  "(run_kernel prog files evs (boot u) = None \<longleftrightarrow>
     (\<exists>evs1 ev evs2 k. evs = evs1 @ ev # evs2 \<and> run_kernel prog files evs1 (boot u) = Some k \<and> parent_gone k \<and> kernel_step prog files ev k = None))
   \<and> (\<exists>evs. run_kernel orphan_prog no_files evs (boot 0) = None)"
proof
  note append = run_kernel_append
  have cons: "run_kernel prog files (ev # evs2) k = Option.bind (kernel_step prog files ev k) (run_kernel prog files evs2)" for ev evs2 k
    by (simp add: run_kernel_def split: option.splits bind_splits)
  show "run_kernel prog files evs (boot u) = None \<longleftrightarrow>
     (\<exists>evs1 ev evs2 k. evs = evs1 @ ev # evs2 \<and> run_kernel prog files evs1 (boot u) = Some k \<and> parent_gone k \<and> kernel_step prog files ev k = None)"
  proof
    assume "run_kernel prog files evs (boot u) = None"
    then show "\<exists>evs1 ev evs2 k. evs = evs1 @ ev # evs2 \<and> run_kernel prog files evs1 (boot u) = Some k \<and> parent_gone k \<and> kernel_step prog files ev k = None"
    proof (induction evs rule: rev_induct)
      case Nil
      then show ?case by (simp add: run_kernel_def)
    next
      case (snoc ev evs)
      show ?case
      proof (cases "run_kernel prog files evs (boot u)")
        case None
        then show ?thesis using snoc.IH by fastforce
      next
        case (Some k)
        then have "kernel_step prog files ev k = None" using snoc.prems by (simp add: run_kernel_snoc)
        moreover from this have "parent_gone k" using step_inv [OF run_inv [OF Some], of prog files ev] by simp
        ultimately show ?thesis using Some by blast
      qed
    qed
  qed (auto simp: append cons)
  have "run_kernel orphan_prog no_files
      [Dispatch, Run Enough, Run Enough, Dispatch, Run Enough, Run Enough, Tick, Dispatch, Tick, Dispatch, Run Enough, Tick, Dispatch, Run Enough] (boot 0) = None"
    by code_simp
  then show "\<exists>evs. run_kernel orphan_prog no_files evs (boot 0) = None" by blast
qed

end
