(* ===== verification/Hello.thy ===== *)
theory Hello
  imports UserLib KernelInv Printf
begin

text \<open>
  The test program user/hello/hello.c, from the entry of \<open>main\<close>: what it does next in each of its states. \<open>printf\<close> of the C
  library writes a line at once, since the stubs call the output a terminal; a failed assertion ends the process.
\<close>

section \<open>The program\<close>

datatype pc =
    Say_hello | Say_fs | Open | Say_fd | Stat | Say_stat | Read | Say_pass | Say_fork | Fork_first | Fork_second | Getpid
  | Say_waiting | Wait | Say_waited | Say_loop | Sleep | Finish | Abort | Spinning

record hello =
  pc :: pc
  file_fd :: int
  stat_buf :: string
  data_buf :: string
  child_pid :: int
  my_pid :: int
  waited_pid :: int
  turn :: nat

definition line :: "string \<Rightarrow> string" where
  "line s = s @ [CHR 0x0A]"

definition dec :: "int \<Rightarrow> string" where
  "dec i = (if i < 0 then CHR ''-'' # decimal (nat (- i)) else decimal (nat i))"

text \<open>A field of \<open>struct mstat\<close>, little endian.\<close>

definition field_at :: "string \<Rightarrow> nat \<Rightarrow> nat \<Rightarrow> nat" where
  "field_at buf off n = foldr (\<lambda>c v. of_char c + 256 * v) (take n (drop off buf)) 0"

definition stored_in :: "string \<Rightarrow> string \<Rightarrow> string" where
  "stored_in buf stored = stored @ drop (length stored) buf"

definition stat_line :: "string \<Rightarrow> string" where
  "stat_line buf = line (''type: '' @ dec (sint (of_nat (field_at buf 8 2) :: 16 word)) @ '', size: '' @ dec (sint (of_nat (field_at buf 16 4) :: s32)))"

text \<open>\<open>data[18] = 0\<close> and the comparison of the text before the first zero.\<close>

definition reads_title :: "string \<Rightarrow> bool" where
  "reads_title buf \<longleftrightarrow> takeWhile (\<lambda>c. c \<noteq> CHR 0x00) (buf[18 := CHR 0x00]) = ''# Multiplix kernel''"

definition print :: "string \<Rightarrow> hello \<Rightarrow> hello uop" where
  "print s u = lib_write 1 s (\<lambda>_. u)"

definition hello_prog :: "hello \<Rightarrow> hello uop" where
  "hello_prog u =
     (case pc u of
        Say_hello \<Rightarrow> print (line ''Hello Multiplix!'') (u\<lparr>pc := Say_fs\<rparr>)
      | Say_fs \<Rightarrow> print (line ''Running file system test...'') (u\<lparr>pc := Open\<rparr>)
      | Open \<Rightarrow> lib_open ''/README.md'' 0 0 (\<lambda>r. u\<lparr>pc := Say_fd, file_fd := r\<rparr>)
      | Say_fd \<Rightarrow> print (line (''opened /README.md: '' @ dec (file_fd u))) (u\<lparr>pc := Stat\<rparr>)
      | Stat \<Rightarrow> mstat (file_fd u) (\<lambda>_ stored. u\<lparr>pc := Say_stat, stat_buf := stored_in (stat_buf u) stored\<rparr>)
      | Say_stat \<Rightarrow> print (stat_line (stat_buf u)) (u\<lparr>pc := Read\<rparr>)
      | Read \<Rightarrow> lib_read (file_fd u) 18 (\<lambda>_ stored.
          let buf = stored_in (data_buf u) stored in u\<lparr>pc := (if reads_title buf then Say_pass else Abort), data_buf := buf\<rparr>)
      | Say_pass \<Rightarrow> print (line ''PASS'') (u\<lparr>pc := Say_fork\<rparr>)
      | Say_fork \<Rightarrow> print (line ''Running fork test...'') (u\<lparr>pc := Fork_first\<rparr>)
      | Fork_first \<Rightarrow> lib_fork (\<lambda>_. u\<lparr>pc := Fork_second\<rparr>)
      | Fork_second \<Rightarrow> lib_fork (\<lambda>r. u\<lparr>pc := Getpid, child_pid := r\<rparr>)
      | Getpid \<Rightarrow> lib_getpid (\<lambda>r. u\<lparr>pc := (if child_pid u \<noteq> 0 then Say_waiting else Say_loop), my_pid := r, turn := 0\<rparr>)
      | Say_waiting \<Rightarrow> print (line (dec (my_pid u) @ '': waiting'')) (u\<lparr>pc := Wait\<rparr>)
      | Wait \<Rightarrow> lib_wait (\<lambda>r. u\<lparr>pc := Say_waited, waited_pid := r\<rparr>)
      | Say_waited \<Rightarrow> print (line (dec (my_pid u) @ '': done waiting for '' @ dec (waited_pid u))) (u\<lparr>pc := Say_loop\<rparr>)
      | Say_loop \<Rightarrow> print (line (dec (my_pid u) @ '': loop '' @ dec (int (turn u)))) (u\<lparr>pc := Sleep\<rparr>)
      | Sleep \<Rightarrow> lib_usleep 100000 (\<lambda>_. u\<lparr>pc := (if turn u + 1 < 5 then Say_loop else Finish), turn := turn u + 1\<rparr>)
      | Finish \<Rightarrow> lib_exit (u\<lparr>pc := Spinning\<rparr>)
      | Abort \<Rightarrow> lib_exit (u\<lparr>pc := Spinning\<rparr>)
      | Spinning \<Rightarrow> Spin)"

text \<open>The process the kernel starts, with whatever is on its stack.\<close>

definition hello_start :: "string \<Rightarrow> string \<Rightarrow> hello" where
  "hello_start st data = \<lparr>pc = Say_hello, file_fd = 0, stat_buf = st, data_buf = data, child_pid = 0, my_pid = 0, waited_pid = 0, turn = 0\<rparr>"

section \<open>What the processes print\<close>

definition said :: "'u kernel \<Rightarrow> pid \<Rightarrow> string list" where
  "said k p = map snd (filter (\<lambda>(q, _). q = p) (console k))"

definition file_lines :: "int \<Rightarrow> string \<Rightarrow> string list" where
  "file_lines fd buf = [line ''Hello Multiplix!'', line ''Running file system test...'', line (''opened /README.md: '' @ dec fd),
     stat_line buf, line ''PASS'', line ''Running fork test...'']"

definition wait_lines :: "pid \<Rightarrow> int \<Rightarrow> string list" where
  "wait_lines p z = [line (dec p @ '': waiting''), line (dec p @ '': done waiting for '' @ dec z)]"

definition loop_lines :: "pid \<Rightarrow> nat \<Rightarrow> string list" where
  "loop_lines p n = map (\<lambda>i. line (dec p @ '': loop '' @ dec (int i))) [0..<n]"

text \<open>How many of each have been printed.\<close>

fun file_count :: "pc \<Rightarrow> nat" where
  "file_count Say_hello = 0" | "file_count Say_fs = 1" | "file_count Open = 2" | "file_count Say_fd = 2"
| "file_count Stat = 3" | "file_count Say_stat = 3" | "file_count Read = 4" | "file_count Abort = 4" | "file_count Say_pass = 4"
| "file_count Say_fork = 5" | "file_count _ = 6"

fun wait_count :: "pc \<Rightarrow> nat" where
  "wait_count Wait = 1" | "wait_count Say_waited = 1" | "wait_count Say_loop = 2" | "wait_count Sleep = 2" | "wait_count Finish = 2"
| "wait_count _ = 0"

fun loop_count :: "pc \<Rightarrow> nat \<Rightarrow> nat" where
  "loop_count Say_loop n = n" | "loop_count Sleep n = Suc n" | "loop_count Finish n = n" | "loop_count _ n = 0"

definition progress :: "pid \<Rightarrow> hello \<Rightarrow> string list" where
  "progress p u =
     (if p = 0 then take (file_count (pc u)) (file_lines (file_fd u) (stat_buf u)) else []) @
     (if child_pid u = 0 then [] else take (wait_count (pc u)) (wait_lines p (waited_pid u))) @
     loop_lines p (loop_count (pc u) (turn u))"

text \<open>How many processes are still to be forked.\<close>

fun forks :: "pc \<Rightarrow> nat" where
  "forks Fork_second = 1"
| "forks s = (if s \<in> {Getpid, Say_waiting, Wait, Say_waited, Say_loop, Sleep, Finish, Abort, Spinning} then 0 else 3)"

section \<open>The invariant of the test\<close>

text \<open>\<open>full\<close> says that there is enough memory and that the file is read.\<close>

definition hello_state :: "bool \<Rightarrow> pid \<Rightarrow> hello proc \<Rightarrow> string list \<Rightarrow> bool" where
  "hello_state full p x out \<longleftrightarrow>
     \<bar>file_fd (user x)\<bar> \<le> 2 ^ 31 \<and> \<bar>waited_pid (user x)\<bar> \<le> 2 ^ 31
   \<and> 0 \<le> p \<and> (parent x = None \<longleftrightarrow> p = 0) \<and> out = progress p (user x) \<and> pc (user x) \<noteq> Spinning
   \<and> (forks (pc (user x)) \<noteq> 0 \<longrightarrow> child_pid (user x) = 0) \<and> (forks (pc (user x)) = 3 \<longrightarrow> p = 0)
   \<and> (p \<noteq> 0 \<longrightarrow> children x \<le> (if pc (user x) \<in> {Getpid, Say_waiting, Wait} \<and> child_pid (user x) \<noteq> 0 then 1 else 0))
   \<and> (pc (user x) \<in> {Say_waiting, Wait, Say_waited} \<longrightarrow> child_pid (user x) \<noteq> 0 \<and> turn (user x) = 0)
   \<and> (pc (user x) \<in> {Say_waiting, Wait, Say_waited, Say_loop, Sleep} \<longrightarrow> my_pid (user x) = p)
   \<and> (pc (user x) \<in> {Say_loop, Sleep} \<longrightarrow> turn (user x) < 5) \<and> (pc (user x) = Finish \<longrightarrow> turn (user x) = 5)
   \<and> (pc (user x) = Abort \<longrightarrow> \<not> full \<and> p = 0 \<and> child_pid (user x) = 0)
   \<and> (pstate x = Exited \<longrightarrow> pc (user x) = Finish \<or> pc (user x) = Abort)
   \<and> (resume x = InWait \<longrightarrow> pc (user x) = Wait) \<and> (\<forall>start us. resume x = InSleep start us \<longrightarrow> pc (user x) = Sleep)
   \<and> (pstate x = Blocked \<longrightarrow> wq x = Some Ticksq \<longrightarrow> resume x \<noteq> ToUser \<and> resume x \<noteq> InWait)
   \<and> (full \<longrightarrow> (pc (user x) = Fork_second \<longrightarrow> p < 2) \<and> (forks (pc (user x)) = 0 \<longrightarrow> (child_pid (user x) = 0 \<longleftrightarrow> 2 \<le> p)))"

definition hello_proc :: "bool \<Rightarrow> pid \<Rightarrow> pid \<Rightarrow> hello proc \<Rightarrow> string list \<Rightarrow> bool" where
  "hello_proc full n p x out \<longleftrightarrow> hello_state full p x out \<and> (full \<longrightarrow> forks (pc (user x)) < 3 \<longrightarrow> 2 \<le> n)"

definition budget :: "hello kernel \<Rightarrow> nat" where
  "budget k = (\<Sum>p\<in>dom (procs k). forks (pc (user (the (procs k p)))))"

definition finished :: "pid \<Rightarrow> string list \<Rightarrow> bool" where
  "finished p out \<longleftrightarrow> (\<exists>u. pc u = Finish \<and> turn u = 5 \<and> p \<noteq> 0 \<and> (child_pid u = 0 \<longleftrightarrow> 2 \<le> p) \<and> out = progress p u)"

definition hello_inv :: "bool \<Rightarrow> hello kernel \<Rightarrow> bool" where
  "hello_inv full k \<longleftrightarrow> kernel_inv k
   \<and> (\<forall>p x. procs k p = Some x \<longrightarrow> hello_proc full (next_pid k) p x (said k p))
   \<and> (\<forall>p. full \<longrightarrow> 0 \<le> p \<longrightarrow> p < next_pid k \<longrightarrow> procs k p = None \<longrightarrow> finished p (said k p))
   \<and> 1 \<le> next_pid k \<and> (\<forall>p. next_pid k \<le> p \<longrightarrow> said k p = [])
   \<and> (\<forall>p x q. procs k p = Some x \<longrightarrow> parent x = Some q \<longrightarrow> procs k q \<noteq> None)
   \<and> next_pid k + int (budget k) \<le> 4 \<and> (full \<longrightarrow> next_pid k + int (budget k) = 4)"

lemma hello_invD:
  assumes "hello_inv full k"
  shows "kernel_inv k" and "procs k p = Some x \<Longrightarrow> hello_proc full (next_pid k) p x (said k p)"
    and "full \<Longrightarrow> 0 \<le> p \<Longrightarrow> p < next_pid k \<Longrightarrow> procs k p = None \<Longrightarrow> finished p (said k p)"
    and "1 \<le> next_pid k" and "next_pid k \<le> p \<Longrightarrow> said k p = []"
    and "procs k p = Some x \<Longrightarrow> parent x = Some q \<Longrightarrow> procs k q \<noteq> None"
    and "next_pid k + int (budget k) \<le> 4" and "full \<Longrightarrow> next_pid k + int (budget k) = 4"
  using assms by (auto simp: hello_inv_def)

lemma hello_parents: "hello_inv full k \<Longrightarrow> \<not> parent_gone k"
  using hello_invD(6) by (auto simp: parent_gone_def)

lemma budget_update:
  assumes "finite (dom (procs k))" and "procs k p = Some x" and "procs k' = (procs k)(p \<mapsto> x')"
  shows "budget k' + forks (pc (user x)) = budget k + forks (pc (user x'))"
proof -
  have d: "dom (procs k') = dom (procs k)" using assms(2,3) by auto
  have "budget k = forks (pc (user x)) + (\<Sum>q\<in>dom (procs k) - {p}. forks (pc (user (the (procs k q)))))"
    unfolding budget_def by (subst sum.remove [of _ p]) (use assms in auto)
  moreover have "budget k' = forks (pc (user x')) + (\<Sum>q\<in>dom (procs k) - {p}. forks (pc (user (the (procs k' q)))))"
    unfolding budget_def d by (subst sum.remove [of _ p]) (use assms in auto)
  moreover have "(\<Sum>q\<in>dom (procs k) - {p}. forks (pc (user (the (procs k' q))))) = (\<Sum>q\<in>dom (procs k) - {p}. forks (pc (user (the (procs k q)))))"
    by (rule sum.cong) (auto simp: assms(3))
  ultimately show ?thesis by simp
qed

text \<open>One process goes on.\<close>

lemma hello_move:
  assumes k: "hello_inv full k" and k': "kernel_inv k'" and x: "procs k p = Some x"
    and f: "procs k' = (procs k)(p \<mapsto> x')" "next_pid k' = next_pid k" "\<And>q. said k' q = said k q @ (if q = p then new else [])"
    and same: "parent x' = parent x" "forks (pc (user x')) \<le> forks (pc (user x))" "full \<Longrightarrow> forks (pc (user x')) = forks (pc (user x))"
    and px: "hello_proc full (next_pid k) p x' (said k p @ new)"
  shows "hello_inv full k'"
proof -
  have b: "budget k' + forks (pc (user x)) = budget k + forks (pc (user x'))"
    by (rule budget_update [OF kernel_invD(2) [OF hello_invD(1) [OF k]] x f(1)])
  have pn: "p < next_pid k" using kernel_invD(3) [OF hello_invD(1) [OF k] x] by (simp add: proc_inv_def)
  have "hello_proc full (next_pid k') q y (said k' q)" if "procs k' q = Some y" for q y
    using that px hello_invD(2) [OF k, of q y] by (auto simp: f split: if_splits)
  moreover have "finished q (said k' q)" if "full" "0 \<le> q" "q < next_pid k'" "procs k' q = None" for q
    using that hello_invD(3) [OF k, of q] by (auto simp: f split: if_splits)
  moreover have "procs k' q \<noteq> None" if "procs k' r = Some y" "parent y = Some q" for r y q
    using that hello_invD(6) [OF k] x same(1) by (auto simp: f split: if_splits)
  moreover have "next_pid k' + int (budget k') \<le> 4" "full \<Longrightarrow> next_pid k' + int (budget k') = 4"
    using b same(2,3) hello_invD(7,8) [OF k] by (simp_all add: f)
  ultimately show ?thesis using k' hello_invD(4,5) [OF k] pn unfolding hello_inv_def f by auto
qed

lemma said_same: "console k' = console k \<Longrightarrow> said k' = said k"
  by (simp add: fun_eq_iff said_def)

lemma hello_keep:
  assumes "hello_inv full k" and "kernel_inv k'" and "procs k' = procs k" and "next_pid k' = next_pid k" and "console k' = console k"
  shows "hello_inv full k'"
  using assms said_same [OF assms(5)] by (auto simp: hello_inv_def budget_def)

lemma hello_proc_runnable: "hello_proc full n p x out \<Longrightarrow> hello_proc full n p (x\<lparr>pstate := Runnable\<rparr>) out"
  by (simp add: hello_proc_def hello_state_def)

text \<open>The timer wakes the sleeping processes.\<close>

lemma hello_wakes:
  assumes k: "hello_inv full k"
  shows "\<exists>k'. wake_all Ticksq k = Some k' \<and> hello_inv full k' \<and> current k' = current k
    \<and> (\<forall>p. procs k' p = map_option (\<lambda>x. if p \<in> set (queues k Ticksq) then x\<lparr>pstate := Runnable\<rparr> else x) (procs k p))"
proof -
  note ki = hello_invD(1) [OF k]
  have "distinct (queues k Ticksq)" using kernel_invD(1) [OF ki] by (simp add: queue_inv_def)
  then obtain k' where k': "wake_all Ticksq k = Some k'" "kernel_inv k'" "current k' = current k" "next_pid k' = next_pid k" "console k' = console k"
    "\<forall>p. procs k' p = map_option (\<lambda>x. if p \<in> set (queues k Ticksq) then x\<lparr>pstate := Runnable\<rparr> else x) (procs k p)"
    using wake_all_inv [OF ki _ sleeping [OF ki]] unfolding wake_all_def by blast
  have b: "budget k' = budget k"
    unfolding budget_def by (rule sum.cong) (auto simp: k'(6) dom_def)
  have "hello_proc full (next_pid k') p x (said k' p)" if "procs k' p = Some x" for p x
    using that hello_invD(2) [OF k] hello_proc_runnable by (auto simp: k'(4,6) said_same [OF k'(5)] split: if_splits)
  moreover have "procs k' q \<noteq> None" if "procs k' p = Some x" "parent x = Some q" for p x q
    using that hello_invD(6) [OF k] by (auto simp: k'(6) split: if_splits)
  moreover have "finished p (said k' p)" if "full" "0 \<le> p" "p < next_pid k'" "procs k' p = None" for p
    using that hello_invD(3) [OF k, of p] by (simp add: k'(4,6) said_same [OF k'(5)])
  ultimately have "hello_inv full k'"
    using k'(2) hello_invD(4,5,7,8) [OF k] unfolding hello_inv_def k'(4) said_same [OF k'(5)] b by auto
  then show ?thesis using k'(1,3,6) by blast
qed

lemma hello_tick:
  assumes k: "hello_inv full k"
  shows "\<exists>k'. irq_handler k = Some k' \<and> hello_inv full k'"
proof -
  obtain k1 where k1: "wake_all Ticksq k = Some k1" "hello_inv full k1" "current k1 = current k" using hello_wakes [OF k] by blast
  show ?thesis
  proof (cases "current k")
    case None
    then show ?thesis using k1 by (simp add: irq_handler_def)
  next
    case (Some p)
    then obtain x where x: "procs k p = Some x" using kernel_invD(1) [OF hello_invD(1) [OF k]] by (auto simp: queue_inv_def)
    obtain k' where k': "yield_proc p k1 = Some k'" "kernel_inv k'" "procs k' = procs k1" "next_pid k' = next_pid k1" "console k' = console k1"
      using preempt_inv [OF hello_invD(1) [OF k1(2)]] k1(3) Some by auto
    then have "hello_inv full k'" using hello_keep [OF k1(2)] by blast
    then show ?thesis using Some x k k1 k' by (auto simp: irq_handler_def)
  qed
qed

text \<open>The running process leaves.\<close>

lemma hello_leave:
  assumes k: "hello_inv full k" and c: "current k = Some p" and x: "procs k p = Some x"
    and q: "(q, st) \<in> {(Exitq, Exited), (Ticksq, Blocked), (Waitq, Blocked)}"
    and waits: "q = Waitq \<Longrightarrow> r = InWait \<and> \<not> zombie_kid k p" "r = InWait \<Longrightarrow> 0 < children x" "q = Ticksq \<Longrightarrow> r \<noteq> ToUser \<and> r \<noteq> InWait"
    and exits: "\<And>q' y. q = Exitq \<Longrightarrow> parent x = Some q' \<Longrightarrow> procs k q' = Some y \<Longrightarrow> pstate y = Blocked \<Longrightarrow> wq y \<noteq> Some Waitq"
    and pc: "st = Exited \<Longrightarrow> pc (user x) = Finish \<or> pc (user x) = Abort" "r = InWait \<Longrightarrow> pc (user x) = Wait"
      "\<And>start us. r = InSleep start us \<Longrightarrow> pc (user x) = Sleep"
  shows "\<exists>k'. yield_proc p (proc_wait q st p (x\<lparr>resume := r\<rparr>) k) = Some k' \<and> hello_inv full k'"
proof -
  let ?x = "x\<lparr>resume := r, pstate := st, wq := Some q\<rparr>"
  have "\<exists>k'. yield_proc p (proc_wait q st p (x\<lparr>resume := r\<rparr>) k) = Some k' \<and> kernel_inv k' \<and> procs k' = (procs k)(p \<mapsto> ?x)
    \<and> next_pid k' = next_pid k \<and> console k' = console k"
    by (rule leave_inv [OF hello_invD(1) [OF k] c x q]) (use waits exits in auto)
  then obtain k' where k': "yield_proc p (proc_wait q st p (x\<lparr>resume := r\<rparr>) k) = Some k'" "kernel_inv k'"
    "procs k' = (procs k)(p \<mapsto> ?x)" "next_pid k' = next_pid k" "console k' = console k"
    by blast
  have "hello_inv full k'"
  proof (rule hello_move [OF k k'(2) x k'(3,4), where new = "[]"])
    show "hello_proc full (next_pid k) p ?x (said k p @ [])"
      using hello_invD(2) [OF k x] pc waits(3) q by (auto simp: hello_proc_def hello_state_def)
  qed (use said_same [OF k'(5)] in simp_all)
  then show ?thesis using k'(1) by blast
qed

lemma hello_exit:
  assumes k: "hello_inv full k" and c: "current k = Some p" and x: "procs k p = Some x"
    and pc: "pc (user x) = Finish \<or> pc (user x) = Abort" "resume x = ToUser"
  shows "\<exists>k'. sys_exit p x k = Some k' \<and> hello_inv full k'"
proof -
  obtain k1 where k1: "wake_parent x k = Some k1" "kernel_inv k1" "current k1 = Some p" "procs k1 p = Some x" "next_pid k1 = next_pid k" "console k1 = console k"
    "procs k1 = procs k \<or> (\<exists>q y. procs k q = Some y \<and> procs k1 = (procs k)(q \<mapsto> y\<lparr>pstate := Runnable\<rparr>))"
    "\<forall>q y. parent x = Some q \<longrightarrow> procs k1 q = Some y \<longrightarrow> pstate y = Blocked \<longrightarrow> wq y \<noteq> Some Waitq"
    using wake_parent_inv [OF hello_invD(1) [OF k] c x hello_parents [OF k]] by blast
  have "hello_inv full k1"
    using k1(7)
  proof
    assume "procs k1 = procs k"
    then show ?thesis using hello_keep [OF k k1(2)] k1(5,6) by blast
  next
    assume "\<exists>q y. procs k q = Some y \<and> procs k1 = (procs k)(q \<mapsto> y\<lparr>pstate := Runnable\<rparr>)"
    then obtain q y where y: "procs k q = Some y" "procs k1 = (procs k)(q \<mapsto> y\<lparr>pstate := Runnable\<rparr>)" by blast
    show ?thesis
      by (rule hello_move [OF k k1(2) y k1(5), where new = "[]"])
        (use hello_proc_runnable [OF hello_invD(2) [OF k y(1)]] said_same [OF k1(6)] in simp_all)
  qed
  then have "\<exists>k'. yield_proc p (proc_wait Exitq Exited p (x\<lparr>resume := resume x\<rparr>) k1) = Some k' \<and> hello_inv full k'"
    by (rule hello_leave [OF _ k1(3,4)]) (use k1(8) pc in auto)
  then show ?thesis using k1(1) by (simp add: sys_exit_def)
qed

text \<open>The running process reaps a child, which has no children of its own.\<close>

lemma hello_reap:
  fixes r :: int
  assumes r: "\<bar>r\<bar> \<le> 2 ^ 31" and k: "hello_inv full k" and c: "current k = Some p" and x: "procs k p = Some x" and pc: "pc (user x) = Wait" and z: "zombie_of p k = Some z"
  defines "x' \<equiv> x\<lparr>children := children x - 1\<rparr>"
  defines "k' \<equiv> return_user p x' (user x\<lparr>pc := Say_waited, waited_pid := r\<rparr>) (set_proc z None (remove_proc Exitq z k))"
  shows "hello_inv full k'"
proof -
  note ki = hello_invD(1) [OF k]
  obtain y where y: "procs k z = Some y" "parent y = Some p" "pstate y = Exited" using zombie_of_Some [OF z ki] by blast
  have run: "pstate x = Runnable" using kernel_invD(1) [OF ki] c x by (auto simp: queue_inv_def)
  then have zp: "z \<noteq> p" using x y by auto
  have kk: "kernel_inv k'" unfolding k'_def x'_def by (rule reap_inv [OF ki c x z])
  let ?x = "x'\<lparr>user := user x\<lparr>pc := Say_waited, waited_pid := r\<rparr>, resume := ToUser\<rparr>"
  have f: "procs k' = (procs k)(z := None, p \<mapsto> ?x)" "next_pid k' = next_pid k" "console k' = console k"
    by (simp_all add: k'_def return_user_def set_proc_def remove_proc_def)
  note px = hello_invD(2) [OF k x] and py = hello_invD(2) [OF k y(1)]
  have fin: "pc (user y) = Finish" "z \<noteq> 0" using py y by (auto simp: hello_proc_def hello_state_def)
  then have "children y = 0" using py by (auto simp: hello_proc_def hello_state_def)
  then have nokids: "kids k z = {}" using kernel_invD(3) [OF ki y(1)] finite_kids [OF kernel_invD(2) [OF ki]] by (auto simp: proc_inv_def)
  have zn: "z < next_pid k" using kernel_invD(3) [OF ki y(1)] by (simp add: proc_inv_def)
  have b: "budget k' = budget k"
  proof -
    have fd: "finite (dom (procs k))" by (rule kernel_invD(2) [OF ki])
    have "budget k = forks (pc (user y)) + (\<Sum>q\<in>dom (procs k) - {z}. forks (pc (user (the (procs k q)))))"
      unfolding budget_def by (subst sum.remove [of _ z]) (use fd y in auto)
    moreover have d: "dom (procs k') = dom (procs k) - {z}" using x zp by (auto simp: f(1))
    have "budget k' = (\<Sum>q\<in>dom (procs k) - {z}. forks (pc (user (the (procs k q)))))"
      unfolding budget_def d by (rule sum.cong) (use x pc in \<open>auto simp: f(1) x'_def\<close>)
    ultimately show ?thesis by (simp add: fin)
  qed
  have "hello_proc full (next_pid k) q w (said k q)" if w: "procs k' q = Some w" for q w
  proof (cases "q = p")
    case True
    then have "w = ?x" using w by (simp add: f(1))
    then show ?thesis using px pc run True r by (auto simp: hello_proc_def hello_state_def x'_def progress_def wait_lines_def)
  next
    case False
    then show ?thesis using w hello_invD(2) [OF k, of q w] by (auto simp: f(1) split: if_splits)
  qed
  moreover have "finished q (said k q)" if "full" "0 \<le> q" "q < next_pid k" "procs k' q = None" for q
  proof (cases "q = z")
    case True
    then show ?thesis using py fin that(1) by (auto simp: hello_proc_def hello_state_def finished_def)
  next
    case False
    then show ?thesis using that hello_invD(3) [OF k, of q] by (auto simp: f(1) split: if_splits)
  qed
  moreover have "procs k' q \<noteq> None" if w: "procs k' s = Some w" "parent w = Some q" for s w q
  proof -
    have "procs k q \<noteq> None" "q \<noteq> z"
    proof -
      obtain w' where w': "procs k s = Some w'" "parent w' = Some q" using w x by (auto simp: f(1) x'_def split: if_splits)
      then show "procs k q \<noteq> None" by (rule hello_invD(6) [OF k])
      show "q \<noteq> z" using w' nokids by (auto simp: kids_def)
    qed
    then show ?thesis by (simp add: f(1))
  qed
  ultimately show ?thesis
    using kk hello_invD(4,5,7,8) [OF k] unfolding hello_inv_def f(2) said_same [OF f(3)] b by auto
qed

text \<open>A fork.\<close>

lemma hello_proc_mono: "hello_proc full n p x out \<Longrightarrow> n \<le> n' \<Longrightarrow> hello_proc full n' p x out"
  by (auto simp: hello_proc_def)

lemma hello_forked:
  fixes ret :: "u64 \<Rightarrow> hello"
  assumes k: "hello_inv full k" and c: "current k = Some p" and x: "procs k p = Some x"
    and parent: "hello_proc full (next_pid k + 1) p (x\<lparr>children := children x + 1, user := ret (word_of_int (next_pid k)), resume := ToUser\<rparr>) (said k p)"
    and child: "hello_proc full (next_pid k + 1) (next_pid k)
      \<lparr>user = ret 0, resume = ToUser, parent = Some p, children = 0, pstate = Runnable, wq = None\<rparr> []"
    and split: "forks (pc (ret 0)) + forks (pc (ret (word_of_int (next_pid k)))) + 1 = forks (pc (user x))"
  defines "k' \<equiv> sys_fork Enough p x ret k"
  shows "hello_inv full k'"
proof -
  note ki = hello_invD(1) [OF k]
  define n where n: "n = next_pid k"
  define y where y: "y = \<lparr>user = ret 0, resume = ToUser, parent = Some p, children = 0, pstate = Runnable, wq = None\<rparr>"
  define x' where x': "x' = x\<lparr>children := children x + 1, user := ret (word_of_int n), resume := ToUser\<rparr>"
  have kk: "kernel_inv k'" unfolding k'_def by (rule fork_inv [OF ki c x])
  have pn: "p < n" using kernel_invD(3) [OF ki x] by (simp add: proc_inv_def n)
  have f: "procs k' = (procs k)(n \<mapsto> y, p \<mapsto> x')" "next_pid k' = n + 1" "console k' = console k"
    by (simp_all add: k'_def sys_fork_def return_user_def set_proc_def push_front_def Let_def n y x' fun_upd_twist)
  have fresh: "procs k n = None" using kernel_invD(3) [OF ki, of n] by (cases "procs k n") (auto simp: proc_inv_def n)
  have empty: "said k n = []" by (rule hello_invD(5) [OF k]) (simp add: n)
  have fd: "finite (dom (procs k))" by (rule kernel_invD(2) [OF ki])
  have b: "budget k' + 1 = budget k"
  proof -
    define D where D: "D = dom (procs k) - {p}"
    have D': "n \<notin> insert p D" "p \<notin> D" "finite D" using fresh x pn fd by (auto simp: D)
    have "budget k = forks (pc (user x)) + (\<Sum>q\<in>D. forks (pc (user (the (procs k q)))))"
      unfolding budget_def D by (subst sum.remove [of _ p]) (use fd x in auto)
    moreover have d: "dom (procs k') = insert n (insert p D)" using x by (auto simp: f(1) D)
    have "budget k' = forks (pc (user (the (procs k' n)))) + (forks (pc (user (the (procs k' p)))) + (\<Sum>q\<in>D. forks (pc (user (the (procs k' q))))))"
      unfolding budget_def d using D' by simp
    moreover have "(\<Sum>q\<in>D. forks (pc (user (the (procs k' q))))) = (\<Sum>q\<in>D. forks (pc (user (the (procs k q)))))"
      by (rule sum.cong) (use fresh in \<open>auto simp: f(1) D\<close>)
    ultimately show ?thesis using split pn by (simp add: f(1) y x' n)
  qed
  have "hello_proc full (n + 1) q w (said k q)" if w: "procs k' q = Some w" for q w
  proof -
    consider "q = p" "w = x'" | "q = n" "w = y" | "q \<noteq> p" "q \<noteq> n" "procs k q = Some w" using w by (auto simp: f(1) split: if_splits)
    then show ?thesis
    proof cases
      case 1
      then show ?thesis using parent by (simp add: x' n)
    next
      case 2
      then show ?thesis using child empty by (simp add: y n)
    next
      case 3
      then show ?thesis using hello_proc_mono [OF hello_invD(2) [OF k 3(3)]] by (simp add: n)
    qed
  qed
  moreover have "finished q (said k q)" if "full" "0 \<le> q" "q < n + 1" "procs k' q = None" for q
    using that hello_invD(3) [OF k, of q] by (auto simp: f(1) n split: if_splits)
  moreover have "procs k' q \<noteq> None" if w: "procs k' s = Some w" "parent w = Some q" for s w q
    using w x hello_invD(6) [OF k, of s w q] hello_invD(6) [OF k x, of q] by (auto simp: f(1) y x' split: if_splits)
  ultimately show ?thesis
    using kk b hello_invD(4,5,7,8) [OF k] unfolding hello_inv_def f(2) said_same [OF f(3)] by (auto simp: n)
qed

lemma hello_not_forked:
  fixes ret :: "u64 \<Rightarrow> hello"
  assumes k: "hello_inv False k" and c: "current k = Some p" and x: "procs k p = Some x" and mem: "mem \<noteq> Enough"
    and px: "hello_proc False (next_pid k) p (x\<lparr>user := ret (word_of_int nomem), resume := ToUser\<rparr>) (said k p)"
    and less: "forks (pc (ret (word_of_int nomem))) < forks (pc (user x))"
  shows "hello_inv False (sys_fork mem p x ret k)"
proof -
  note ki = hello_invD(1) [OF k]
  let ?x = "x\<lparr>user := ret (word_of_int nomem), resume := ToUser\<rparr>" and ?k = "sys_fork mem p x ret k"
  have kk: "kernel_inv ?k" by (rule fork_inv [OF ki c x])
  have f: "procs ?k = (procs k)(p \<mapsto> ?x)" "console ?k = console k" "next_pid k \<le> next_pid ?k" "next_pid ?k \<le> next_pid k + 1"
    using mem by (cases mem; simp add: sys_fork_def return_user_def set_proc_def Let_def)+
  have b: "budget ?k + forks (pc (user x)) = budget k + forks (pc (ret (word_of_int nomem)))"
    using budget_update [OF kernel_invD(2) [OF ki] x f(1)] by simp
  have "hello_proc False (next_pid ?k) q w (said k q)" if "procs ?k q = Some w" for q w
    using that hello_proc_mono [OF px f(3)] hello_proc_mono [OF hello_invD(2) [OF k] f(3), of q w] by (auto simp: f(1) split: if_splits)
  moreover have "procs ?k q \<noteq> None" if w: "procs ?k s = Some w" "parent w = Some q" for s w q
    using w x hello_invD(6) [OF k, of s w q] hello_invD(6) [OF k x, of q] by (auto simp: f(1) split: if_splits)
  moreover have "next_pid ?k + int (budget ?k) \<le> 4" using b less f(4) hello_invD(7) [OF k] by simp
  ultimately show ?thesis
    using kk f(3) hello_invD(4,5) [OF k] unfolding hello_inv_def said_same [OF f(2)] by auto
qed

lemma hello_fork:
  fixes ret :: "u64 \<Rightarrow> hello"
  assumes k: "hello_inv full k" and c: "current k = Some p" and x: "procs k p = Some x" and mem: "full \<Longrightarrow> mem = Enough"
    and ret: "pc (user x) = Fork_first \<and> ret = (\<lambda>_. user x\<lparr>pc := Fork_second\<rparr>)
      \<or> pc (user x) = Fork_second \<and> ret = (\<lambda>w. user x\<lparr>pc := Getpid, child_pid := c_int w\<rparr>)"
  shows "hello_inv full (sys_fork mem p x ret k)"
proof -
  note px = hello_invD(2) [OF k x]
  have run: "pstate x = Runnable" using kernel_invD(1) [OF hello_invD(1) [OF k]] c x by (auto simp: queue_inv_def)
  have pn: "p < next_pid k" "0 \<le> p" using kernel_invD(3) [OF hello_invD(1) [OF k] x] px by (simp_all add: proc_inv_def hello_proc_def hello_state_def)
  have "forks (pc (user x)) \<le> budget k"
    unfolding budget_def using kernel_invD(2) [OF hello_invD(1) [OF k]] x
    by (subst sum.remove [of _ p]) auto
  then have small: "next_pid k + int (forks (pc (user x))) \<le> 4" using hello_invD(7) [OF k] by simp
  have n: "c_int (word_of_int (next_pid k)) = next_pid k" "c_int 0 = 0"
    using small pn c_int_of_int [of "next_pid k"] c_int_of_int [of 0] by simp_all
  have nomem: "c_int (word_of_int nomem) = nomem" by (simp add: c_int_def)
  show ?thesis
  proof (cases "mem = Enough")
    case True
    from ret show ?thesis
    proof (elim disjE conjE)
      assume pc: "pc (user x) = Fork_first" "ret = (\<lambda>_. user x\<lparr>pc := Fork_second\<rparr>)"
      have "p = 0" "next_pid k = 1" using px pc pn small by (auto simp: hello_proc_def hello_state_def)
      then show ?thesis unfolding True using px pc run
        by (intro hello_forked [OF k c x]) (simp_all add: hello_proc_def hello_state_def progress_def loop_lines_def)
    next
      assume pc: "pc (user x) = Fork_second" "ret = (\<lambda>w. user x\<lparr>pc := Getpid, child_pid := c_int w\<rparr>)"
      show ?thesis unfolding True
      proof (rule hello_forked [OF k c x])
        show "forks (pc (ret 0)) + forks (pc (ret (word_of_int (next_pid k)))) + 1 = forks (pc (user x))" using pc by simp
      qed (use px pc run pn n in \<open>auto simp: hello_proc_def hello_state_def progress_def loop_lines_def\<close>)
    qed
  next
    case False
    then have full: "full = False" using mem by auto
    note k0 = k [unfolded full] and px0 = px [unfolded full]
    from ret show ?thesis
    proof (elim disjE conjE)
      assume pc: "pc (user x) = Fork_first" "ret = (\<lambda>_. user x\<lparr>pc := Fork_second\<rparr>)"
      then show ?thesis unfolding full using px0 run
        by (intro hello_not_forked [OF k0 c x False]) (auto simp: hello_proc_def hello_state_def progress_def loop_lines_def)
    next
      assume pc: "pc (user x) = Fork_second" "ret = (\<lambda>w. user x\<lparr>pc := Getpid, child_pid := c_int w\<rparr>)"
      then show ?thesis unfolding full using px0 run nomem
        by (intro hello_not_forked [OF k0 c x False]) (auto simp: hello_proc_def hello_state_def progress_def loop_lines_def)
    qed
  qed
qed


text \<open>A return to user mode, after a line has been printed or not.\<close>

definition says :: "pid \<Rightarrow> string list \<Rightarrow> 'u kernel \<Rightarrow> 'u kernel" where
  "says p new k = k\<lparr>console := console k @ map (Pair p) new\<rparr>"

lemma says_Nil: "says p [] k = k"
  by (simp add: says_def)

lemma hello_return:
  assumes k: "hello_inv full k" and c: "current k = Some p" and x: "procs k p = Some x"
    and px: "hello_proc full (next_pid k) p (x\<lparr>user := u, resume := ToUser\<rparr>) (said k p @ new)"
    and less: "forks (pc u) \<le> forks (pc (user x))" "full \<Longrightarrow> forks (pc u) = forks (pc (user x))"
  shows "hello_inv full (return_user p x u (says p new k))"
proof -
  have run: "pstate x = Runnable" using kernel_invD(1) [OF hello_invD(1) [OF k]] c x by (auto simp: queue_inv_def)
  have "kernel_inv (return_user p x u (says p new k))"
    by (rule return_user_inv) (use hello_invD(1) [OF k] x run in \<open>simp_all add: says_def console_inv\<close>)
  then show ?thesis
  proof (rule hello_move [OF k _ x])
    show "said (return_user p x u (says p new k)) q = said k q @ (if q = p then new else [])" for q
      by (induction new) (auto simp: said_def return_user_def set_proc_def says_def)
  qed (use px less in \<open>simp_all add: return_user_def set_proc_def says_def\<close>)
qed

lemma decimal_length_le: "length (decimal n) \<le> n + 1"
proof (induction n rule: decimal.induct)
  case (1 n)
  then show ?case by (cases "n < 10") (simp_all add: decimal.simps [of n])
qed

lemma length_dec: "\<bar>i\<bar> \<le> 2 ^ 31 \<Longrightarrow> length (dec i) \<le> 2 ^ 32"
  using decimal_length_le [of "nat (- i)"] decimal_length_le [of "nat i"] by (auto simp: dec_def)

lemma c_int_bound: "\<bar>c_int w\<bar> \<le> 2 ^ 31"
  using sint_ge [of "ucast w :: s32"] sint_lt [of "ucast w :: s32"] by (simp add: c_int_def)

lemma hello_print:
  assumes "hello_inv full k" and "current k = Some p" and "procs k p = Some x"
    and "hello_proc full (next_pid k) p (x\<lparr>user := u, resume := ToUser\<rparr>) (said k p @ [s])" and "forks (pc u) = forks (pc (user x))"
    and "prog (user x) = print s u" and "resume x = ToUser" and "length s < 2 ^ 64"
  shows "\<exists>k'. run_proc prog files mem p x k = Some k' \<and> hello_inv full k'"
proof -
  have "unat (word_of_nat (length s) :: u64) = length s" using assms(8) by (simp add: unsigned_of_nat take_bit_nat_eq_self)
  then have "run_proc prog files mem p x k = Some (return_user p x u (says p [s] k))"
    using assms(6,7) by (simp add: run_proc_def print_def stub_defs syscall_handler_def file_call_def num_arg_def ptr_arg_def says_def)
  then show ?thesis using hello_return [OF assms(1-4)] assms(5) by simp
qed

lemma hello_wait_loop:
  assumes k: "hello_inv full k" and c: "current k = Some p" and x: "procs k p = Some x" and pc: "pc (user x) = Wait" and kids: "0 < children x"
  shows "\<exists>k'. wait_loop p x (\<lambda>w. user x\<lparr>pc := Say_waited, waited_pid := c_int w\<rparr>) k = Some k' \<and> hello_inv full k'"
proof (cases "zombie_of p k")
  case None
  have "\<exists>k'. yield_proc p (proc_wait Waitq Blocked p (x\<lparr>resume := InWait\<rparr>) k) = Some k' \<and> hello_inv full k'"
    by (rule hello_leave [OF k c x]) (use zombie_of_None [OF None hello_invD(1) [OF k]] kids pc in auto)
  then show ?thesis using None by (simp add: wait_loop_def)
next
  case (Some z)
  then show ?thesis using hello_reap [OF c_int_bound k c x pc Some] by (simp add: wait_loop_def)
qed

lemma loop_lines_Suc: "loop_lines p (Suc n) = loop_lines p n @ [line (dec p @ '': loop '' @ dec (int n))]"
  by (simp add: loop_lines_def)

lemma hello_sleep_loop:
  assumes k: "hello_inv full k" and c: "current k = Some p" and x: "procs k p = Some x" and pc: "pc (user x) = Sleep"
  shows "\<exists>k'. sleep_loop start us p x (\<lambda>_. user x\<lparr>pc := (if turn (user x) + 1 < 5 then Say_loop else Finish), turn := turn (user x) + 1\<rparr>) k = Some k'
    \<and> hello_inv full k'"
proof (cases "us \<le> now k - start")
  case True
  have run: "pstate x = Runnable" using kernel_invD(1) [OF hello_invD(1) [OF k]] c x by (auto simp: queue_inv_def)
  let ?u = "user x\<lparr>pc := (if turn (user x) + 1 < 5 then Say_loop else Finish), turn := turn (user x) + 1\<rparr>"
  have "hello_inv full (return_user p x ?u (says p [] k))"
    by (rule hello_return [OF k c x])
      (use hello_invD(2) [OF k x] pc run in \<open>auto simp: hello_proc_def hello_state_def progress_def wait_lines_def\<close>)
  then show ?thesis using True by (simp add: sleep_loop_def says_Nil)
next
  case False
  have "\<exists>k'. yield_proc p (proc_wait Ticksq Blocked p (x\<lparr>resume := InSleep start us\<rparr>) k) = Some k' \<and> hello_inv full k'"
    by (rule hello_leave [OF k c x]) (use pc in auto)
  then show ?thesis using False by (simp add: sleep_loop_def)
qed

lemma title_read: "reads_title (stored_in buf ''# Multiplix kernel'')"
proof -
  define rest where "rest = drop 18 buf"
  then have "stored_in buf ''# Multiplix kernel'' = ''# Multiplix kernel'' @ rest" unfolding stored_in_def by (simp add: eval_nat_numeral)
  then show ?thesis by (cases rest) (simp_all add: reads_title_def)
qed

lemma stat_line_length: "length (stat_line buf) < 2 ^ 64"
proof -
  have "\<bar>sint (w :: 16 word)\<bar> \<le> 2 ^ 31" for w using sint_ge [of w] sint_lt [of w] by simp
  moreover have "\<bar>sint (w :: s32)\<bar> \<le> 2 ^ 31" for w using sint_ge [of w] sint_lt [of w] by simp
  ultimately have "length (dec (sint (of_nat (field_at buf 8 2) :: 16 word))) \<le> 2 ^ 32" "length (dec (sint (of_nat (field_at buf 16 4) :: s32))) \<le> 2 ^ 32"
    by (simp_all only: length_dec)
  then show ?thesis by (simp add: stat_line_def line_def)
qed

text \<open>The states that print a line: the line, and the state after it.\<close>

fun spoken :: "pid \<Rightarrow> hello \<Rightarrow> pc \<Rightarrow> string" where
  "spoken p u Say_hello = line ''Hello Multiplix!''"
| "spoken p u Say_fs = line ''Running file system test...''"
| "spoken p u Say_fd = line (''opened /README.md: '' @ dec (file_fd u))"
| "spoken p u Say_stat = stat_line (stat_buf u)"
| "spoken p u Say_pass = line ''PASS''"
| "spoken p u Say_fork = line ''Running fork test...''"
| "spoken p u Say_waiting = line (dec p @ '': waiting'')"
| "spoken p u Say_waited = line (dec p @ '': done waiting for '' @ dec (waited_pid u))"
| "spoken p u Say_loop = line (dec p @ '': loop '' @ dec (int (turn u)))"
| "spoken p u _ = []"

fun after :: "pc \<Rightarrow> pc" where
  "after Say_hello = Say_fs" | "after Say_fs = Open" | "after Say_fd = Stat" | "after Say_stat = Read" | "after Say_pass = Say_fork"
| "after Say_fork = Fork_first" | "after Say_waiting = Wait" | "after Say_waited = Say_loop" | "after Say_loop = Sleep" | "after s = s"

lemma hello_says:
  assumes k: "hello_inv full k" and c: "current k = Some p" and x: "procs k p = Some x" and u: "resume x = ToUser"
    and pc: "pc (user x) \<in> {Say_hello, Say_fs, Say_fd, Say_stat, Say_pass, Say_fork, Say_waiting, Say_waited, Say_loop}"
  shows "\<exists>k'. run_proc hello_prog files mem p x k = Some k' \<and> hello_inv full k'"
proof (rule hello_print [OF k c x])
  let ?s = "spoken p (user x) (pc (user x))" and ?u = "user x\<lparr>pc := after (pc (user x))\<rparr>"
  note px = hello_invD(2) [OF k x]
  have run: "pstate x = Runnable" using kernel_invD(1) [OF hello_invD(1) [OF k]] c x by (auto simp: queue_inv_def)
  have p4: "p < 4" "0 \<le> p" using kernel_invD(3) [OF hello_invD(1) [OF k] x] hello_invD(7) [OF k] px
    by (simp_all add: proc_inv_def hello_proc_def hello_state_def)
  have mine: "pc (user x) \<in> {Say_waiting, Say_waited, Say_loop} \<Longrightarrow> my_pid (user x) = p" and turn: "pc (user x) = Say_loop \<Longrightarrow> turn (user x) < 5"
    using px by (auto simp: hello_proc_def hello_state_def)
  show "hello_prog (user x) = print ?s ?u" using pc mine by (auto simp: hello_prog_def)
  show "resume x = ToUser" by (rule u)
  show "forks (pc ?u) = forks (pc (user x))" using pc by auto
  have short: "length (dec p) \<le> 2 ^ 32" "length (dec (file_fd (user x))) \<le> 2 ^ 32" "length (dec (waited_pid (user x))) \<le> 2 ^ 32"
    using px p4 by (intro length_dec; simp add: hello_proc_def hello_state_def)+
  moreover have "pc (user x) = Say_loop \<Longrightarrow> length (dec (int (turn (user x)))) \<le> 2 ^ 32" using turn by (intro length_dec) simp
  ultimately show "length ?s < 2 ^ 64" using pc stat_line_length [of "stat_buf (user x)"] by (auto simp: line_def)
  show "hello_proc full (next_pid k) p (x\<lparr>user := ?u, resume := ToUser\<rparr>) (said k p @ [?s])"
    using pc px run
    by (elim insertE emptyE) (auto simp: hello_proc_def hello_state_def progress_def loop_lines_Suc loop_lines_def file_lines_def wait_lines_def)
qed

text \<open>Every step of a process keeps the invariant, and none fails.\<close>

lemma hello_calls:
  assumes k: "hello_inv full k" and c: "current k = Some p" and x: "procs k p = Some x" and u: "resume x = ToUser"
    and mem: "full \<Longrightarrow> mem = Enough" and files: "full \<Longrightarrow> \<forall>args. snd (files SYS_READ args) = ''# Multiplix kernel''"
    and pc: "pc (user x) \<in> {Open, Stat, Read, Getpid, Fork_first, Fork_second, Wait, Sleep, Finish, Abort}"
  shows "\<exists>k'. run_proc hello_prog files mem p x k = Some k' \<and> hello_inv full k'"
proof -
  note px = hello_invD(2) [OF k x]
  have run: "pstate x = Runnable" using kernel_invD(1) [OF hello_invD(1) [OF k]] c x by (auto simp: queue_inv_def)
  have "p < 4" "0 \<le> p" using kernel_invD(3) [OF hello_invD(1) [OF k] x] hello_invD(7) [OF k] px
    by (simp_all add: proc_inv_def hello_proc_def hello_state_def)
  then have cp: "c_int (word_of_int p) = p" by (simp add: c_int_of_int)
  note facts = px run u
  note return = hello_return [OF k c x, where new = "[]", unfolded says_Nil append_Nil2]
  note handler = run_proc_def u hello_prog_def stub_defs syscall_handler_def file_call_def num_arg_def
  from pc show ?thesis
  proof (elim insertE emptyE)
    assume pc: "pc (user x) = Open"
    have "hello_inv full (return_user p x (user x\<lparr>pc := Say_fd, file_fd := r\<rparr>) k)" if "\<bar>r\<bar> \<le> 2 ^ 31" for r
      by (rule return) (use facts pc that in \<open>auto simp: hello_proc_def hello_state_def progress_def loop_lines_def file_lines_def\<close>)
    then show ?thesis using pc c_int_bound by (auto simp: handler split_beta)
  next
    assume pc: "pc (user x) = Stat"
    have "hello_inv full (return_user p x (user x\<lparr>pc := Say_stat, stat_buf := b\<rparr>) k)" for b
      by (rule return) (use facts pc in \<open>auto simp: hello_proc_def hello_state_def progress_def loop_lines_def file_lines_def\<close>)
    then show ?thesis using pc by (auto simp: handler split_beta)
  next
    assume pc: "pc (user x) = Read"
    have "hello_inv full (return_user p x (user x\<lparr>pc := (if reads_title b then Say_pass else Abort), data_buf := b\<rparr>) k)"
      if "full \<Longrightarrow> reads_title b" for b
      by (rule return) (use facts pc that in \<open>auto simp: hello_proc_def hello_state_def progress_def loop_lines_def file_lines_def\<close>)
    then show ?thesis using pc files title_read by (auto simp: handler split_beta Let_def)
  next
    assume pc: "pc (user x) = Getpid"
    have "hello_inv full (return_user p x (user x\<lparr>pc := (if child_pid (user x) \<noteq> 0 then Say_waiting else Say_loop), my_pid := p, turn := 0\<rparr>) k)"
      by (rule return) (use facts pc in \<open>auto simp: hello_proc_def hello_state_def progress_def loop_lines_def\<close>)
    then show ?thesis using pc cp by (simp add: handler)
  next
    assume pc: "pc (user x) = Fork_first"
    then show ?thesis using hello_fork [OF k c x mem, of "\<lambda>_. user x\<lparr>pc := Fork_second\<rparr>"] by (simp add: handler)
  next
    assume pc: "pc (user x) = Fork_second"
    then show ?thesis using hello_fork [OF k c x mem, of "\<lambda>w. user x\<lparr>pc := Getpid, child_pid := c_int w\<rparr>"] by (simp add: handler)
  next
    assume pc: "pc (user x) = Wait"
    show ?thesis
    proof (cases "children x = 0")
      case True
      have "hello_inv full (return_user p x (user x\<lparr>pc := Say_waited, waited_pid := c_int (word_of_int no_child)\<rparr>) k)"
        by (rule return) (use facts pc True c_int_bound in \<open>auto simp: hello_proc_def hello_state_def progress_def loop_lines_def wait_lines_def\<close>)
      then show ?thesis using pc True by (simp add: handler sys_wait_def)
    next
      case False
      then show ?thesis using hello_wait_loop [OF k c x pc] pc by (simp add: handler sys_wait_def)
    qed
  next
    assume pc: "pc (user x) = Sleep"
    then show ?thesis using hello_sleep_loop [OF k c x pc, of "now k" 100000] by (simp add: handler sys_usleep_def)
  next
    assume pc: "pc (user x) = Finish"
    then show ?thesis using hello_exit [OF k c x _ u] by (simp add: handler)
  next
    assume pc: "pc (user x) = Abort"
    then show ?thesis using hello_exit [OF k c x _ u] by (simp add: handler)
  qed
qed

lemma hello_run:
  assumes k: "hello_inv full k" and c: "current k = Some p" and x: "procs k p = Some x"
    and mem: "full \<Longrightarrow> mem = Enough" and files: "full \<Longrightarrow> \<forall>args. snd (files SYS_READ args) = ''# Multiplix kernel''"
  shows "\<exists>k'. run_proc hello_prog files mem p x k = Some k' \<and> hello_inv full k'"
proof (cases "resume x")
  case ToUser
  have "pc (user x) \<noteq> Spinning" using hello_invD(2) [OF k x] by (simp add: hello_proc_def hello_state_def)
  then show ?thesis using hello_says [OF k c x ToUser] hello_calls [OF k c x ToUser, of mem files] mem files by (cases "pc (user x)") auto
next
  case InWait
  then have "pc (user x) = Wait" using hello_invD(2) [OF k x] by (simp add: hello_proc_def hello_state_def)
  moreover have "0 < children x" using kernel_invD(3) [OF hello_invD(1) [OF k] x] InWait by (simp add: proc_inv_def)
  ultimately show ?thesis using hello_wait_loop [OF k c x] InWait by (simp add: run_proc_def hello_prog_def stub_defs)
next
  case (InSleep start us)
  then have "pc (user x) = Sleep" using hello_invD(2) [OF k x] by (simp add: hello_proc_def hello_state_def)
  then show ?thesis using hello_sleep_loop [OF k c x, of start us] InSleep by (simp add: run_proc_def hello_prog_def stub_defs)
qed

lemma hello_step:
  assumes k: "hello_inv full k" and mem: "full \<Longrightarrow> \<forall>m. ev = Run m \<longrightarrow> m = Enough"
    and files: "full \<Longrightarrow> \<forall>args. snd (files SYS_READ args) = ''# Multiplix kernel''"
  shows "\<exists>k'. kernel_step hello_prog files ev k = Some k' \<and> hello_inv full k'"
proof (cases ev)
  case Dispatch
  have "procs (dispatch k) = procs k" "next_pid (dispatch k) = next_pid k" "console (dispatch k) = console k"
    by (auto simp: dispatch_def pop_back_def remove_proc_def Let_def split: option.splits if_splits)
  then show ?thesis using hello_keep [OF k dispatch_inv [OF hello_invD(1) [OF k]]] Dispatch by (simp add: kernel_step_def)
next
  case (Run m)
  show ?thesis
  proof (cases "current k")
    case None
    then show ?thesis using Run k by (simp add: kernel_step_def)
  next
    case (Some p)
    then obtain x where x: "procs k p = Some x" using kernel_invD(1) [OF hello_invD(1) [OF k]] by (auto simp: queue_inv_def)
    then show ?thesis using hello_run [OF k Some x, of m files] mem files Run Some by (simp add: kernel_step_def)
  qed
next
  case Tick
  then show ?thesis using hello_tick [OF k] by (simp add: kernel_step_def)
next
  case (Elapse t)
  then show ?thesis using hello_keep [OF k, of "k\<lparr>now := now k + t\<rparr>"] hello_invD(1) [OF k] by (simp add: kernel_step_def now_inv)
qed

lemma hello_boot: "hello_inv full (boot (hello_start st data))"
  using boot_inv [of "hello_start st data"]
  by (auto simp: hello_inv_def boot_def hello_start_def hello_proc_def hello_state_def progress_def loop_lines_def budget_def said_def)

lemma hello_runs:
  assumes "full \<Longrightarrow> \<forall>m. Run m \<in> set evs \<longrightarrow> m = Enough" and "full \<Longrightarrow> \<forall>args. snd (files SYS_READ args) = ''# Multiplix kernel''"
  shows "\<exists>k. run_kernel hello_prog files evs (boot (hello_start st data)) = Some k \<and> hello_inv full k"
  using assms(1)
proof (induction evs rule: rev_induct)
  case Nil
  then show ?case using hello_boot by (simp add: run_kernel_def)
next
  case (snoc ev evs)
  then obtain k where k: "run_kernel hello_prog files evs (boot (hello_start st data)) = Some k" "hello_inv full k" by auto
  then show ?case using hello_step [OF k(2), of ev files] snoc.prems assms(2) by (simp add: run_kernel_snoc)
qed

end
