(* ===== verification/HelloEnds.thy ===== *)
theory HelloEnds
  imports Hello
begin

text \<open>
  The test hello.c comes to its end: from every state it reaches, the work left can be done, and once the kernel has nothing more to
  run, every process has said all its lines.
\<close>

section \<open>The work left\<close>

fun work :: "pc \<Rightarrow> nat \<Rightarrow> nat" where
  "work Say_hello _ = 72" | "work Say_fs _ = 71" | "work Open _ = 70" | "work Say_fd _ = 69" | "work Stat _ = 68" | "work Say_stat _ = 67"
| "work Read _ = 66" | "work Say_pass _ = 65" | "work Say_fork _ = 64" | "work Fork_first _ = 63" | "work Fork_second _ = 31"
| "work Getpid _ = 15" | "work Say_waiting _ = 14" | "work Wait _ = 13" | "work Say_waited _ = 12"
| "work Say_loop n = 2 * (5 - n) + 1" | "work Sleep n = 2 * (5 - n)" | "work Finish _ = 1" | "work Abort _ = 1" | "work Spinning _ = 0"

text \<open>A process that sleeps, or waits in a queue, has nothing to do until it gets its turn.\<close>

definition weight :: "hello proc \<Rightarrow> nat" where
  "weight x =
     (if pstate x = Exited then 0
      else 10 * work (pc (user x)) (turn (user x)) + (if pstate x \<noteq> Blocked \<and> resume x \<in> {ToUser, InWait} then 1 else 0))"

definition rank :: "hello kernel \<Rightarrow> nat" where
  "rank k = (\<Sum>p\<in>dom (procs k). weight (the (procs k p)))"

lemma rank_same: "procs k' = procs k \<Longrightarrow> rank k' = rank k"
  by (simp add: rank_def)

lemma rank_split:
  assumes "finite (dom (procs k))" and "procs k p = Some x"
  shows "rank k = weight x + (\<Sum>q\<in>dom (procs k) - {p}. weight (the (procs k q)))"
  unfolding rank_def by (subst sum.remove [of _ p]) (use assms in auto)

lemma rank_update:
  assumes "finite (dom (procs k))" and "procs k p = Some x" and "procs k' = (procs k)(p \<mapsto> x')"
  shows "rank k' + weight x = rank k + weight x'"
proof -
  have "dom (procs k') = dom (procs k)" using assms(2,3) by auto
  moreover have "(\<Sum>q\<in>dom (procs k) - {p}. weight (the (procs k' q))) = (\<Sum>q\<in>dom (procs k) - {p}. weight (the (procs k q)))"
    by (rule sum.cong) (auto simp: assms(3))
  ultimately show ?thesis using rank_split [of k p x] rank_split [of k' p x'] assms by simp
qed

lemma rank_drop:
  assumes "finite (dom (procs k))" and "procs k' = (procs k)(p := None)"
  shows "rank k' \<le> rank k"
proof -
  have "rank k' = (\<Sum>q\<in>dom (procs k'). weight (the (procs k q)))" unfolding rank_def by (rule sum.cong) (auto simp: assms(2))
  also have "\<dots> \<le> rank k" unfolding rank_def by (rule sum_mono2) (use assms in auto)
  finally show ?thesis .
qed

lemma rank_new:
  assumes "finite (dom (procs k))" and "procs k p = None" and "procs k' = (procs k)(p \<mapsto> x)"
  shows "rank k' = rank k + weight x"
proof -
  have "dom (procs k') - {p} = dom (procs k)" using assms(2,3) by auto
  moreover have "(\<Sum>q\<in>dom (procs k). weight (the (procs k' q))) = rank k"
    unfolding rank_def by (rule sum.cong) (use assms in auto)
  ultimately show ?thesis using rank_split [of k' p x] assms by simp
qed

text \<open>A step that leaves less work to the running process.\<close>

lemma rank_return:
  assumes "finite (dom (procs k1))" and "procs k1 p = Some x" and "pstate x = Runnable" and "pstate x' = Runnable"
    and "rank k1 \<le> rank k" and "work (pc u) (turn u) < work (pc (user x)) (turn (user x))"
  shows "rank (return_user p x' u k1) < rank k"
proof -
  have "rank (return_user p x' u k1) + weight x = rank k1 + weight (x'\<lparr>user := u, resume := ToUser\<rparr>)"
    by (rule rank_update) (use assms in \<open>simp_all add: return_user_def set_proc_def\<close>)
  moreover have "weight (x'\<lparr>user := u, resume := ToUser\<rparr>) < weight x" using assms(3,4,6) by (simp add: weight_def)
  ultimately show ?thesis using assms(5) by simp
qed

lemma rank_leave:
  assumes "finite (dom (procs k1))" and "procs k1 p = Some x" and "st \<noteq> Runnable" and "yield_proc p (proc_wait q st p (x\<lparr>resume := r\<rparr>) k1) = Some k'"
  shows "rank k' + weight x = rank k1 + weight (x\<lparr>resume := r, pstate := st, wq := Some q\<rparr>)"
  by (rule rank_update [OF assms(1,2)]) (use assms(3,4) in \<open>auto simp: yield_proc_def proc_wait_def push_front_def set_proc_def\<close>)

lemma wake_parent_procs:
  assumes "wake_parent x k = Some k1"
  shows "procs k1 = procs k \<or> (\<exists>q y. procs k q = Some y \<and> pstate y = Blocked \<and> procs k1 = (procs k)(q \<mapsto> y\<lparr>pstate := Runnable\<rparr>))"
  using assms
  by (auto simp: wake_parent_def wake_def push_front_def set_proc_def remove_proc_def bind_eq_Some_conv split: option.splits if_splits) blast

lemma rank_exit:
  assumes k: "hello_inv full k" and c: "current k = Some p" and x: "procs k p = Some x"
    and pc: "pc (user x) = Finish" and e: "sys_exit p x k = Some k'"
  shows "rank k' < rank k"
proof -
  note ki = hello_invD(1) [OF k]
  have run: "pstate x = Runnable" using kernel_invD(1) [OF ki] c x by (auto simp: queue_inv_def)
  obtain k1 where k1: "wake_parent x k = Some k1" "kernel_inv k1" "procs k1 p = Some x"
    using wake_parent_inv [OF ki c x hello_parents [OF k]] by (elim exE conjE) (rule that)
  have "rank k1 \<le> rank k + 1"
    using wake_parent_procs [OF k1(1)]
  proof
    assume "procs k1 = procs k"
    then show ?thesis using rank_same [of k1 k] by simp
  next
    assume "\<exists>q y. procs k q = Some y \<and> pstate y = Blocked \<and> procs k1 = (procs k)(q \<mapsto> y\<lparr>pstate := Runnable\<rparr>)"
    then obtain q y where y: "procs k q = Some y" "pstate y = Blocked" "procs k1 = (procs k)(q \<mapsto> y\<lparr>pstate := Runnable\<rparr>)" by (elim exE conjE)
    have "weight (y\<lparr>pstate := Runnable\<rparr>) \<le> weight y + 1" using y(2) by (auto simp: weight_def)
    then show ?thesis using rank_update [OF kernel_invD(2) [OF ki] y(1,3)] by simp
  qed
  moreover have y: "yield_proc p (proc_wait Exitq Exited p (x\<lparr>resume := resume x\<rparr>) k1) = Some k'" using e k1(1) by (simp add: sys_exit_def)
  have "rank k' + weight x = rank k1 + weight (x\<lparr>resume := resume x, pstate := Exited, wq := Some Exitq\<rparr>)"
    using rank_leave [OF kernel_invD(2) [OF k1(2)] k1(3) _ y] by (simp del: proc.update_convs)
  ultimately show ?thesis using run pc by (simp add: weight_def)
qed

lemma rank_fork:
  assumes k: "hello_inv full k" and x: "procs k p = Some x" and run: "pstate x = Runnable" and pn: "p \<noteq> next_pid k"
    and w: "work (pc (ret 0)) (turn (ret 0)) + work (pc (ret (word_of_int (next_pid k)))) (turn (ret (word_of_int (next_pid k)))) < work (pc (user x)) (turn (user x))"
  shows "rank (sys_fork Enough p x ret k) < rank k"
proof -
  note ki = hello_invD(1) [OF k]
  define n where "n = next_pid k"
  define y where "y = \<lparr>user = ret 0, resume = ToUser, parent = Some p, children = 0, pstate = Runnable, wq = None\<rparr>"
  let ?k = "set_proc n (Some y) k" and ?u = "ret (word_of_int n)" and ?x = "x\<lparr>children := children x + 1\<rparr>"
  have fresh: "procs k n = None" using kernel_invD(3) [OF ki, of n] by (cases "procs k n") (auto simp: proc_inv_def n_def)
  have 1: "rank ?k = rank k + weight y" "finite (dom (procs ?k))" "procs ?k p = Some x"
    using rank_new [OF kernel_invD(2) [OF ki] fresh, of ?k y] kernel_invD(2) [OF ki] x pn by (simp_all add: set_proc_def n_def)
  have "rank (sys_fork Enough p x ret k) + weight x = rank ?k + weight (?x\<lparr>user := ?u, resume := ToUser\<rparr>)"
    by (rule rank_update [OF 1(2,3)])
      (simp add: sys_fork_def Let_def return_user_def push_front_def set_proc_def n_def y_def)
  then show ?thesis using 1(1) run w by (simp add: weight_def y_def n_def)
qed

lemma rank_wait:
  assumes k: "hello_inv full k" and c: "current k = Some p" and x: "procs k p = Some x" and run: "pstate x = Runnable"
    and pc: "pc (user x) = Wait" "resume x \<in> {ToUser, InWait}"
    and e: "wait_loop p x (\<lambda>w. user x\<lparr>pc := Say_waited, waited_pid := c_int w\<rparr>) k = Some k'"
  shows "rank k' < rank k"
proof (cases "zombie_of p k")
  case None
  then have "yield_proc p (proc_wait Waitq Blocked p (x\<lparr>resume := InWait\<rparr>) k) = Some k'" using e by (simp add: wait_loop_def)
  then have "rank k' + weight x = rank k + weight (x\<lparr>resume := InWait, pstate := Blocked, wq := Some Waitq\<rparr>)"
    by (rule rank_leave [OF kernel_invD(2) [OF hello_invD(1) [OF k]] x, rotated]) simp
  then show ?thesis using run pc by (auto simp: weight_def)
next
  case (Some z)
  obtain y where y: "procs k z = Some y" "pstate y = Exited" using zombie_of_Some [OF Some hello_invD(1) [OF k]] by blast
  let ?k = "set_proc z None (remove_proc Exitq z k)"
  have ps: "procs ?k = (procs k)(z := None)" by (simp add: set_proc_def remove_proc_def)
  note fin = kernel_invD(2) [OF hello_invD(1) [OF k]]
  have "rank (return_user p (x\<lparr>children := children x - 1\<rparr>) (user x\<lparr>pc := Say_waited, waited_pid := c_int (word_of_int z)\<rparr>) ?k) < rank k"
    by (rule rank_return) (use x y run pc fin rank_drop [OF fin ps] in \<open>auto simp: ps\<close>)
  then show ?thesis using e Some by (simp add: wait_loop_def)
qed

lemma rank_sleep:
  assumes k: "hello_inv full k" and c: "current k = Some p" and x: "procs k p = Some x" and run: "pstate x = Runnable"
    and pc: "pc (user x) = Sleep" and u: "resume x = ToUser \<or> us \<le> now k - start"
    and e: "sleep_loop start us p x (\<lambda>_. user x\<lparr>pc := (if turn (user x) + 1 < 5 then Say_loop else Finish), turn := turn (user x) + 1\<rparr>) k = Some k'"
  shows "rank k' < rank k"
proof -
  note fin = kernel_invD(2) [OF hello_invD(1) [OF k]]
  have turn: "turn (user x) < 5" using hello_invD(2) [OF k x] pc by (simp add: hello_proc_def hello_state_def)
  show ?thesis
  proof (cases "us \<le> now k - start")
    case True
    have "rank (return_user p x (user x\<lparr>pc := (if turn (user x) + 1 < 5 then Say_loop else Finish), turn := turn (user x) + 1\<rparr>) k) < rank k"
      by (rule rank_return) (use x run pc fin turn in auto)
    then show ?thesis using e True by (simp add: sleep_loop_def)
  next
    case False
    then have "yield_proc p (proc_wait Ticksq Blocked p (x\<lparr>resume := InSleep start us\<rparr>) k) = Some k'" using e by (simp add: sleep_loop_def)
    then have "rank k' + weight x = rank k + weight (x\<lparr>resume := InSleep start us, pstate := Blocked, wq := Some Ticksq\<rparr>)"
      by (rule rank_leave [OF fin x, rotated]) simp
    then show ?thesis using run u False by (simp add: weight_def)
  qed
qed

text \<open>Every step of a process in user mode leaves less to do, and so does every sleep that is over.\<close>

lemma rank_run:
  assumes k: "hello_inv True k" and c: "current k = Some p" and x: "procs k p = Some x"
    and files: "\<forall>args. snd (files SYS_READ args) = ''# Multiplix kernel''"
    and over: "\<And>start us. resume x = InSleep start us \<Longrightarrow> us \<le> now k - start"
    and r: "run_proc hello_prog files Enough p x k = Some k'"
  shows "rank k' < rank k"
proof -
  note ki = hello_invD(1) [OF k] and px = hello_invD(2) [OF k x]
  have run: "pstate x = Runnable" using kernel_invD(1) [OF ki] c x by (auto simp: queue_inv_def)
  have state: "pc (user x) \<noteq> Spinning" "pc (user x) \<noteq> Abort" "pc (user x) \<in> {Say_loop, Sleep} \<Longrightarrow> turn (user x) < 5" "p < next_pid k"
    "pc (user x) = Finish \<Longrightarrow> resume x = ToUser"
    using px kernel_invD(3) [OF ki x] by (cases "resume x"; auto simp: hello_proc_def hello_state_def proc_inv_def)+
  have return: "rank (return_user p x u k1) < rank k" if "procs k1 = procs k" "work (pc u) (turn u) < work (pc (user x)) (turn (user x))" for u k1
    by (rule rank_return) (use that x run kernel_invD(2) [OF ki] rank_same [of k1 k] in auto)
  note handler = run_proc_def hello_prog_def stub_defs syscall_handler_def file_call_def num_arg_def print_def
  show ?thesis
  proof (cases "resume x")
    case InWait
    then have "pc (user x) = Wait" using px by (simp add: hello_proc_def hello_state_def)
    then show ?thesis using rank_wait [OF k c x run] r InWait by (simp add: handler)
  next
    case (InSleep start us)
    then have "pc (user x) = Sleep" using px by (simp add: hello_proc_def hello_state_def)
    then show ?thesis using rank_sleep [OF k c x run, of us start] over [OF InSleep] r InSleep by (simp add: handler)
  next
    case ToUser
    show ?thesis
    proof (cases "pc (user x)")
      case Read
      then show ?thesis using r ToUser files title_read by (auto simp: handler split_beta Let_def intro!: return)
    next
      case Fork_first
      then show ?thesis using r ToUser rank_fork [OF k x run, of "\<lambda>_. user x\<lparr>pc := Fork_second\<rparr>"] state(4) by (simp add: handler)
    next
      case Fork_second
      then show ?thesis using r ToUser rank_fork [OF k x run, of "\<lambda>w. user x\<lparr>pc := Getpid, child_pid := c_int w\<rparr>"] state(4) by (simp add: handler)
    next
      case Wait
      then show ?thesis using r ToUser rank_wait [OF k c x run] by (auto simp: handler sys_wait_def intro!: return split: if_splits)
    next
      case Sleep
      then show ?thesis using r ToUser rank_sleep [OF k c x run, of 100000 "now k"] by (simp add: handler sys_usleep_def)
    next
      case Finish
      then show ?thesis using r ToUser rank_exit [OF k c x] by (simp add: handler)
    qed (use r ToUser state in \<open>auto simp: handler split_beta Let_def intro!: return\<close>)
  qed
qed

text \<open>Nothing to run, now or after the timer.\<close>

definition idle :: "'u kernel \<Rightarrow> bool" where
  "idle k \<longleftrightarrow> current k = None \<and> queues k Runq = [] \<and> queues k Ticksq = []"

definition reads_file :: "files \<Rightarrow> bool" where
  "reads_file files \<longleftrightarrow> (\<forall>args. snd (files SYS_READ args) = ''# Multiplix kernel'')"

definition drives :: "files \<Rightarrow> event list \<Rightarrow> hello kernel \<Rightarrow> hello kernel \<Rightarrow> bool" where
  "drives files evs k k' \<longleftrightarrow> run_kernel hello_prog files evs k = Some k' \<and> (\<forall>m. Run m \<in> set evs \<longrightarrow> m = Enough) \<and> hello_inv True k'"

lemma drives_append: "drives files evs k k1 \<Longrightarrow> drives files evs' k1 k' \<Longrightarrow> drives files (evs @ evs') k k'"
  by (auto simp: drives_def run_kernel_append)

lemma drive_current:
  assumes k: "hello_inv True k" and c: "current k = Some p" and files: "reads_file files"
  shows "\<exists>evs k'. drives files evs k k' \<and> rank k' < rank k"
proof -
  obtain x where x: "procs k p = Some x" using kernel_invD(1) [OF hello_invD(1) [OF k]] c by (auto simp: queue_inv_def)
  define t where "t = (case resume x of InSleep start us \<Rightarrow> start + us | _ \<Rightarrow> 0)"
  let ?k = "k\<lparr>now := now k + t\<rparr>"
  have k1: "hello_inv True ?k" by (rule hello_keep [OF k]) (use hello_invD(1) [OF k] in \<open>simp_all add: now_inv\<close>)
  have x1: "current ?k = Some p" "procs ?k p = Some x" "rank ?k = rank k" using c x rank_same [of ?k k] by simp_all
  obtain k' where k': "run_proc hello_prog files Enough p x ?k = Some k'" "hello_inv True k'" using hello_run [OF k1 x1(1,2), of Enough files] files by (auto simp: reads_file_def)
  have "rank k' < rank ?k" by (rule rank_run [OF k1 x1(1,2) _ _ k'(1)]) (use files in \<open>simp_all add: t_def reads_file_def\<close>)
  moreover have "drives files [Elapse t, Run Enough] k k'" using k' c x by (simp add: drives_def run_kernel_def kernel_step_def)
  ultimately show ?thesis using x1(3) by auto
qed

lemma drive_queue:
  assumes k: "hello_inv True k" and c: "current k = None" "queues k Runq \<noteq> []" and files: "reads_file files"
  shows "\<exists>evs k'. drives files evs k k' \<and> rank k' < rank k"
proof -
  have f: "procs (dispatch k) = procs k" "next_pid (dispatch k) = next_pid k" "console (dispatch k) = console k" "current (dispatch k) = Some (last (queues k Runq))"
    using c by (auto simp: dispatch_def pop_back_def remove_proc_def Let_def)
  have k1: "hello_inv True (dispatch k)" by (rule hello_keep [OF k dispatch_inv [OF hello_invD(1) [OF k]] f(1-3)])
  have "drives files [Dispatch] k (dispatch k)" using k1 by (simp add: drives_def run_kernel_def kernel_step_def)
  moreover obtain evs k' where "drives files evs (dispatch k) k'" "rank k' < rank k" using drive_current [OF k1 f(4) files] rank_same [OF f(1)] by auto
  ultimately show ?thesis using drives_append by blast
qed

lemma drive_sleepers:
  assumes k: "hello_inv True k" and c: "current k = None" "queues k Runq = []" "queues k Ticksq \<noteq> []"
    and files: "reads_file files"
  shows "\<exists>evs k'. drives files evs k k' \<and> rank k' < rank k"
proof -
  obtain k1 where k1: "wake_all Ticksq k = Some k1" "hello_inv True k1" "current k1 = current k"
    "\<And>p. procs k1 p = map_option (\<lambda>x. if p \<in> set (queues k Ticksq) then x\<lparr>pstate := Runnable\<rparr> else x) (procs k p)"
    using hello_wakes [OF k] by blast
  have sleeper: "\<exists>x. procs k p = Some x \<and> pstate x = Blocked \<and> resume x \<noteq> ToUser \<and> resume x \<noteq> InWait" if q: "p \<in> set (queues k Ticksq)" for p
  proof -
    obtain x where x: "procs k p = Some x" "pstate x = Blocked" "wq x = Some Ticksq" using sleeping [OF hello_invD(1) [OF k] q] by blast
    then have "resume x \<noteq> ToUser \<and> resume x \<noteq> InWait" using hello_invD(2) [OF k x(1)] unfolding hello_proc_def hello_state_def by blast
    then show ?thesis using x by blast
  qed
  have "weight (the (procs k1 p)) = weight (the (procs k p))" if "p \<in> dom (procs k)" for p
    using that sleeper [of p] by (cases "p \<in> set (queues k Ticksq)") (auto simp: k1(4) weight_def)
  moreover have "dom (procs k1) = dom (procs k)" by (auto simp: k1(4))
  ultimately have same: "rank k1 = rank k" unfolding rank_def by simp
  define p where "p = hd (queues k Ticksq)"
  have p: "p \<in> set (queues k Ticksq)" using c by (simp add: p_def)
  then obtain x where "procs k1 p = Some (x\<lparr>pstate := Runnable\<rparr>)" using sleeper [of p] by (auto simp: k1(4))
  moreover have "p \<in> set (queues k1 Runq) \<longleftrightarrow> (\<exists>x. procs k1 p = Some x \<and> location (current k1) p x = Some Runq)"
    using kernel_invD(1) [OF hello_invD(1) [OF k1(2)]] by (simp add: queue_inv_def)
  ultimately have "p \<in> set (queues k1 Runq)" using k1(3) c(1) by (simp add: location_def)
  then have "queues k1 Runq \<noteq> []" by auto
  then obtain evs k' where "drives files evs k1 k'" "rank k' < rank k" using drive_queue [OF k1(2) _ _ files] k1(3) c(1) same by auto
  moreover have "drives files [Tick] k k1" using k1(1-3) c by (simp add: drives_def run_kernel_def kernel_step_def irq_handler_def)
  ultimately show ?thesis using drives_append by blast
qed

lemma drive_to_end:
  assumes "hello_inv True k" and files: "reads_file files"
  shows "\<exists>evs k'. drives files evs k k' \<and> idle k'"
  using assms(1)
proof (induction k rule: measure_induct_rule [of rank])
  case (less k)
  show ?case
  proof (cases "idle k")
    case True
    then have "drives files [] k k" using less.prems by (simp add: drives_def run_kernel_def)
    then show ?thesis using True by blast
  next
    case False
    then have "\<exists>evs k'. drives files evs k k' \<and> rank k' < rank k"
      using drive_current [OF less.prems _ files] drive_queue [OF less.prems _ _ files] drive_sleepers [OF less.prems _ _ _ files]
      by (cases "current k") (auto simp: idle_def)
    then obtain evs k1 where k1: "drives files evs k k1" "rank k1 < rank k" by blast
    then obtain evs' k' where "drives files evs' k1 k'" "idle k'" using less.IH [OF k1(2)] by (auto simp: drives_def)
    then show ?thesis using drives_append [OF k1(1)] by blast
  qed
qed

section \<open>The end\<close>

lemma hello_done:
  assumes k: "hello_inv True k" and "idle k"
  shows "next_pid k = 4 \<and> (\<forall>p\<in>{0..3}. \<exists>fd buf z. said k p =
    (if p = 0 then file_lines fd buf else []) @ (if p < 2 then wait_lines p z else []) @ loop_lines p 5)"
proof -
  have gone: "pc (user x) = Finish" "turn (user x) = 5" if x: "procs k p = Some x" for p x
  proof -
    have "pstate x = Exited" by (rule no_deadlock [OF hello_invD(1) [OF k] _ _ _ x]) (use assms(2) in \<open>simp_all add: idle_def\<close>)
    then show "pc (user x) = Finish" "turn (user x) = 5" using hello_invD(2) [OF k x] by (auto simp: hello_proc_def hello_state_def)
  qed
  have "budget k = 0" unfolding budget_def by (rule sum.neutral) (use gone in auto)
  then have n: "next_pid k = 4" using hello_invD(8) [OF k] by simp
  moreover have "\<exists>fd buf z. said k p = (if p = 0 then file_lines fd buf else []) @ (if p < 2 then wait_lines p z else []) @ loop_lines p 5"
    if p: "p \<in> {0..3}" for p
  proof -
    have "\<exists>u. pc u = Finish \<and> turn u = 5 \<and> (child_pid u = 0 \<longleftrightarrow> 2 \<le> p) \<and> said k p = progress p u"
    proof (cases "procs k p")
      case None
      then show ?thesis using hello_invD(3) [OF k, of p] p n by (auto simp: finished_def)
    next
      case (Some x)
      then show ?thesis using hello_invD(2) [OF k Some] gone [OF Some] by (auto simp: hello_proc_def hello_state_def)
    qed
    then obtain u where u: "pc u = Finish" "turn u = 5" "child_pid u = 0 \<longleftrightarrow> 2 \<le> p" "said k p = progress p u" by blast
    have "take 6 (file_lines (file_fd u) (stat_buf u)) = file_lines (file_fd u) (stat_buf u)" "take 2 (wait_lines p (waited_pid u)) = wait_lines p (waited_pid u)"
      by (simp_all add: file_lines_def wait_lines_def)
    then have "said k p = (if p = 0 then file_lines (file_fd u) (stat_buf u) else []) @ (if p < 2 then wait_lines p (waited_pid u) else []) @ loop_lines p 5"
      using u by (auto simp: progress_def)
    then show ?thesis by blast
  qed
  ultimately show ?thesis by blast
qed

text \<open>
  C25: Whatever the order of the events, the memory there is for a fork and the answers of the file system, the kernel never uses
  a process that has been freed while it runs the test: every sequence of events runs to its end.
\<close>

theorem hello_never_fails: "\<exists>k. run_kernel hello_prog files evs (boot (hello_start st data)) = Some k"
proof -
  obtain k where "run_kernel hello_prog files evs (boot (hello_start st data)) = Some k"
    using hello_runs [of False evs files st data] by auto
  then show ?thesis by blast
qed

text \<open>
  C10: With memory for the forks and with the title in the file, once the kernel has nothing more to run the test has made four processes.
  The first has said the lines of the file system test, the two that forked have each waited for a child, and
  all four have counted their five turns, each under its own number and in this order.
\<close>

theorem hello_output:
  assumes "run_kernel hello_prog files evs (boot (hello_start st data)) = Some k"
    and "\<forall>m. Run m \<in> set evs \<longrightarrow> m = Enough" and "\<forall>args. snd (files SYS_READ args) = ''# Multiplix kernel''" and "idle k"
  shows "next_pid k = 4 \<and> (\<forall>p\<in>{0..3}. \<exists>fd buf z. said k p =
    (if p = 0 then file_lines fd buf else []) @ (if p < 2 then wait_lines p z else []) @ loop_lines p 5)"
  using hello_runs [of True evs files st data] hello_done [OF _ assms(4)] assms(1-3) by auto

lemma drive_from_boot:
  assumes "reads_file files"
  shows "\<exists>evs k. run_kernel hello_prog files evs (boot (hello_start st data)) = Some k \<and> (\<forall>m. Run m \<in> set evs \<longrightarrow> m = Enough) \<and> idle k"
  using drive_to_end [OF hello_boot assms, of st data] unfolding drives_def by blast

theorem hello_output_witness:
  "\<exists>evs k. run_kernel hello_prog (\<lambda>_ _. (0, ''# Multiplix kernel'')) evs (boot (hello_start '''' '''')) = Some k \<and> idle k
    \<and> next_pid k = 4 \<and> (\<exists>z. said k 1 = wait_lines 1 z @ loop_lines 1 5)"
proof -
  let ?files = "\<lambda>_ _. (0, ''# Multiplix kernel'')"
  obtain evs k where k: "run_kernel hello_prog ?files evs (boot (hello_start '''' '''')) = Some k" "\<forall>m. Run m \<in> set evs \<longrightarrow> m = Enough" "idle k"
    using drive_from_boot [of ?files "''''" "''''"] by (auto simp: reads_file_def)
  have out: "next_pid k = 4" "\<forall>p\<in>{0..3}. \<exists>fd buf z. said k p =
    (if p = 0 then file_lines fd buf else []) @ (if p < 2 then wait_lines p z else []) @ loop_lines p 5"
    using hello_output [OF k(1,2) _ k(3)] by simp_all
  show ?thesis using k(1,3) out(1) bspec [OF out(2), of 1] by auto
qed

text \<open>
  C23: The test can always be brought to its end: from whatever state a sequence of events has led to, more events lead to one in which
  all four processes have been made and nothing is left to run, now or after the timer.
\<close>

theorem hello_completes:
  assumes "\<forall>m. Run m \<in> set evs \<longrightarrow> m = Enough" and "\<forall>args. snd (files SYS_READ args) = ''# Multiplix kernel''"
  shows "\<exists>more k. run_kernel hello_prog files (evs @ more) (boot (hello_start st data)) = Some k \<and> idle k \<and> next_pid k = 4"
proof -
  obtain k where k: "run_kernel hello_prog files evs (boot (hello_start st data)) = Some k" "hello_inv True k"
    using hello_runs [of True evs files st data] assms by auto
  obtain more k' where "drives files more k k'" "idle k'" using drive_to_end [OF k(2), of files] assms(2) by (auto simp: reads_file_def)
  then show ?thesis using k(1) hello_done [of k'] by (auto simp: run_kernel_append drives_def)
qed

theorem hello_completes_witness:
  "\<exists>more k. run_kernel hello_prog (\<lambda>_ _. (0, ''# Multiplix kernel'')) ([Dispatch, Run Enough, Tick] @ more) (boot (hello_start '''' '''')) = Some k
    \<and> idle k \<and> next_pid k = 4"
  by (rule hello_completes) simp_all

end
