(* ===== verification/Spec2Isabelle.thy ===== *)
theory Spec2Isabelle
  imports Coremark SeedArg PrintfFormat FloatProps MkfsProps HelloEnds
begin

text \<open>
  The C programs of Multiplix: the CoreMark benchmark that runs on the kernel (src/coremark), with its
  formatted output (src/coremark/multiplix), the tool that builds the file system image the kernel
  mounts (src/tools/mkfs), and the test program (src/user/hello) with its system call stubs (src/user/syslib). Of the kernel,
  which is written in D, the processes, the scheduler and the system calls are modelled (src/src/plix), since the test program rests on them.

  The parts and how they interact.

  \<^item> Crc: \<open>crcu8\<close>, \<open>crcu16\<close>, \<open>crcu32\<close>, \<open>crc16\<close> of core_util.c. Every checksum of the benchmark goes through
    them. They are a serial shift register over the bits of their input, and a CRC over a sequence tells
    apart sequences that differ in one value.
  \<^item> CoreState: core_state.c. \<open>state_switch\<close> is the body of the state machine, \<open>transition_loop\<close> its loop,
    \<open>core_bench_state\<close> the benchmark with its two corruption loops, \<open>core_init_state\<close> the initialisation. The
    lemmas classify every token, bound every access to the block, and say when the block is restored.
  \<^item> CoreMatrix: core_matrix.c. Matrices are lists of words with checked accesses; the lemmas give the
    value of every entry, the bounds under which no product wraps, and the layout in the block.
  \<^item> ListHeap, MergeSort, CoreList: the code of core_list_join.c. A list is an array of list heads linked by
    indices. ListHeap has removal, its undo and reversal, MergeSort the sort over any comparison, CoreList
    the comparison functions, search, insertion, initialisation and \<open>core_bench_list\<close>. ListSort proves that
    both comparison functions keep the contract of the locale \<open>comparator\<close>, so that the sort is stable and
    sorts; ListBench that a run gives the list back; ListInit that \<open>core_list_init\<close> builds such a list;
    ListSim that a run depends only on the fields of the results that \<open>same_run\<close> compares.
  \<^item> Printf: multiplix/ee_printf.c without floating point. \<open>ee_vsprintf\<close> is the loop over the format,
    \<open>directive\<close> one conversion, \<open>number\<close> the layout of a number. The lemmas give the text of a number, and the
    texts that the report uses; ee_printf overruns its buffer for longer texts, which is \<open>None\<close>. PrintfFormat shows what a whole format
    prints, by an independent description of each directive (\<open>printed\<close>).
  \<^item> Double, Cvt, PrintFloat: the conversions that \<open>HAS_FLOAT\<close> adds, cvt.c and the end of ee_printf.c. Double has the
    arithmetic, \<open>cvt\<close> the digits, \<open>parse_float\<close> and \<open>flt\<close> their layout. CvtExact shows that the digits of \<open>fcvtbuf\<close> are
    exact, FloatExp that those of \<open>ecvtbuf\<close> are within half a unit, FloatErrors where buffers are overrun and text is lost;
    FloatProps holds the theorems.
  \<^item> CoreMain: core_main.c, the timing of core_portme.c and the seeds of core_util.c. \<open>prepare\<close> runs from the
    seeds to the blocks, \<open>iterate\<close> and \<open>calibrate\<close> are the timed loops, \<open>validate\<close> and the \<open>report\<close> functions the
    end. MainInit, MainRun and MainReport hold the lemmas of these three stages, and Coremark the
    theorems about whole runs.
  \<^item> SeedArg: \<open>parseval\<close> and \<open>get_seed_args\<close> of core_util.c, used by builds that take seeds as arguments.
  \<^item> FsFormat, Mkfs: tools/mkfs. FsFormat has the structures of fs.h as bytes, with the byte order of the
    host, and \<open>xshort\<close>, \<open>xint\<close>; Mkfs the program, over an image that is a list of sectors. MkfsDisk shows that
    sectors and inodes both keep the laws of the locale \<open>store\<close>; MkfsFile says what a file of an image is,
    MkfsAppend what \<open>iappend\<close> does to it, MkfsSpec what a whole image represents (\<open>rep\<close>, a list of files) and
    that \<open>ialloc\<close> and \<open>iappend\<close> refine operations on lists of files; MkfsImage does the same for \<open>main\<close>;
    MkfsProps holds the theorems.
  \<^item> Kernel, KernelInv: schedule.d, proc.d, syscall.d and the timer interrupt of trap.d. \<open>kernel_step\<close> is one event: the scheduler
    takes a process, a process makes a system call or goes on in one, the timer interrupts, time passes. KernelInv has the
    invariant of the queues and the families (\<open>kernel_inv\<close>), that the system calls cannot deadlock, and when they use a freed process.
  \<^item> UserLib, Hello, HelloEnds: user/syslib and user/hello/hello.c. A stub is what a process does next; \<open>hello_prog\<close> is \<open>main\<close>, as its
    steps between two system calls. Hello shows that every order of events keeps \<open>hello_inv\<close>, with which HelloEnds shows what the
    four processes print and, by the measure \<open>rank\<close>, that the test can always be brought to its end.

  Correspondence. Machine integers are words, so their arithmetic wraps, except in Printf and SeedArg,
  where integers with a range check stand for signed \<open>int\<close>, whose overflow is undefined. Pointers into an object are
  indices into a list; an access outside it is \<open>None\<close>. \<open>exit(1)\<close> and assertions of mkfs are the values of
  \<open>mkfs_error\<close>. Loops with a bound are structural recursions or \<open>for_loop\<close>; \<open>merge_loop\<close>, \<open>iappend_loop\<close>,
  \<open>digit_loop\<close> and the other \<open>function\<close>s have termination proofs; loops that may not end (a search in a
  cyclic list, the calibration, a corruption loop with step 0) are \<open>partial_function (option)\<close>, where not ending is \<open>None\<close>,
  and theorems about them state that they return.

  Parameters. The clock and its frequency, the compiler strings and the uninitialised results in the benchmark;
  whether the host is big endian, which files it can open and what reading them returns in mkfs. For the kernel: the program of
  the processes (\<open>prog\<close>), what the file system answers (\<open>files\<close>), whether a fork finds memory (\<open>Run\<close>), and the order of the events.

  Bounds. A \<open>double\<close> is \<open>M * 2 ^ e\<close>; the theorems about its digits ask for at most 49 binary places and an integral
  part below \<open>2 ^ 50\<close>, so that the products and quotients by ten in \<open>cvt\<close> come out exactly, and for precisions that
  leave room in the buffers of 80 characters. An image of mkfs has 100 sectors, of which 54 hold data, and room for 207 inodes; so the
  theorems about its images take at most 206 files, and \<open>ialloc_past_inodes\<close> says what the next inode does.

  Not modelled: infinities and NaNs in the floating point
  conversions, which this port does not compile (\<open>HAS_FLOAT\<close> is 0), and their bounds on the exponent; the debug prints; the variants of core_main.c with
  dynamic or stack memory and several contexts; what mkfs prints, and failures of its seeks and writes. Of the
  kernel: booting, devices, virtual memory with its page faults, the file system, and its messages. The kernel model has one core and no interrupts
  in the kernel; \<open>runnable_proc\<close>, which takes a process with the interrupts on, is one step of it. \<open>printf\<close> of the C library, which is not in this repository, writes each line of hello.c at once.
\<close>

end
